(* ===== verification/Prelude.thy ===== *)
theory Prelude
  imports Main "HOL-Library.Word"
begin

text \<open>
  Shared material of the development: names for the machine integers of \<open>src/src/types.hpp\<close>,
  the alignment macros of \<open>src/src/mem/mem.hpp\<close>, and the facts on words, lists and
  function updates that the component theories use. Two collections of facts are kept:
  \<open>word_nat\<close> turns arithmetic on words that does not wrap into arithmetic on \<open>nat\<close>,
  \<open>list_upd\<close> holds facts about removing and inserting elements of distinct lists.
\<close>

unbundle bit_operations_syntax

named_theorems word_nat
named_theorems list_upd

type_synonym u8 = "8 word"
type_synonym u16 = "16 word"
type_synonym u32 = "32 word"
type_synonym u64 = "64 word"
type_synonym usize = "64 word"

section \<open>Alignment macros and page size\<close>

definition PAGE_SIZE :: usize where
  "PAGE_SIZE = 0x1000"

definition ALIGNUP :: "usize \<Rightarrow> usize \<Rightarrow> usize" where
  "ALIGNUP val align = (val + (align - 1)) AND NOT (align - 1)"

definition ALIGNDOWN :: "usize \<Rightarrow> usize \<Rightarrow> usize" where
  "ALIGNDOWN val align = val AND NOT (align - 1)"

section \<open>Words read as natural numbers\<close>

lemma unat_lt64 [simp]: "unat (a :: u64) < 18446744073709551616"
  using unsigned_less [of a] by simp

lemma unat_add_small [word_nat]:
  "unat (a :: u64) + unat b < 2 ^ 64 \<Longrightarrow> unat (a + b) = unat a + unat b"
  using unat_add_lem [of a b] by simp

lemma unat_sub_le [word_nat]:
  "b \<le> (a :: 'a::len word) \<Longrightarrow> unat (a - b) = unat a - unat b"
  by (rule unat_sub)

lemma unat_of_nat_small [word_nat]:
  "n < 2 ^ 64 \<Longrightarrow> unat (of_nat n :: u64) = n"
  by (simp add: unat_of_nat)

lemma word_eq_unat: "(a :: 'a::len word) = b \<longleftrightarrow> unat a = unat b"
  by (simp add: word_unat_eq_iff)

lemma unat_u8_u32 [simp]: "unat (ucast (b :: u8) :: u32) = unat b"
proof -
  have "unat b < 2 ^ LENGTH(8)" by (rule unsigned_less)
  then have "unat b < 2 ^ 32" by simp
  then show ?thesis by (simp only: unsigned_ucast_eq) (simp add: take_bit_nat_eq_self)
qed

lemma mask_clear_unat:
  fixes x :: "'a::len word"
  shows "x AND NOT (mask k) = push_bit k (drop_bit k x)"
  by (rule bit_word_eqI) (auto simp: bit_simps)

lemma unat_clear_low:
  fixes x :: "'a::len word"
  shows "unat (x AND NOT (mask k)) = unat x div 2 ^ k * 2 ^ k"
proof -
  have "unat (x AND NOT (mask k)) = unat (push_bit k (drop_bit k x))"
    by (simp only: mask_clear_unat)
  also have "\<dots> = take_bit LENGTH('a) (push_bit k (drop_bit k (unat x)))"
    by (simp add: unsigned_push_bit_eq unsigned_drop_bit_eq take_bit_nat_eq_self)
  also have "\<dots> = take_bit LENGTH('a) (unat x div 2 ^ k * 2 ^ k)"
    by (simp add: push_bit_eq_mult drop_bit_eq_div)
  also have "\<dots> = unat x div 2 ^ k * 2 ^ k"
  proof (rule take_bit_nat_eq_self)
    have "unat x div 2 ^ k * 2 ^ k \<le> unat x" by simp
    also have "\<dots> < 2 ^ LENGTH('a)" by (rule unsigned_less)
    finally show "unat x div 2 ^ k * 2 ^ k < 2 ^ LENGTH('a)" .
  qed
  finally show ?thesis .
qed

lemma two_pow_minus_one: "(2 ^ k :: 'a::len word) - 1 = mask k"
  by (simp add: mask_eq_exp_minus_1)

lemma ALIGNDOWN_unat [word_nat]:
  "unat (ALIGNDOWN v (2 ^ k)) = unat v div 2 ^ k * 2 ^ k"
  by (simp add: ALIGNDOWN_def two_pow_minus_one unat_clear_low)

lemma ALIGNUP_unat [word_nat]:
  assumes "k < 64" and "unat v + (2 ^ k - 1) < 2 ^ 64"
  shows "unat (ALIGNUP v (2 ^ k)) = (unat v + (2 ^ k - 1)) div 2 ^ k * 2 ^ k"
proof -
  have m: "unat (mask k :: u64) = 2 ^ k - 1"
  proof -
    have "unat (mask k :: u64) = mask k"
      using assms(1) by (intro bit_eqI) (auto simp: bit_unsigned_iff bit_mask_iff)
    then show ?thesis by (simp add: mask_eq_exp_minus_1)
  qed
  then have "unat (v + mask k) = unat v + (2 ^ k - 1)"
    using assms(2) by (simp add: unat_add_small)
  then show ?thesis by (simp add: ALIGNUP_def two_pow_minus_one unat_clear_low)
qed

lemma div_mult_le_up: "0 < q \<Longrightarrow> (n::nat) \<le> (n + (q - 1)) div q * q"
proof -
  assume q: "0 < q"
  have "(n + (q - 1)) div q * q + (n + (q - 1)) mod q = n + (q - 1)"
    by (rule div_mult_mod_eq)
  moreover have "(n + (q - 1)) mod q \<le> q - 1"
    using mod_less_divisor [OF q, of "n + (q - 1)"] by linarith
  ultimately show ?thesis by linarith
qed

end
