(* ===== verification/Intrusive_List.thy ===== *)
theory Intrusive_List
  imports Prelude
begin

text \<open>
  The intrusive doubly linked list \<open>DoubleList\<close> of \<open>src/src/std/double_list.hpp\<close>, which
  every other component of the kernel builds on. Pointers are values of a type \<open>'p\<close>, a
  null pointer is \<open>None\<close>; the hooks embedded in the elements are a store from pointers to
  hooks, and every operation returns the updated store and list head, assignment by
  assignment as in the source.

  The relation \<open>dl_rep\<close> says which list of elements a store and a head stand for. Every
  operation is shown to implement the corresponding operation on lists, and to leave the hooks
  of elements outside the list alone, so that several lists can share a store. The contract is
  stated twice, as the locale \<open>queue_iface\<close> and its extension \<open>deque_iface\<close>, and
  \<open>DoubleList\<close> is shown to provide it; the other components work with plain lists.
\<close>

section \<open>Data and operations\<close>

record 'p hook =
  hk_prev :: "'p option"
  hk_next :: "'p option"

record 'p dlist =
  root :: "'p option"
  end_ptr :: "'p option"

type_synonym 'p dl_state = "('p \<Rightarrow> 'p hook) \<times> 'p dlist"

definition set_prev :: "'p option \<Rightarrow> 'p \<Rightarrow> ('p \<Rightarrow> 'p hook) \<Rightarrow> 'p \<Rightarrow> 'p hook" where
  "set_prev p v h = h(v := (h v)\<lparr>hk_prev := p\<rparr>)"

definition set_next :: "'p option \<Rightarrow> 'p \<Rightarrow> ('p \<Rightarrow> 'p hook) \<Rightarrow> 'p \<Rightarrow> 'p hook" where
  "set_next n v h = h(v := (h v)\<lparr>hk_next := n\<rparr>)"

definition dl_empty :: "'p dlist" where
  "dl_empty = \<lparr>root = None, end_ptr = None\<rparr>"

definition dl_push_front :: "'p \<Rightarrow> 'p dl_state \<Rightarrow> 'p dl_state" where
  "dl_push_front v s = (case s of (h, l) \<Rightarrow>
     let h = set_next (root l) v (set_prev None v h)
     in case root l of
          Some r \<Rightarrow> (set_prev (Some v) r h, l\<lparr>root := Some v\<rparr>)
        | None \<Rightarrow> (h, l\<lparr>end_ptr := Some v, root := Some v\<rparr>))"

definition dl_push :: "'p \<Rightarrow> 'p dl_state \<Rightarrow> 'p dl_state" where
  "dl_push v s = (case s of (h, l) \<Rightarrow>
     let h = set_next None v (set_prev (end_ptr l) v h)
     in case end_ptr l of
          Some e \<Rightarrow> (set_next (Some v) e h, l\<lparr>end_ptr := Some v\<rparr>)
        | None \<Rightarrow> (h, l\<lparr>root := Some v, end_ptr := Some v\<rparr>))"

definition dl_pop_front :: "'p dl_state \<Rightarrow> 'p option \<times> 'p dl_state" where
  "dl_pop_front s = (case s of (h, l) \<Rightarrow>
     (case root l of
        None \<Rightarrow> (None, (h, l))
      | Some node \<Rightarrow>
          let l = l\<lparr>root := hk_next (h node)\<rparr>
          in case root l of
               Some r \<Rightarrow> (Some node, (set_prev None r h, l))
             | None \<Rightarrow> (Some node, (h, l\<lparr>end_ptr := None\<rparr>))))"

definition dl_pop :: "'p dl_state \<Rightarrow> 'p option \<times> 'p dl_state" where
  "dl_pop s = (case s of (h, l) \<Rightarrow>
     (case end_ptr l of
        None \<Rightarrow> (None, (h, l))
      | Some node \<Rightarrow>
          let l = l\<lparr>end_ptr := hk_prev (h node)\<rparr>
          in case end_ptr l of
               Some e \<Rightarrow> (Some node, (set_next None e h, l))
             | None \<Rightarrow> (Some node, (h, l\<lparr>root := None\<rparr>))))"

definition dl_remove :: "'p \<Rightarrow> 'p dl_state \<Rightarrow> 'p dl_state" where
  "dl_remove v s = (case s of (h, l) \<Rightarrow>
     let pv = hk_prev (h v);
         (h, l) = (case pv of
                     Some p \<Rightarrow> (set_next (hk_next (h v)) p h, l)
                   | None \<Rightarrow> (h, l\<lparr>root := hk_next (h v)\<rparr>))
     in case hk_next (h v) of
          Some n \<Rightarrow> (set_prev pv n h, l)
        | None \<Rightarrow> (h, l\<lparr>end_ptr := pv\<rparr>))"

definition dl_insert :: "'p option \<Rightarrow> 'p \<Rightarrow> 'p dl_state \<Rightarrow> 'p dl_state" where
  "dl_insert prv v s = (case s of (h, l) \<Rightarrow>
     let h = set_prev prv v h;
         (h, l) = (case prv of
                     Some p \<Rightarrow> (let h = set_next (hk_next (h p)) v h in (set_next (Some v) p h, l))
                   | None \<Rightarrow> (set_next (root l) v h, l\<lparr>root := Some v\<rparr>))
     in case hk_next (h v) of
          Some n \<Rightarrow> (set_prev (Some v) n h, l)
        | None \<Rightarrow> (h, l\<lparr>end_ptr := Some v\<rparr>))"

definition dl_insert_before :: "'p option \<Rightarrow> 'p \<Rightarrow> 'p dl_state \<Rightarrow> 'p dl_state" where
  "dl_insert_before nxt v s = (case s of (h, l) \<Rightarrow>
     let h = set_next nxt v h
     in case nxt of
          Some n \<Rightarrow>
            (let h = set_prev (hk_prev (h n)) v h;
                 h = set_prev (Some v) n h
             in case hk_prev (h v) of
                  Some p \<Rightarrow> (set_next (Some v) p h, l)
                | None \<Rightarrow> (h, l\<lparr>root := Some v\<rparr>))
        | None \<Rightarrow>
            (let h = set_next (root l) v (set_prev None v h)
             in case root l of
                  Some r \<Rightarrow> (set_prev (Some v) r h, l\<lparr>root := Some v\<rparr>)
                | None \<Rightarrow> (h, l\<lparr>end_ptr := Some v, root := Some v\<rparr>)))"

definition dl_clear :: "'p dl_state \<Rightarrow> 'p dl_state" where
  "dl_clear s = (case s of (h, l) \<Rightarrow> (h, l\<lparr>root := None, end_ptr := None\<rparr>))"

definition dl_is_empty :: "'p dl_state \<Rightarrow> bool" where
  "dl_is_empty s = (case s of (h, l) \<Rightarrow> root l = None)"

partial_function (option) dl_find_from ::
  "('p \<Rightarrow> bool) \<Rightarrow> ('p \<Rightarrow> 'p hook) \<Rightarrow> 'p option \<Rightarrow> 'p option option" where
  "dl_find_from cmp h it = (case it of
     None \<Rightarrow> Some None
   | Some p \<Rightarrow> if cmp p then Some (Some p) else dl_find_from cmp h (hk_next (h p)))"

definition dl_find :: "('p \<Rightarrow> bool) \<Rightarrow> 'p dl_state \<Rightarrow> 'p option option" where
  "dl_find cmp s = (case s of (h, l) \<Rightarrow> dl_find_from cmp h (root l))"

section \<open>Which list a store and a head stand for\<close>

definition first_or :: "'p option \<Rightarrow> 'p list \<Rightarrow> 'p option" where
  "first_or d xs = (case xs of [] \<Rightarrow> d | x # _ \<Rightarrow> Some x)"

definition last_or :: "'p option \<Rightarrow> 'p list \<Rightarrow> 'p option" where
  "last_or d xs = (if xs = [] then d else Some (last xs))"

fun links :: "('p \<Rightarrow> 'p hook) \<Rightarrow> 'p option \<Rightarrow> 'p list \<Rightarrow> 'p option \<Rightarrow> bool" where
  "links h pv [] nx = True"
| "links h pv (x # xs) nx \<longleftrightarrow>
     hk_prev (h x) = pv \<and> hk_next (h x) = first_or nx xs \<and> links h (Some x) xs nx"

definition dl_rep :: "'p dl_state \<Rightarrow> 'p list \<Rightarrow> bool" where
  "dl_rep s xs \<longleftrightarrow> distinct xs \<and> root (snd s) = first_or None xs \<and>
     end_ptr (snd s) = last_or None xs \<and> links (fst s) None xs None"

definition dl_frame :: "'p set \<Rightarrow> 'p dl_state \<Rightarrow> 'p dl_state \<Rightarrow> bool" where
  "dl_frame A s s' \<longleftrightarrow> (\<forall>p. p \<notin> A \<longrightarrow> fst s' p = fst s p)"

lemma first_or_simps [simp]:
  "first_or d [] = d" "first_or d (x # xs) = Some x" "first_or d (xs @ ys) = first_or (first_or d ys) xs"
  by (auto simp: first_or_def split: list.splits)

lemma last_or_simps [simp]:
  "last_or d [] = d" "last_or d (xs @ [x]) = Some x" "last_or d (x # xs) = last_or (Some x) xs"
  "last_or d (xs @ ys) = last_or (last_or d xs) ys"
  by (auto simp: last_or_def)

lemma first_or_None [simp]: "first_or None xs = None \<longleftrightarrow> xs = []"
  by (cases xs) auto

lemma links_append [simp]:
  "links h pv (xs @ ys) nx \<longleftrightarrow> links h pv xs (first_or nx ys) \<and> links h (last_or pv xs) ys nx"
  by (induction xs arbitrary: pv) auto

lemma links_cong:
  "(\<And>x. x \<in> set xs \<Longrightarrow> h' x = h x) \<Longrightarrow> links h' pv xs nx = links h pv xs nx"
  by (induction xs arbitrary: pv) auto

lemma links_upd [simp]: "v \<notin> set xs \<Longrightarrow> links (h(v := k)) pv xs nx = links h pv xs nx"
  by (rule links_cong) auto

lemmas dl_ops = dl_push_front_def dl_push_def dl_pop_front_def dl_pop_def dl_remove_def
  dl_insert_def dl_insert_before_def set_prev_def set_next_def

lemma dl_rep_distinct: "dl_rep s xs \<Longrightarrow> distinct xs"
  by (simp add: dl_rep_def)

lemma dl_rep_frame:
  assumes "dl_rep (h, l) xs" and "dl_frame A (h, l0) (h', l0')" and "A \<inter> set xs = {}"
  shows "dl_rep (h', l) xs"
proof -
  have "links h' None xs None = links h None xs None"
    using assms(2,3) by (intro links_cong) (auto simp: dl_frame_def)
  with assms(1) show ?thesis by (simp add: dl_rep_def)
qed

section \<open>Every operation implements its counterpart on lists\<close>

lemma dl_empty_rep: "dl_rep (h, dl_empty) []"
  by (simp add: dl_rep_def dl_empty_def)

lemma dl_push_front_rep:
  assumes "dl_rep s xs" and "v \<notin> set xs"
  shows "dl_rep (dl_push_front v s) (v # xs) \<and> dl_frame (insert v (set xs)) s (dl_push_front v s)"
  using assms by (cases s; cases xs) (auto simp: dl_rep_def dl_frame_def dl_ops)

lemma dl_push_rep:
  assumes "dl_rep s xs" and "v \<notin> set xs"
  shows "dl_rep (dl_push v s) (xs @ [v]) \<and> dl_frame (insert v (set xs)) s (dl_push v s)"
  using assms by (cases s; cases xs rule: rev_cases) (auto simp: dl_rep_def dl_frame_def dl_ops)

lemma dl_pop_front_rep:
  assumes "dl_rep s (x # xs)"
  shows "fst (dl_pop_front s) = Some x \<and> dl_rep (snd (dl_pop_front s)) xs \<and>
    dl_frame (set xs) s (snd (dl_pop_front s))"
  using assms by (cases s; cases xs) (auto simp: dl_rep_def dl_frame_def dl_ops)

lemma dl_pop_front_nil: "dl_rep s [] \<Longrightarrow> dl_pop_front s = (None, s)"
  by (cases s) (auto simp: dl_rep_def dl_ops)

lemma dl_pop_rep:
  assumes "dl_rep s (xs @ [x])"
  shows "fst (dl_pop s) = Some x \<and> dl_rep (snd (dl_pop s)) xs \<and> dl_frame (set xs) s (snd (dl_pop s))"
  using assms by (cases s; cases xs rule: rev_cases) (auto simp: dl_rep_def dl_frame_def dl_ops)

lemma dl_pop_nil: "dl_rep s [] \<Longrightarrow> dl_pop s = (None, s)"
  by (cases s) (auto simp: dl_rep_def dl_ops)

lemma dl_remove_rep:
  assumes "dl_rep s (xs @ v # ys)"
  shows "dl_rep (dl_remove v s) (xs @ ys) \<and> dl_frame (set xs \<union> set ys) s (dl_remove v s)"
  using assms
  by (cases s; cases xs rule: rev_cases; cases ys) (auto simp: dl_rep_def dl_frame_def dl_ops)

lemma dl_insert_rep:
  assumes "dl_rep s (xs @ p # ys)" and "v \<notin> set (xs @ p # ys)"
  shows "dl_rep (dl_insert (Some p) v s) (xs @ p # v # ys) \<and>
    dl_frame (insert v (set (xs @ p # ys))) s (dl_insert (Some p) v s)"
  using assms
  by (cases s; cases xs rule: rev_cases; cases ys) (auto simp: dl_rep_def dl_frame_def dl_ops)

lemma dl_insert_none_rep:
  assumes "dl_rep s xs" and "v \<notin> set xs"
  shows "dl_rep (dl_insert None v s) (v # xs) \<and> dl_frame (insert v (set xs)) s (dl_insert None v s)"
  using assms by (cases s; cases xs) (auto simp: dl_rep_def dl_frame_def dl_ops)

lemma dl_insert_before_rep:
  assumes "dl_rep s (xs @ n # ys)" and "v \<notin> set (xs @ n # ys)"
  shows "dl_rep (dl_insert_before (Some n) v s) (xs @ v # n # ys) \<and>
    dl_frame (insert v (set (xs @ n # ys))) s (dl_insert_before (Some n) v s)"
  using assms
  by (cases s; cases xs rule: rev_cases; cases ys) (auto simp: dl_rep_def dl_frame_def dl_ops)

lemma dl_insert_before_none_rep:
  assumes "dl_rep s xs" and "v \<notin> set xs"
  shows "dl_rep (dl_insert_before None v s) (v # xs) \<and>
    dl_frame (insert v (set xs)) s (dl_insert_before None v s)"
  using assms by (cases s; cases xs) (auto simp: dl_rep_def dl_frame_def dl_ops)

lemma dl_find_from_links:
  "links h pv xs None \<Longrightarrow> dl_find_from cmp h (first_or None xs) = Some (List.find cmp xs)"
proof (induction xs arbitrary: pv)
  case Nil
  then show ?case by (simp add: dl_find_from.simps)
next
  case (Cons x xs)
  then show ?case by (auto simp: dl_find_from.simps [of cmp h "Some x"])
qed

lemma dl_find_rep: "dl_rep s xs \<Longrightarrow> dl_find cmp s = Some (List.find cmp xs)"
  by (cases s) (auto simp: dl_rep_def dl_find_def dest: dl_find_from_links)

lemma dl_is_empty_rep: "dl_rep s xs \<Longrightarrow> dl_is_empty s \<longleftrightarrow> xs = []"
  by (cases s) (auto simp: dl_rep_def dl_is_empty_def)

lemma dl_clear_rep: "dl_rep (dl_clear s) []"
  by (cases s) (auto simp: dl_rep_def dl_clear_def)

section \<open>The interface as a contract\<close>

fun pop_n :: "('s \<Rightarrow> 'p option \<times> 's) \<Rightarrow> nat \<Rightarrow> 's \<Rightarrow> 'p option list \<times> 's" where
  "pop_n pop 0 s = ([], s)"
| "pop_n pop (Suc n) s =
     (let (r, s) = pop s; (rs, s) = pop_n pop n s in (r # rs, s))"

locale queue_iface =
  fixes rep :: "'s \<Rightarrow> 'p list \<Rightarrow> bool"
    and push :: "'p \<Rightarrow> 's \<Rightarrow> 's"
    and pop_front :: "'s \<Rightarrow> 'p option \<times> 's"
  assumes rep_distinct: "rep s xs \<Longrightarrow> distinct xs"
    and push_law: "rep s xs \<Longrightarrow> v \<notin> set xs \<Longrightarrow> rep (push v s) (xs @ [v])"
    and pop_front_law: "rep s (x # xs) \<Longrightarrow> fst (pop_front s) = Some x \<and> rep (snd (pop_front s)) xs"
    and pop_front_nil: "rep s [] \<Longrightarrow> pop_front s = (None, s)"
begin

lemma push_all: "rep s xs \<Longrightarrow> distinct (xs @ vs) \<Longrightarrow> rep (fold push vs s) (xs @ vs)"
proof (induction vs arbitrary: s xs)
  case (Cons v vs)
  then have "rep (push v s) (xs @ [v])" by (intro push_law) auto
  with Cons.prems(2) Cons.IH [of "push v s" "xs @ [v]"] show ?case by simp
qed simp

lemma pop_all:
  "rep s xs \<Longrightarrow> \<exists>s'. pop_n pop_front (length xs) s = (map Some xs, s') \<and> rep s' []"
proof (induction xs arbitrary: s)
  case (Cons x xs)
  obtain r t where p: "pop_front s = (r, t)" by fastforce
  with pop_front_law [OF Cons.prems] have "r = Some x" "rep t xs" by auto
  with Cons.IH [of t] p show ?case by auto
qed simp

lemma fifo:
  assumes "rep s xs" and "distinct (xs @ vs)"
  shows "\<exists>s'. pop_n pop_front (length (xs @ vs)) (fold push vs s) = (map Some (xs @ vs), s') \<and> rep s' []"
  by (rule pop_all) (rule push_all [OF assms])

end

locale deque_iface = queue_iface +
  fixes push_front :: "'p \<Rightarrow> 's \<Rightarrow> 's"
    and pop :: "'s \<Rightarrow> 'p option \<times> 's"
    and remove :: "'p \<Rightarrow> 's \<Rightarrow> 's"
  assumes push_front_law: "rep s xs \<Longrightarrow> v \<notin> set xs \<Longrightarrow> rep (push_front v s) (v # xs)"
    and pop_law: "rep s (xs @ [x]) \<Longrightarrow> fst (pop s) = Some x \<and> rep (snd (pop s)) xs"
    and pop_nil: "rep s [] \<Longrightarrow> pop s = (None, s)"
    and remove_law: "rep s (xs @ v # ys) \<Longrightarrow> rep (remove v s) (xs @ ys)"
begin

lemma push_front_all:
  "rep s xs \<Longrightarrow> distinct (rev vs @ xs) \<Longrightarrow> rep (fold push_front vs s) (rev vs @ xs)"
proof (induction vs arbitrary: s xs)
  case (Cons v vs)
  then have "rep (push_front v s) (v # xs)" by (intro push_front_law) auto
  with Cons.prems(2) Cons.IH [of "push_front v s" "v # xs"] show ?case by simp
qed simp

lemma lifo:
  assumes "rep s xs" and "distinct (rev vs @ xs)"
  shows "\<exists>s'. pop_n pop_front (length (rev vs @ xs)) (fold push_front vs s) = (map Some (rev vs @ xs), s')
    \<and> rep s' []"
  by (rule pop_all) (rule push_front_all [OF assms])

lemma remove_remove1: "rep s xs \<Longrightarrow> v \<in> set xs \<Longrightarrow> rep (remove v s) (remove1 v xs)"
proof -
  assume r: "rep s xs" and "v \<in> set xs"
  then obtain as bs where xs: "xs = as @ v # bs" by (auto simp: in_set_conv_decomp)
  with rep_distinct [OF r] have "v \<notin> set as" by simp
  with xs r show ?thesis by (simp add: remove1_append remove_law)
qed

lemma push_then_remove: "rep s xs \<Longrightarrow> v \<notin> set xs \<Longrightarrow> rep (remove v (push v s)) xs"
  using remove_law [of "push v s" xs v "[]"] push_law [of s xs v] by simp

end

interpretation dl: deque_iface dl_rep dl_push dl_pop_front dl_push_front dl_pop dl_remove
  by unfold_locales
    (auto simp: dl_push_rep dl_push_front_rep dl_pop_front_rep dl_pop_rep dl_remove_rep
       dl_pop_front_nil dl_pop_nil dl_rep_distinct)

section \<open>Any sequence of list operations\<close>

fun list_insert_after :: "'p \<Rightarrow> 'p \<Rightarrow> 'p list \<Rightarrow> 'p list" where
  "list_insert_after p v [] = []"
| "list_insert_after p v (x # xs) = (if x = p then x # v # xs else x # list_insert_after p v xs)"

fun list_insert_before :: "'p \<Rightarrow> 'p \<Rightarrow> 'p list \<Rightarrow> 'p list" where
  "list_insert_before n v [] = []"
| "list_insert_before n v (x # xs) = (if x = n then v # x # xs else x # list_insert_before n v xs)"

lemma list_insert_after_split [simp]:
  "p \<notin> set xs \<Longrightarrow> list_insert_after p v (xs @ p # ys) = xs @ p # v # ys"
  by (induction xs) auto

lemma list_insert_before_split [simp]:
  "n \<notin> set xs \<Longrightarrow> list_insert_before n v (xs @ n # ys) = xs @ v # n # ys"
  by (induction xs) auto

datatype 'p dl_cmd =
    PushFront 'p | Push 'p | PopFront | Pop | Remove 'p
  | Insert "'p option" 'p | InsertBefore "'p option" 'p | Clear

fun dl_exec :: "'p dl_cmd \<Rightarrow> 'p dl_state \<Rightarrow> 'p option \<times> 'p dl_state" where
  "dl_exec (PushFront v) s = (None, dl_push_front v s)"
| "dl_exec (Push v) s = (None, dl_push v s)"
| "dl_exec PopFront s = dl_pop_front s"
| "dl_exec Pop s = dl_pop s"
| "dl_exec (Remove v) s = (None, dl_remove v s)"
| "dl_exec (Insert p v) s = (None, dl_insert p v s)"
| "dl_exec (InsertBefore n v) s = (None, dl_insert_before n v s)"
| "dl_exec Clear s = (None, dl_clear s)"

text \<open>What the caller must ensure, and what the list becomes; \<open>None\<close> where the caller breaks
  the contract (inserting an element twice, removing or inserting at one that is absent).\<close>

fun spec_exec :: "'p dl_cmd \<Rightarrow> 'p list \<Rightarrow> ('p option \<times> 'p list) option" where
  "spec_exec (PushFront v) xs = (if v \<in> set xs then None else Some (None, v # xs))"
| "spec_exec (Push v) xs = (if v \<in> set xs then None else Some (None, xs @ [v]))"
| "spec_exec PopFront xs = Some (case xs of [] \<Rightarrow> (None, []) | x # xs \<Rightarrow> (Some x, xs))"
| "spec_exec Pop xs = Some (if xs = [] then (None, []) else (Some (last xs), butlast xs))"
| "spec_exec (Remove v) xs = (if v \<in> set xs then Some (None, remove1 v xs) else None)"
| "spec_exec (Insert p v) xs = (if v \<in> set xs then None else
     (case p of None \<Rightarrow> Some (None, v # xs)
      | Some p \<Rightarrow> if p \<in> set xs then Some (None, list_insert_after p v xs) else None))"
| "spec_exec (InsertBefore n v) xs = (if v \<in> set xs then None else
     (case n of None \<Rightarrow> Some (None, v # xs)
      | Some n \<Rightarrow> if n \<in> set xs then Some (None, list_insert_before n v xs) else None))"
| "spec_exec Clear xs = Some (None, [])"

fun dl_run :: "'p dl_cmd list \<Rightarrow> 'p dl_state \<Rightarrow> 'p option list \<times> 'p dl_state" where
  "dl_run [] s = ([], s)"
| "dl_run (c # cs) s = (let (r, s) = dl_exec c s; (rs, s) = dl_run cs s in (r # rs, s))"

fun spec_run :: "'p dl_cmd list \<Rightarrow> 'p list \<Rightarrow> ('p option list \<times> 'p list) option" where
  "spec_run [] xs = Some ([], xs)"
| "spec_run (c # cs) xs = (case spec_exec c xs of
     None \<Rightarrow> None
   | Some (r, ys) \<Rightarrow> (case spec_run cs ys of None \<Rightarrow> None | Some (rs, zs) \<Rightarrow> Some (r # rs, zs)))"

lemma dl_insert_spec:
  assumes "dl_rep s xs" and "p \<in> set xs" and "v \<notin> set xs"
  shows "dl_rep (dl_insert (Some p) v s) (list_insert_after p v xs)"
    and "dl_rep (dl_insert_before (Some p) v s) (list_insert_before p v xs)"
proof -
  obtain as bs where xs: "xs = as @ p # bs" using assms(2) by (auto simp: in_set_conv_decomp)
  with assms(1) have p: "p \<notin> set as" by (simp add: dl_rep_def)
  with xs assms show "dl_rep (dl_insert (Some p) v s) (list_insert_after p v xs)"
    using dl_insert_rep [of s as p bs v] by simp
  from p xs assms show "dl_rep (dl_insert_before (Some p) v s) (list_insert_before p v xs)"
    using dl_insert_before_rep [of s as p bs v] by simp
qed

lemma dl_pop_spec:
  assumes "dl_rep s xs" and "xs \<noteq> []"
  shows "fst (dl_pop s) = Some (last xs) \<and> dl_rep (snd (dl_pop s)) (butlast xs)"
  using dl_pop_rep [of s "butlast xs" "last xs"] assms by simp

lemma dl_exec_simulates:
  assumes "dl_rep s xs" and "spec_exec c xs = Some (r, ys)"
  shows "fst (dl_exec c s) = r \<and> dl_rep (snd (dl_exec c s)) ys"
proof (cases c)
  case PopFront
  with assms show ?thesis
    by (cases xs) (auto simp: dl_pop_front_nil dest: dl_pop_front_rep)
next
  case Pop
  with assms show ?thesis
    by (cases "xs = []") (auto simp: dl_pop_nil dest: dl_pop_spec)
next
  case (Insert p v)
  with assms show ?thesis
    by (auto simp: dl_insert_none_rep dl_insert_spec split: if_splits option.splits)
next
  case (InsertBefore n v)
  with assms show ?thesis
    by (auto simp: dl_insert_before_none_rep dl_insert_spec split: if_splits option.splits)
qed (use assms in \<open>auto simp: dl_push_rep dl_push_front_rep dl_clear_rep dl.remove_remove1
       split: if_splits\<close>)

text \<open>C1 A \<open>DoubleList\<close> behaves as a list under every sequence of its operations:
  whenever the store and the head stand for a list, running any sequence of \<open>push\<close>,
  \<open>push_front\<close>, \<open>pop\<close>, \<open>pop_front\<close>, \<open>remove\<close>, \<open>insert\<close>,
  \<open>insert_before\<close> and \<open>clear\<close> that respects the caller's side of the contract returns
  the elements the list operations return and ends in a store that stands for the resulting list.\<close>

theorem dl_run_simulates:
  assumes "dl_rep s xs" and "spec_run cs xs = Some (rs, ys)"
  shows "fst (dl_run cs s) = rs \<and> dl_rep (snd (dl_run cs s)) ys"
  using assms
proof (induction cs arbitrary: s xs rs)
  case (Cons c cs)
  then obtain r zs rs' where c: "spec_exec c xs = Some (r, zs)"
    and cs: "spec_run cs zs = Some (rs', ys)" and rs: "rs = r # rs'"
    by (auto split: option.splits)
  obtain t where t: "dl_exec c s = (r, t)" "dl_rep t zs"
    using dl_exec_simulates [OF Cons.prems(1) c] by (cases "dl_exec c s") auto
  from Cons.IH [OF t(2) cs] t rs show ?case by (auto split: prod.splits)
qed simp

theorem dl_run_simulates_witness:
  "fst (dl_run [Push 1, Push 2, PushFront 0, Insert (Some 1) 5, Remove 2, Pop, PopFront]
      ((\<lambda>_. \<lparr>hk_prev = None, hk_next = None\<rparr>), dl_empty :: nat dlist))
    = [None, None, None, None, None, Some 5, Some 0]"
  using dl_run_simulates [OF dl_empty_rep, of
      "[Push 1, Push 2, PushFront 0, Insert (Some 1) 5, Remove 2, Pop, PopFront]"
      "[None, None, None, None, None, Some 5, Some 0]" "[1::nat]"]
  by simp

text \<open>A \<open>DoubleList\<close> used as a queue is first in, first out: elements pushed at the end of
  a list come out of \<open>pop_front\<close> after its old elements, in the order they were pushed,
  and the list is empty afterwards.\<close>

theorem dl_fifo:
  assumes "dl_rep s xs" and "distinct (xs @ vs)"
  shows "\<exists>s'. pop_n dl_pop_front (length (xs @ vs)) (fold dl_push vs s) = (map Some (xs @ vs), s')
    \<and> dl_rep s' []"
  using assms by (rule dl.fifo)

theorem dl_fifo_witness:
  "\<exists>s'. pop_n dl_pop_front 2 (fold dl_push [7, 9]
      ((\<lambda>_. \<lparr>hk_prev = None, hk_next = None\<rparr>), dl_empty :: nat dlist)) = ([Some 7, Some 9], s')
    \<and> dl_rep s' []"
  using dl_fifo [OF dl_empty_rep, of "[7, 9 :: nat]"] by (simp add: numeral_2_eq_2)

end
