(* ===== verification/Bits.thy ===== *)
theory Bits
  imports Prelude
begin

text \<open>
  The bit manipulation helpers of \<open>src/src/std/bit.hpp\<close> that the allocators and the
  network stack use: byte order conversion, \<open>has_single_bit\<close>, \<open>countl_zero\<close> and
  the widths derived from it. The compiler builtins are written out: \<open>__builtin_clz\<close> of a
  non-zero value is the number of leading zero bits, \<open>__builtin_bswap16/32\<close> reverse the
  bytes. The theory shows that both byte orders are inverse to each other and pins
  \<open>countl_zero\<close> down by the powers of two around its argument.
\<close>

section \<open>Byte order\<close>

definition byteswap16 :: "u16 \<Rightarrow> u16" where
  "byteswap16 x = push_bit 8 x OR drop_bit 8 x"

definition byteswap32 :: "u32 \<Rightarrow> u32" where
  "byteswap32 x = push_bit 24 x OR push_bit 8 (x AND 0xFF00) OR drop_bit 8 (x AND 0xFF0000)
     OR drop_bit 24 x"

definition to_be16 :: "u16 \<Rightarrow> u16" where
  "to_be16 = byteswap16"

definition to_be32 :: "u32 \<Rightarrow> u32" where
  "to_be32 = byteswap32"

definition to_ne_from_be16 :: "u16 \<Rightarrow> u16" where
  "to_ne_from_be16 = byteswap16"

definition to_ne_from_be32 :: "u32 \<Rightarrow> u32" where
  "to_ne_from_be32 = byteswap32"

section \<open>Leading zeros and widths\<close>

fun bit_len :: "nat \<Rightarrow> nat" where
  "bit_len n = (if n = 0 then 0 else Suc (bit_len (n div 2)))"

declare bit_len.simps [simp del]

definition builtin_clz :: "'a::len word \<Rightarrow> nat" where
  "builtin_clz w = LENGTH('a) - bit_len (unat w)"

definition countl_zero :: "'a::len word \<Rightarrow> nat" where
  "countl_zero w = (if w = 0 then LENGTH('a) else builtin_clz w)"

definition has_single_bit :: "'a::len word \<Rightarrow> bool" where
  "has_single_bit w \<longleftrightarrow> w \<noteq> 0 \<and> w AND (w - 1) = 0"

definition bit_width :: "'a::len word \<Rightarrow> nat" where
  "bit_width w = LENGTH('a) - countl_zero w"

definition bit_floor :: "'a::len word \<Rightarrow> 'a word" where
  "bit_floor w = (if w = 0 then 0 else push_bit (bit_width w - 1) 1)"

section \<open>Byte order conversions are inverse\<close>

lemma byteswap16_inverse [simp]: "byteswap16 (byteswap16 x) = x"
  by (rule bit_word_eqI) (auto simp: byteswap16_def bit_simps)

lemma byteswap32_bit:
  "n < 32 \<Longrightarrow> bit (byteswap32 x) n \<longleftrightarrow> bit x (if n < 8 then n + 24 else if n < 16 then n + 8
     else if n < 24 then n - 8 else n - 24)"
proof -
  assume "n < 32"
  have m1: "(0xFF00 :: u32) = push_bit 8 (mask 8)" and m2: "(0xFF0000 :: u32) = push_bit 16 (mask 8)"
    by (simp_all add: mask_eq_exp_minus_1 push_bit_eq_mult)
  show ?thesis using \<open>n < 32\<close>
    unfolding byteswap32_def m1 m2
    by (auto simp: bit_simps add.commute dest: bit_imp_le_length)
qed

lemma byteswap32_inverse [simp]: "byteswap32 (byteswap32 x) = x"
  by (rule bit_word_eqI) (auto simp: byteswap32_bit)

lemma be16_roundtrip [simp]: "to_ne_from_be16 (to_be16 x) = x"
  by (simp add: to_ne_from_be16_def to_be16_def)

lemma be32_roundtrip [simp]: "to_ne_from_be32 (to_be32 x) = x"
  by (simp add: to_ne_from_be32_def to_be32_def)

lemma be16_roundtrip' [simp]: "to_be16 (to_ne_from_be16 x) = x"
  by (simp add: to_ne_from_be16_def to_be16_def)

lemma be32_roundtrip' [simp]: "to_be32 (to_ne_from_be32 x) = x"
  by (simp add: to_ne_from_be32_def to_be32_def)

section \<open>The width of a number\<close>

lemma bit_len_0 [simp]: "bit_len 0 = 0"
  by (subst bit_len.simps) simp

lemma bit_len_less: "n < 2 ^ bit_len n"
proof (induction n rule: bit_len.induct)
  case (1 n)
  show ?case
  proof (cases "n = 0")
    case False
    with "1.IH" have "n div 2 < 2 ^ bit_len (n div 2)" by simp
    with False show ?thesis by (subst bit_len.simps) simp
  qed simp
qed

lemma bit_len_ge: "0 < n \<Longrightarrow> 2 ^ (bit_len n - 1) \<le> n"
proof (induction n rule: bit_len.induct)
  case (1 n)
  show ?case
  proof (cases "n div 2 = 0")
    case True
    with "1.prems" have "bit_len n = 1" by (subst bit_len.simps) simp
    with "1.prems" show ?thesis by simp
  next
    case False
    with "1.IH" "1.prems" have IH: "2 ^ (bit_len (n div 2) - 1) \<le> n div 2" by simp
    have "0 < bit_len (n div 2)" using False by (subst bit_len.simps) simp
    then have "(2::nat) ^ bit_len (n div 2) = 2 * 2 ^ (bit_len (n div 2) - 1)"
      by (cases "bit_len (n div 2)") auto
    with IH have "2 ^ bit_len (n div 2) \<le> n" by simp
    moreover have "bit_len n = Suc (bit_len (n div 2))"
      using "1.prems" by (subst bit_len.simps) simp
    ultimately show ?thesis by simp
  qed
qed

lemma bit_len_le_iff: "bit_len n \<le> k \<longleftrightarrow> n < 2 ^ k"
proof
  assume "bit_len n \<le> k"
  then show "n < 2 ^ k"
    using bit_len_less [of n] power_increasing [of "bit_len n" k "2::nat"] by linarith
next
  assume a: "n < 2 ^ k"
  show "bit_len n \<le> k"
  proof (rule ccontr)
    assume "\<not> bit_len n \<le> k"
    then have k: "k \<le> bit_len n - 1" and n: "0 < n" by (auto intro: Nat.gr0I)
    have "(2::nat) ^ k \<le> 2 ^ (bit_len n - 1)" using k by (simp add: power_increasing)
    with bit_len_ge [OF n] a show False by linarith
  qed
qed

lemma bit_len_mono: "m \<le> n \<Longrightarrow> bit_len m \<le> bit_len n"
  using bit_len_le_iff [of m "bit_len n"] bit_len_less [of n] by linarith

lemma bit_len_pos [simp]: "0 < bit_len n \<longleftrightarrow> 0 < n"
  using bit_len_le_iff [of n 0] by auto

lemma bit_len_word [simp]: "bit_len (unat (w :: 'a::len word)) \<le> LENGTH('a)"
  by (simp add: bit_len_le_iff)

lemma bit_width_eq: "bit_width w = bit_len (unat w)"
  by (auto simp: bit_width_def countl_zero_def builtin_clz_def)

lemma countl_zero_eq: "countl_zero (w :: 'a::len word) = LENGTH('a) - bit_len (unat w)"
  by (auto simp: countl_zero_def builtin_clz_def)

end
