(* ===== verification/Vmem.thy ===== *)
theory Vmem
  imports Bits Intrusive_List "HOL-Library.Monad_Syntax"
begin

text \<open>
  The virtual address space allocator \<open>VMem\<close> of \<open>src/src/mem/vmem.hpp\<close> and
  \<open>vmem.cpp\<close>: boundary-tagged segments in address order, power-of-two free lists for the
  free segments and a hash table for the used ones.

  A pointer to a \<open>Segment\<close> is a number (its address); \<open>segs\<close> is the store of segment
  objects, and the lists linked through the two hooks of a segment are lists of pointers, which
  \<open>Intrusive_List\<close> shows \<open>DoubleList\<close> to implement. Segments live in pages obtained from
  the page allocator, a parameter \<open>alloc_page\<close> of the operations that need it, over its own
  state \<open>pm\<close>; its contract is the locale \<open>page_source\<close>. A failed \<open>assert\<close> is the
  result \<open>None\<close>; addresses and sizes are 64-bit words and wrap as in the source. The lock is
  held for the whole of every operation, so that operations are atomic.
\<close>

section \<open>Segments and the allocator state\<close>

datatype seg_type = Free | Used | Span

record segment =
  seg_base :: usize
  seg_size :: usize
  seg_ty :: seg_type

record 'pm vmem =
  freelists :: "nat \<Rightarrow> nat list"
  seg_list :: "nat list"
  hash_tab :: "nat \<Rightarrow> nat list"
  free_segs :: "nat list"
  seg_page_list :: "nat list"
  vm_base :: usize
  vm_size :: usize
  vm_quantum :: usize
  segs :: "nat \<Rightarrow> segment"
  pm :: 'pm

definition FREELIST_COUNT :: nat where
  "FREELIST_COUNT = 64"

definition HASHTAB_COUNT :: u64 where
  "HASHTAB_COUNT = 16"

definition sizeof_Segment :: nat where
  "sizeof_Segment = 56"

definition murmur64 :: "u64 \<Rightarrow> u64" where
  "murmur64 key =
     (let key = key XOR drop_bit 33 key;
          key = key * 0xFF51AFD7ED558CCD;
          key = key XOR drop_bit 33 key;
          key = key * 0xC4CEB9FE1A85EC53
      in key XOR drop_bit 33 key)"

text \<open>The result type of \<open>size_to_index\<close> is \<open>unsigned int\<close>: for size 0 it is the
  largest 32-bit value.\<close>

definition size_to_index :: "usize \<Rightarrow> nat" where
  "size_to_index sz =
     unat (ucast (of_nat FREELIST_COUNT - of_nat (countl_zero sz) - 1 :: usize) :: u32)"

definition hash_index :: "usize \<Rightarrow> nat" where
  "hash_index key = unat (murmur64 key mod HASHTAB_COUNT)"

section \<open>Operations\<close>

definition upd_seg :: "nat \<Rightarrow> (segment \<Rightarrow> segment) \<Rightarrow> 'pm vmem \<Rightarrow> 'pm vmem" where
  "upd_seg s f vm = vm\<lparr>segs := (segs vm)(s := f (segs vm s))\<rparr>"

definition fl_push_front :: "nat \<Rightarrow> nat \<Rightarrow> 'pm vmem \<Rightarrow> 'pm vmem" where
  "fl_push_front i s vm = vm\<lparr>freelists := (freelists vm)(i := s # freelists vm i)\<rparr>"

definition fl_remove :: "nat \<Rightarrow> nat \<Rightarrow> 'pm vmem \<Rightarrow> 'pm vmem" where
  "fl_remove i s vm = vm\<lparr>freelists := (freelists vm)(i := remove1 s (freelists vm i))\<rparr>"

definition seg_alloc :: "('pm \<Rightarrow> nat option \<times> 'pm) \<Rightarrow> 'pm vmem \<Rightarrow> nat option \<times> 'pm vmem" where
  "seg_alloc alloc_page vm = (case free_segs vm of
     s # ss \<Rightarrow> (Some s, vm\<lparr>free_segs := ss\<rparr>)
   | [] \<Rightarrow> (case alloc_page (pm vm) of
       (None, pm') \<Rightarrow> (None, vm\<lparr>pm := pm'\<rparr>)
     | (Some page, pm') \<Rightarrow>
         let fs = fold (\<lambda>i fs. (page + sizeof_Segment * i) # fs)
                    [1 ..< unat PAGE_SIZE div sizeof_Segment] (free_segs vm)
         in (Some (hd fs), vm\<lparr>pm := pm', seg_page_list := page # seg_page_list vm,
               free_segs := tl fs\<rparr>)))"

definition seg_free :: "nat \<Rightarrow> 'pm vmem \<Rightarrow> 'pm vmem" where
  "seg_free s vm = vm\<lparr>free_segs := s # free_segs vm\<rparr>"

definition freelist_remove :: "nat \<Rightarrow> 'pm vmem \<Rightarrow> 'pm vmem" where
  "freelist_remove s vm = fl_remove (size_to_index (seg_size (segs vm s))) s vm"

definition freelist_insert_no_merge :: "nat \<Rightarrow> 'pm vmem \<Rightarrow> 'pm vmem option" where
  "freelist_insert_no_merge s vm =
     (let index = size_to_index (seg_size (segs vm s))
      in if seg_size (segs vm s) = 0 then None
         else Some (fl_push_front index s (upd_seg s (seg_ty_update (\<lambda>_. Free)) vm)))"

fun pred_of :: "'a \<Rightarrow> 'a list \<Rightarrow> 'a option" where
  "pred_of s (x # y # zs) = (if y = s then Some x else pred_of s (y # zs))"
| "pred_of s _ = None"

fun succ_of :: "'a \<Rightarrow> 'a list \<Rightarrow> 'a option" where
  "succ_of s (x # y # zs) = (if x = s then Some y else succ_of s (y # zs))"
| "succ_of s _ = None"

lemma pred_of_mem: "pred_of s xs = Some p \<Longrightarrow> s \<in> set xs"
  by (induction s xs rule: pred_of.induct) (auto split: if_splits)

lemma succ_of_mem: "succ_of s xs = Some n \<Longrightarrow> n \<in> set xs"
  by (induction s xs rule: succ_of.induct) (auto split: if_splits)

definition merges_prev :: "nat \<Rightarrow> 'pm vmem \<Rightarrow> nat option" where
  "merges_prev s vm = (case pred_of s (seg_list vm) of
     Some p \<Rightarrow> if seg_ty (segs vm p) = Free \<and>
                  seg_base (segs vm p) + seg_size (segs vm p) = seg_base (segs vm s)
               then Some p else None
   | None \<Rightarrow> None)"

definition merges_next :: "nat \<Rightarrow> 'pm vmem \<Rightarrow> nat option" where
  "merges_next s vm = (case succ_of s (seg_list vm) of
     Some n \<Rightarrow> if seg_ty (segs vm n) = Free \<and>
                  seg_base (segs vm s) + seg_size (segs vm s) = seg_base (segs vm n)
               then Some n else None
   | None \<Rightarrow> None)"

text \<open>One turn of the loop of \<open>freelist_insert\<close>: \<open>gone\<close> leaves the segment list and
  \<open>kept\<close> grows by its size; \<open>merged\<close> is the one of the two that was free.\<close>

definition merge_into :: "nat \<Rightarrow> nat \<Rightarrow> nat \<Rightarrow> 'pm vmem \<Rightarrow> 'pm vmem" where
  "merge_into kept gone merged vm =
     (let vm = vm\<lparr>seg_list := remove1 gone (seg_list vm)\<rparr>;
          vm = freelist_remove merged vm;
          vm = upd_seg kept (\<lambda>g. g\<lparr>seg_size := seg_size g + seg_size (segs vm gone)\<rparr>) vm
      in seg_free gone vm)"

lemma merge_into_list [simp]: "seg_list (merge_into kept gone merged vm) = remove1 gone (seg_list vm)"
  by (simp add: merge_into_def freelist_remove_def fl_remove_def upd_seg_def seg_free_def Let_def)

lemma merges_prev_mem: "merges_prev s vm = Some p \<Longrightarrow> s \<in> set (seg_list vm)"
  by (auto simp: merges_prev_def dest: pred_of_mem split: option.splits if_splits)

lemma merges_next_mem: "merges_next s vm = Some n \<Longrightarrow> n \<in> set (seg_list vm)"
  by (auto simp: merges_next_def dest: succ_of_mem split: option.splits if_splits)

function freelist_insert_loop :: "nat \<Rightarrow> 'pm vmem \<Rightarrow> 'pm vmem option" where
  "freelist_insert_loop s vm = (case merges_prev s vm of
     Some p \<Rightarrow> freelist_insert_loop p (merge_into p s p vm)
   | None \<Rightarrow> (case merges_next s vm of
       Some n \<Rightarrow> freelist_insert_loop s (merge_into s n n vm)
     | None \<Rightarrow> freelist_insert_no_merge s vm))"
  by pat_completeness auto
termination
  by (relation "measure (\<lambda>(s, vm). length (seg_list vm))")
    (auto simp: length_remove1 dest!: merges_prev_mem merges_next_mem intro!: diff_less)

declare freelist_insert_loop.simps [simp del]

definition freelist_insert :: "nat \<Rightarrow> 'pm vmem \<Rightarrow> 'pm vmem option" where
  "freelist_insert s vm =
     (if seg_size (segs vm s) = 0 then None else freelist_insert_loop s vm)"

definition hashtab_insert :: "nat \<Rightarrow> 'pm vmem \<Rightarrow> 'pm vmem" where
  "hashtab_insert s vm =
     (let vm = upd_seg s (seg_ty_update (\<lambda>_. Used)) vm;
          h = hash_index (seg_base (segs vm s))
      in vm\<lparr>hash_tab := (hash_tab vm)(h := s # hash_tab vm h)\<rparr>)"

definition hashtab_remove :: "usize \<Rightarrow> 'pm vmem \<Rightarrow> nat option \<times> 'pm vmem" where
  "hashtab_remove key vm =
     (let h = hash_index key
      in case List.find (\<lambda>s. seg_base (segs vm s) = key) (hash_tab vm h) of
           Some s \<Rightarrow> (Some s, vm\<lparr>hash_tab := (hash_tab vm)(h := remove1 s (hash_tab vm h))\<rparr>)
         | None \<Rightarrow> (None, vm))"

definition vmem_empty :: "'pm \<Rightarrow> 'pm vmem" where
  "vmem_empty p = \<lparr>freelists = (\<lambda>_. []), seg_list = [], hash_tab = (\<lambda>_. []), free_segs = [],
     seg_page_list = [], vm_base = 0, vm_size = 0, vm_quantum = 0,
     segs = (\<lambda>_. \<lparr>seg_base = 0, seg_size = 0, seg_ty = Free\<rparr>), pm = p\<rparr>"

text \<open>\<open>None\<close> stands for the write through the null pointer that \<open>seg_alloc\<close> returns
  when no page is left, and for the free list index past the array when \<open>size\<close> is 0.\<close>

definition vmem_init :: "('pm \<Rightarrow> nat option \<times> 'pm) \<Rightarrow> usize \<Rightarrow> usize \<Rightarrow> usize \<Rightarrow> 'pm vmem
    \<Rightarrow> 'pm vmem option" where
  "vmem_init alloc_page bas siz quantum vm =
     (let vm = vm\<lparr>vm_base := bas, vm_size := siz, vm_quantum := quantum\<rparr>
      in case seg_alloc alloc_page vm of
           (None, _) \<Rightarrow> None
         | (Some span, vm) \<Rightarrow>
             (let vm = upd_seg span (\<lambda>_. \<lparr>seg_base = bas, seg_size = siz, seg_ty = Span\<rparr>) vm
              in case seg_alloc alloc_page vm of
                   (None, _) \<Rightarrow> None
                 | (Some ini, vm) \<Rightarrow>
                     (let vm = upd_seg ini (\<lambda>_. \<lparr>seg_base = bas, seg_size = siz, seg_ty = Free\<rparr>) vm;
                          vm = vm\<lparr>seg_list := seg_list vm @ [span]\<rparr>;
                          vm = vm\<lparr>seg_list := seg_list vm @ [ini]\<rparr>;
                          i = size_to_index siz
                      in if i < FREELIST_COUNT
                         then Some (vm\<lparr>freelists := (freelists vm)(i := freelists vm i @ [ini])\<rparr>)
                         else None)))"

definition vmem_destroy :: "(nat \<Rightarrow> 'pm \<Rightarrow> 'pm) \<Rightarrow> bool \<Rightarrow> 'pm vmem \<Rightarrow> 'pm vmem option" where
  "vmem_destroy free_page assert_allocations vm =
     (let vm = vm\<lparr>pm := fold free_page (seg_page_list vm) (pm vm), seg_page_list := [],
                  free_segs := []\<rparr>
      in if assert_allocations \<and> (\<exists>j \<in> set [0 ..< unat HASHTAB_COUNT]. hash_tab vm j \<noteq> []) then None
         else Some (vm\<lparr>seg_list := [], freelists := (\<lambda>i. if i < FREELIST_COUNT then [] else freelists vm i)\<rparr>))"

section \<open>Allocation\<close>

text \<open>Cutting the part in front of \<open>start\<close> off a segment. The flag says whether the
  segment object for it could be allocated.\<close>

definition cut_front :: "('pm \<Rightarrow> nat option \<times> 'pm) \<Rightarrow> usize \<Rightarrow> nat \<Rightarrow> 'pm vmem
    \<Rightarrow> (bool \<times> 'pm vmem) option" where
  "cut_front alloc_page start s vm =
     (if start = seg_base (segs vm s) then Some (True, vm)
      else case seg_alloc alloc_page vm of
        (None, vm) \<Rightarrow> Some (False, vm)
      | (Some new_seg, vm) \<Rightarrow>
          (let vm = upd_seg new_seg (\<lambda>_. \<lparr>seg_base = seg_base (segs vm s),
                      seg_size = start - seg_base (segs vm s), seg_ty = Free\<rparr>) vm;
               vm = vm\<lparr>seg_list := list_insert_before s new_seg (seg_list vm)\<rparr>;
               vm = upd_seg s (\<lambda>g. g\<lparr>seg_base := start\<rparr>) vm;
               vm = upd_seg s (\<lambda>g. g\<lparr>seg_size := seg_size g - seg_size (segs vm new_seg)\<rparr>) vm
           in do { vm \<leftarrow> freelist_insert_no_merge new_seg vm; Some (True, vm) }))"

text \<open>What is left of \<open>seg_fit\<close> once the segment starts where the region does: it is the
  region, or its front is split off as \<open>alloc_seg\<close>.\<close>

definition alloc_region :: "usize \<Rightarrow> nat \<Rightarrow> nat \<Rightarrow> 'pm vmem \<Rightarrow> (usize \<times> 'pm vmem) option" where
  "alloc_region sz s alloc_seg vm =
     (if seg_size (segs vm s) = sz
      then let vm = hashtab_insert s (seg_free alloc_seg vm) in Some (seg_base (segs vm s), vm)
      else let vm = upd_seg alloc_seg (\<lambda>_. \<lparr>seg_base = seg_base (segs vm s),
                      seg_size = sz, seg_ty = Used\<rparr>) vm;
               vm = vm\<lparr>seg_list := list_insert_before s alloc_seg (seg_list vm)\<rparr>;
               vm = upd_seg s (\<lambda>g. g\<lparr>seg_base := seg_base g + sz\<rparr>) vm;
               vm = upd_seg s (\<lambda>g. g\<lparr>seg_size := seg_size g - sz\<rparr>) vm
           in do { vm \<leftarrow> freelist_insert s vm;
                   let vm = hashtab_insert alloc_seg vm in Some (seg_base (segs vm alloc_seg), vm) })"

text \<open>\<open>popped\<close> says whether the caller has taken the segment off list \<open>i\<close> already: on
  failure it is then put back, and otherwise it is removed on success.\<close>

definition put_back :: "bool \<Rightarrow> nat \<Rightarrow> nat \<Rightarrow> 'pm vmem \<Rightarrow> 'pm vmem" where
  "put_back popped i s vm = (if popped then fl_push_front i s vm else vm)"

definition take_seg :: "bool \<Rightarrow> nat \<Rightarrow> nat \<Rightarrow> 'pm vmem \<Rightarrow> 'pm vmem" where
  "take_seg popped i s vm = (if popped then vm else fl_remove i s vm)"

definition seg_fit :: "('pm \<Rightarrow> nat option \<times> 'pm) \<Rightarrow> usize \<Rightarrow> usize \<Rightarrow> usize \<Rightarrow> nat \<Rightarrow> nat \<Rightarrow> bool
    \<Rightarrow> 'pm vmem \<Rightarrow> (usize \<times> 'pm vmem) option" where
  "seg_fit alloc_page sz mn mx i s popped vm =
     (let start = max (seg_base (segs vm s)) mn;
          en = min (seg_base (segs vm s) + seg_size (segs vm s)) mx
      in if start > en \<or> en - start < sz then Some (0, put_back popped i s vm)
         else if seg_size (segs vm s) = sz
         then (let vm = hashtab_insert s (take_seg popped i s vm) in Some (seg_base (segs vm s), vm))
         else case seg_alloc alloc_page vm of
           (None, vm) \<Rightarrow> Some (0, put_back popped i s vm)
         | (Some alloc_seg, vm) \<Rightarrow>
             do { (ok, vm) \<leftarrow> cut_front alloc_page start s vm;
                  if ok then alloc_region sz s alloc_seg (take_seg popped i s vm)
                  else Some (0, seg_free alloc_seg (put_back popped i s vm)) })"

fun seg_fit_any :: "('pm \<Rightarrow> nat option \<times> 'pm) \<Rightarrow> usize \<Rightarrow> usize \<Rightarrow> usize \<Rightarrow> nat \<Rightarrow> nat list
    \<Rightarrow> 'pm vmem \<Rightarrow> (usize \<times> 'pm vmem) option" where
  "seg_fit_any alloc_page sz mn mx i [] vm = Some (0, vm)"
| "seg_fit_any alloc_page sz mn mx i (s # ss) vm =
     (if seg_size (segs vm s) \<ge> sz
      then do { (addr, vm) \<leftarrow> seg_fit alloc_page sz mn mx i s False vm;
                if addr \<noteq> 0 then Some (addr, vm)
                else seg_fit_any alloc_page sz mn mx i ss vm }
      else seg_fit_any alloc_page sz mn mx i ss vm)"

function xalloc_loop :: "('pm \<Rightarrow> nat option \<times> 'pm) \<Rightarrow> usize \<Rightarrow> usize \<Rightarrow> usize \<Rightarrow> bool \<Rightarrow> nat
    \<Rightarrow> 'pm vmem \<Rightarrow> (usize \<times> 'pm vmem) option" where
  "xalloc_loop alloc_page sz mn mx has_min_max i vm =
     (if i < FREELIST_COUNT then
        (case freelists vm i of
           [] \<Rightarrow> xalloc_loop alloc_page sz mn mx has_min_max (Suc i) vm
         | s # rest \<Rightarrow>
             (let vm' = vm\<lparr>freelists := (freelists vm)(i := rest)\<rparr>
              in if seg_size (segs vm' s) \<ge> sz
                 then do { (addr, vm) \<leftarrow> seg_fit alloc_page sz mn mx i s True vm';
                           if addr \<noteq> 0 then Some (addr, vm)
                           else xalloc_loop alloc_page sz mn mx has_min_max (Suc i) vm }
                 else if has_min_max
                 then do { (addr, vm) \<leftarrow> seg_fit_any alloc_page sz mn mx i (s # rest)
                                           (fl_push_front i s vm');
                           if addr \<noteq> 0 then Some (addr, vm)
                           else xalloc_loop alloc_page sz mn mx has_min_max (Suc i) vm }
                 else xalloc_loop alloc_page sz mn mx has_min_max (Suc i) vm'))
      else Some (0, vm))"
  by pat_completeness auto
termination
  by (relation "measure (\<lambda>(_, _, _, _, _, i, _). FREELIST_COUNT - i)") auto

declare xalloc_loop.simps [simp del]

definition xalloc :: "('pm \<Rightarrow> nat option \<times> 'pm) \<Rightarrow> usize \<Rightarrow> usize \<Rightarrow> usize \<Rightarrow> 'pm vmem
    \<Rightarrow> (usize \<times> 'pm vmem) option" where
  "xalloc alloc_page sz mn mx vm =
     (let sz = ALIGNUP sz (vm_quantum vm);
          mx = (if mx = 0 then - 1 else if mx = mn then mn + sz else mx);
          index = size_to_index sz;
          has_min_max = (mn \<noteq> 0 \<or> mx \<noteq> 0);
          index = (if \<not> has_min_max \<and> \<not> has_single_bit sz
                   then (index + 1) mod 2 ^ 32 else index)
      in xalloc_loop alloc_page sz mn mx has_min_max index vm)"

definition xfree :: "usize \<Rightarrow> usize \<Rightarrow> 'pm vmem \<Rightarrow> 'pm vmem option" where
  "xfree ptr sz vm = (case hashtab_remove ptr vm of
     (None, vm) \<Rightarrow> Some vm
   | (Some s, vm) \<Rightarrow>
       if seg_size (segs vm s) \<noteq> ALIGNUP sz (vm_quantum vm) then None
       else freelist_insert s vm)"

end
