(* ===== verification/Vmem_Inv.thy ===== *)
theory Vmem_Inv
  imports Vmem
begin

text \<open>
  The representation invariant of \<open>VMem\<close> and the behaviour of its operations: the segments
  tile the managed range without gap or overlap, no two neighbouring segments are both free, the
  free lists hold exactly the free segments, each in the list of its size class, and the hash
  table exactly the used ones. While an operation works on a segment, that segment is in the
  exception set \<open>X\<close> of the invariant, and segment objects it has taken but not yet linked are
  in the list \<open>E\<close>.
\<close>

section \<open>Tilings\<close>

fun tiles :: "(nat \<Rightarrow> segment) \<Rightarrow> nat \<Rightarrow> nat list \<Rightarrow> nat \<Rightarrow> bool" where
  "tiles f a [] b = (a = b)"
| "tiles f a (s # ss) b = (unat (seg_base (f s)) = a \<and> 0 < unat (seg_size (f s)) \<and>
     tiles f (a + unat (seg_size (f s))) ss b)"

fun no_adj :: "('a \<Rightarrow> bool) \<Rightarrow> 'a list \<Rightarrow> bool" where
  "no_adj P (x # y # zs) = (\<not> (P x \<and> P y) \<and> no_adj P (y # zs))"
| "no_adj P _ = True"

lemma tiles_append [simp]:
  "tiles f a (xs @ ys) b \<longleftrightarrow> (\<exists>m. tiles f a xs m \<and> tiles f m ys b)"
  by (induction xs arbitrary: a) auto

lemma tiles_cong: "(\<And>s. s \<in> set ss \<Longrightarrow> seg_base (f s) = seg_base (g s) \<and> seg_size (f s) = seg_size (g s))
    \<Longrightarrow> tiles f a ss b = tiles g a ss b"
  by (induction ss arbitrary: a) auto

lemma tiles_le: "tiles f a ss b \<Longrightarrow> a \<le> b"
  by (induction ss arbitrary: a) fastforce+

lemma tiles_range:
  "tiles f a ss b \<Longrightarrow> s \<in> set ss \<Longrightarrow>
     a \<le> unat (seg_base (f s)) \<and> unat (seg_base (f s)) + unat (seg_size (f s)) \<le> b"
  by (induction ss arbitrary: a) (fastforce dest: tiles_le)+

lemma tiles_pos: "tiles f a ss b \<Longrightarrow> s \<in> set ss \<Longrightarrow> 0 < unat (seg_size (f s))"
  by (induction ss arbitrary: a) auto

lemma tiles_upd [simp]:
  "v \<notin> set ss \<Longrightarrow> tiles (f(v := k)) a ss b = tiles f a ss b"
  by (rule tiles_cong) auto

lemma tiles_disjoint:
  assumes "tiles f a ss b" and "s \<in> set ss" and "t \<in> set ss" and "s \<noteq> t"
  shows "unat (seg_base (f s)) + unat (seg_size (f s)) \<le> unat (seg_base (f t)) \<or>
         unat (seg_base (f t)) + unat (seg_size (f t)) \<le> unat (seg_base (f s))"
  using assms
proof (induction ss arbitrary: a)
  case (Cons x xs)
  then show ?case by (cases "s = x"; cases "t = x") (auto dest: tiles_range)
qed simp

lemma no_adj_cons: "no_adj P (x # ys) \<longleftrightarrow> no_adj P ys \<and> (ys = [] \<or> \<not> (P x \<and> P (hd ys)))"
  by (cases ys) auto

lemma no_adj_append:
  "no_adj P (xs @ ys) \<longleftrightarrow> no_adj P xs \<and> no_adj P ys \<and>
     (xs = [] \<or> ys = [] \<or> \<not> (P (last xs) \<and> P (hd ys)))"
  by (induction xs) (auto simp: no_adj_cons)

lemma no_adj_mono: "no_adj P xs \<Longrightarrow> (\<And>x. x \<in> set xs \<Longrightarrow> Q x \<Longrightarrow> P x) \<Longrightarrow> no_adj Q xs"
  by (induction P xs rule: no_adj.induct) auto

lemma no_adj_cong: "(\<And>x. x \<in> set xs \<Longrightarrow> P x = Q x) \<Longrightarrow> no_adj P xs = no_adj Q xs"
  by (induction P xs rule: no_adj.induct) auto

lemma pred_of_Some: "pred_of s xs = Some p \<Longrightarrow> \<exists>as bs. xs = as @ p # s # bs"
proof (induction s xs rule: pred_of.induct)
  case (1 s x y zs)
  show ?case
  proof (cases "y = s")
    case True then show ?thesis using 1 by (metis append_Nil option.inject pred_of.simps(1))
  next
    case False then show ?thesis using 1 by (metis append_Cons pred_of.simps(1))
  qed
qed auto

lemma succ_of_Some: "succ_of s xs = Some n \<Longrightarrow> \<exists>as bs. xs = as @ s # n # bs"
proof (induction s xs rule: succ_of.induct)
  case (1 s x y zs)
  show ?case
  proof (cases "x = s")
    case True then show ?thesis using 1 by (metis append_Nil option.inject succ_of.simps(1))
  next
    case False then show ?thesis using 1 by (metis append_Cons succ_of.simps(1))
  qed
qed auto

lemma pred_of_split: "s \<notin> set as \<Longrightarrow> as \<noteq> [] \<Longrightarrow> pred_of s (as @ s # bs) = Some (last as)"
proof (induction as)
  case (Cons a as) then show ?case by (cases as) auto
qed simp

lemma succ_of_split: "s \<notin> set as \<Longrightarrow> succ_of s (as @ s # bs) = (case bs of [] \<Rightarrow> None | b # _ \<Rightarrow> Some b)"
proof (induction as)
  case Nil then show ?case by (cases bs) auto
next
  case (Cons a as) then show ?case by (cases as) auto
qed

section \<open>The invariant\<close>

definition is_free :: "'pm vmem \<Rightarrow> nat \<Rightarrow> bool" where
  "is_free vm s \<longleftrightarrow> seg_ty (segs vm s) = Free"

definition is_used :: "'pm vmem \<Rightarrow> nat \<Rightarrow> bool" where
  "is_used vm s \<longleftrightarrow> seg_ty (segs vm s) = Used"

definition fl_ok :: "nat set \<Rightarrow> 'pm vmem \<Rightarrow> bool" where
  "fl_ok X vm \<longleftrightarrow> (\<forall>i. distinct (freelists vm i) \<and>
     set (freelists vm i) =
       {s \<in> set (tl (seg_list vm)) - X. is_free vm s \<and> size_to_index (seg_size (segs vm s)) = i})"

definition ht_ok :: "nat set \<Rightarrow> 'pm vmem \<Rightarrow> bool" where
  "ht_ok X vm \<longleftrightarrow> (\<forall>i. distinct (hash_tab vm i) \<and>
     set (hash_tab vm i) =
       {s \<in> set (tl (seg_list vm)) - X. is_used vm s \<and> hash_index (seg_base (segs vm s)) = i})"

definition tiling_ok :: "nat set \<Rightarrow> 'pm vmem \<Rightarrow> bool" where
  "tiling_ok X vm \<longleftrightarrow> seg_list vm \<noteq> [] \<and> seg_ty (segs vm (hd (seg_list vm))) = Span \<and>
     tiles (segs vm) (unat (vm_base vm)) (tl (seg_list vm)) (unat (vm_base vm) + unat (vm_size vm)) \<and>
     unat (vm_base vm) + unat (vm_size vm) < 2 ^ 64 \<and>
     (\<forall>s \<in> set (tl (seg_list vm)). seg_ty (segs vm s) \<noteq> Span) \<and>
     no_adj (\<lambda>s. s \<notin> X \<and> is_free vm s) (tl (seg_list vm))"

definition objs_ok :: "('pm \<Rightarrow> bool) \<Rightarrow> ('pm \<Rightarrow> nat set) \<Rightarrow> nat list \<Rightarrow> 'pm vmem \<Rightarrow> bool" where
  "objs_ok pinv live E vm \<longleftrightarrow> distinct (E @ seg_list vm @ free_segs vm) \<and>
     (\<forall>s \<in> set (E @ seg_list vm @ free_segs vm).
        \<exists>p \<in> set (seg_page_list vm). p \<le> s \<and> s < p + 4096) \<and>
     set (seg_page_list vm) \<subseteq> live (pm vm) \<and> pinv (pm vm)"

definition vm_wf :: "('pm \<Rightarrow> bool) \<Rightarrow> ('pm \<Rightarrow> nat set) \<Rightarrow> nat list \<Rightarrow> nat set \<Rightarrow> 'pm vmem \<Rightarrow> bool" where
  "vm_wf pinv live E X vm \<longleftrightarrow> fl_ok X vm \<and> ht_ok X vm \<and> tiling_ok X vm \<and> objs_ok pinv live E vm"

text \<open>The regions handed out, as address and size.\<close>

definition used_in :: "nat set \<Rightarrow> 'pm vmem \<Rightarrow> (nat \<times> nat) set" where
  "used_in X vm = (\<lambda>s. (unat (seg_base (segs vm s)), unat (seg_size (segs vm s)))) `
     {s \<in> set (tl (seg_list vm)) - X. is_used vm s}"

definition same_range :: "'pm vmem \<Rightarrow> 'pm vmem \<Rightarrow> bool" where
  "same_range vm vm' \<longleftrightarrow> vm_base vm' = vm_base vm \<and> vm_size vm' = vm_size vm \<and>
     vm_quantum vm' = vm_quantum vm"

section \<open>Freeing with coalescing\<close>

lemmas vm_simps = fl_push_front_def fl_remove_def freelist_remove_def upd_seg_def seg_free_def
  is_free_def is_used_def

lemma fl_ok_dest: "fl_ok X vm \<Longrightarrow> s \<in> set (freelists vm i) \<longleftrightarrow>
    s \<in> set (tl (seg_list vm)) \<and> s \<notin> X \<and> is_free vm s \<and> size_to_index (seg_size (segs vm s)) = i"
  by (auto simp: fl_ok_def)

lemma ht_ok_dest: "ht_ok X vm \<Longrightarrow> s \<in> set (hash_tab vm i) \<longleftrightarrow>
    s \<in> set (tl (seg_list vm)) \<and> s \<notin> X \<and> is_used vm s \<and> hash_index (seg_base (segs vm s)) = i"
  by (auto simp: ht_ok_def)

lemma tiling_ok_range:
  assumes "tiling_ok X vm" and "s \<in> set (tl (seg_list vm))"
  shows "unat (vm_base vm) \<le> unat (seg_base (segs vm s))"
    and "unat (seg_base (segs vm s)) + unat (seg_size (segs vm s)) \<le> unat (vm_base vm) + unat (vm_size vm)"
    and "unat (seg_base (segs vm s)) + unat (seg_size (segs vm s)) < 2 ^ 64"
    and "0 < unat (seg_size (segs vm s))"
  using assms tiles_range [of "segs vm" _ _ _ s] tiles_pos [of "segs vm" _ _ _ s]
  by (fastforce simp: tiling_ok_def)+

lemma unat_seg_end:
  assumes "tiling_ok X vm" and "s \<in> set (tl (seg_list vm))"
  shows "unat (seg_base (segs vm s) + seg_size (segs vm s)) =
         unat (seg_base (segs vm s)) + unat (seg_size (segs vm s))"
  using tiling_ok_range [OF assms] by (intro unat_add_small) auto

text \<open>\<open>x\<close> and \<open>y\<close> are neighbours; \<open>s\<close>, the segment the loop works on, is one of
  them and the free segment \<open>m\<close> the other.\<close>

definition mergeable :: "nat \<Rightarrow> nat \<Rightarrow> nat \<Rightarrow> nat \<Rightarrow> 'pm vmem \<Rightarrow> bool" where
  "mergeable s m x y vm \<longleftrightarrow> distinct (seg_list vm) \<and> is_free vm m \<and>
     (s = x \<and> m = y \<or> s = y \<and> m = x) \<and> (\<exists>sp as bs. seg_list vm = sp # as @ x # y # bs)"

lemma merge_fl_ok: "mergeable s m x y vm \<Longrightarrow> fl_ok {s} vm \<Longrightarrow> fl_ok {x} (merge_into x y m vm)"
  by (auto simp: mergeable_def fl_ok_def merge_into_def vm_simps Let_def remove1_append)

lemma merge_ht_ok: "mergeable s m x y vm \<Longrightarrow> ht_ok {s} vm \<Longrightarrow> ht_ok {x} (merge_into x y m vm)"
  by (auto simp: mergeable_def ht_ok_def merge_into_def vm_simps Let_def remove1_append)

lemma merge_objs_ok:
  "mergeable s m x y vm \<Longrightarrow> objs_ok pinv live E vm \<Longrightarrow> objs_ok pinv live E (merge_into x y m vm)"
  by (auto simp: mergeable_def objs_ok_def merge_into_def vm_simps Let_def remove1_append)

lemma merge_used: "mergeable s m x y vm \<Longrightarrow> used_in {x} (merge_into x y m vm) = used_in {s} vm"
  unfolding used_in_def
  by (rule image_cong) (auto simp: mergeable_def merge_into_def vm_simps Let_def remove1_append)

lemma merge_range: "same_range vm (merge_into x y m vm)"
  by (simp add: same_range_def merge_into_def vm_simps Let_def)

lemma merge_tiling_ok:
  assumes mg: "mergeable s m x y vm" and t: "tiling_ok {s} vm"
  shows "tiling_ok {x} (merge_into x y m vm)"
proof -
  obtain sp as bs where sl: "seg_list vm = sp # as @ x # y # bs" using mg by (auto simp: mergeable_def)
  have d: "distinct (sp # as @ x # y # bs)" using mg sl by (simp add: mergeable_def)
  let ?f = "segs vm"
  have xy: "x \<in> set (tl (seg_list vm))" "y \<in> set (tl (seg_list vm))" by (auto simp: sl)
  have tl: "tiles ?f (unat (vm_base vm)) (as @ x # y # bs) (unat (vm_base vm) + unat (vm_size vm))"
    using t by (simp add: tiling_ok_def sl)
  then have "unat (seg_base (?f y)) = unat (seg_base (?f x)) + unat (seg_size (?f x))" by auto
  then have sz: "unat (seg_size (?f x) + seg_size (?f y)) = unat (seg_size (?f x)) + unat (seg_size (?f y))"
    using tiling_ok_range(3) [OF t xy(2)] by (intro unat_add_small) linarith
  have na: "no_adj (\<lambda>z. z \<noteq> x \<and> is_free vm z) (as @ x # bs)"
  proof -
    have "no_adj (\<lambda>z. z \<noteq> s \<and> is_free vm z) (as @ x # y # bs)" using t by (simp add: tiling_ok_def sl)
    then have "no_adj (\<lambda>z. z \<noteq> s \<and> is_free vm z) as" "no_adj (\<lambda>z. z \<noteq> s \<and> is_free vm z) bs"
      by (auto simp: no_adj_append no_adj_cons)
    then have "no_adj (\<lambda>z. z \<noteq> x \<and> is_free vm z) as" "no_adj (\<lambda>z. z \<noteq> x \<and> is_free vm z) bs"
      using d mg by (auto elim!: no_adj_mono simp: mergeable_def)
    then show ?thesis by (auto simp: no_adj_append no_adj_cons)
  qed
  define vm' where "vm' = merge_into x y m vm"
  have f': "segs vm' = ?f(x := (?f x)\<lparr>seg_size := seg_size (?f x) + seg_size (?f y)\<rparr>)"
    by (cases "?f x") (simp add: vm'_def merge_into_def vm_simps Let_def)
  have sl': "seg_list vm' = sp # as @ x # bs" using d by (simp add: vm'_def sl remove1_append)
  have b': "vm_base vm' = vm_base vm" "vm_size vm' = vm_size vm"
    using merge_range [of vm x y m] by (auto simp: same_range_def vm'_def)
  have "no_adj (\<lambda>z. z \<notin> {x} \<and> is_free vm' z) (as @ x # bs)"
    using na by (elim no_adj_mono) (auto simp: is_free_def f')
  moreover have "tiles (segs vm') (unat (vm_base vm)) (as @ x # bs) (unat (vm_base vm) + unat (vm_size vm))"
    using tl d sz by (auto simp: f' add.assoc)
  ultimately show ?thesis
    using t d unfolding vm'_def [symmetric] by (auto simp: tiling_ok_def sl sl' b' f')
qed

lemma merge_wf:
  "mergeable s m x y vm \<Longrightarrow> vm_wf pinv live E {s} vm \<Longrightarrow> vm_wf pinv live E {x} (merge_into x y m vm)"
  by (auto simp: vm_wf_def intro: merge_fl_ok merge_ht_ok merge_tiling_ok merge_objs_ok)

lemma vm_wf_dest:
  assumes "vm_wf pinv live E X vm"
  shows "distinct (seg_list vm)" and "tiling_ok X vm" and "fl_ok X vm" and "ht_ok X vm"
    and "objs_ok pinv live E vm"
  using assms by (auto simp: vm_wf_def objs_ok_def)

lemma merges_prev_mergeable:
  assumes wf: "vm_wf pinv live E {s} vm" and "merges_prev s vm = Some p"
  shows "mergeable s p p s vm"
proof -
  from assms(2) have p: "pred_of s (seg_list vm) = Some p" "is_free vm p"
    by (auto simp: merges_prev_def is_free_def split: option.splits if_splits)
  then obtain as bs where sl: "seg_list vm = as @ p # s # bs" by (auto dest: pred_of_Some)
  then show ?thesis using p vm_wf_dest(1,2) [OF wf]
    by (cases as) (auto simp: mergeable_def tiling_ok_def is_free_def)
qed

lemma merges_next_mergeable:
  assumes wf: "vm_wf pinv live E {s} vm" and s: "s \<in> set (tl (seg_list vm))" and "merges_next s vm = Some n"
  shows "mergeable s n s n vm"
proof -
  from assms(3) have p: "succ_of s (seg_list vm) = Some n" "is_free vm n"
    by (auto simp: merges_next_def is_free_def split: option.splits if_splits)
  then obtain as bs where sl: "seg_list vm = as @ s # n # bs" by (auto dest: succ_of_Some)
  then show ?thesis using p s vm_wf_dest(1) [OF wf] by (cases as) (auto simp: mergeable_def)
qed

lemma mergeable_mem: "mergeable s m x y vm \<Longrightarrow> x \<in> set (tl (seg_list (merge_into x y m vm)))"
  by (auto simp: mergeable_def remove1_append)

text \<open>When neither neighbour is free, making the segment free keeps the tiling coalesced.\<close>

definition neighbours_busy :: "nat set \<Rightarrow> nat \<Rightarrow> 'pm vmem \<Rightarrow> bool" where
  "neighbours_busy X s vm \<longleftrightarrow> (\<exists>sp as bs. seg_list vm = sp # as @ s # bs \<and>
     (as = [] \<or> last as \<in> X \<or> \<not> is_free vm (last as)) \<and>
     (bs = [] \<or> hd bs \<in> X \<or> \<not> is_free vm (hd bs)))"

lemma no_adj_insert:
  assumes "no_adj (\<lambda>z. z \<noteq> s \<and> P z) (as @ s # bs)" and "s \<notin> set as" and "s \<notin> set bs"
    and "as = [] \<or> \<not> P (last as)" and "bs = [] \<or> \<not> P (hd bs)"
  shows "no_adj (\<lambda>z. z = s \<or> P z) (as @ s # bs)"
proof -
  have "no_adj (\<lambda>z. z = s \<or> P z) as" "no_adj (\<lambda>z. z = s \<or> P z) bs"
    using assms(1-3) by (auto simp: no_adj_append no_adj_cons elim!: no_adj_mono)
  moreover have "as = [] \<or> last as \<noteq> s" "bs = [] \<or> hd bs \<noteq> s" using assms(2,3) by auto
  ultimately show ?thesis using assms(4,5) by (auto simp: no_adj_append no_adj_cons)
qed

lemma set_free_tiling:
  assumes t: "tiling_ok (insert s X) vm" and nb: "neighbours_busy X s vm" and d: "distinct (seg_list vm)"
  shows "tiling_ok X (upd_seg s (seg_ty_update (\<lambda>_. Free)) vm)" (is "tiling_ok X ?vm")
proof -
  obtain sp as bs where sl: "seg_list vm = sp # as @ s # bs"
    and n: "as = [] \<or> last as \<in> X \<or> \<not> is_free vm (last as)" "bs = [] \<or> hd bs \<in> X \<or> \<not> is_free vm (hd bs)"
    using nb by (auto simp: neighbours_busy_def)
  have dd: "distinct (sp # as @ s # bs)" using d sl by simp
  have "no_adj (\<lambda>z. z = s \<or> z \<notin> X \<and> is_free vm z) (as @ s # bs)"
    using t n dd by (intro no_adj_insert) (auto simp: tiling_ok_def sl)
  then have "no_adj (\<lambda>z. z \<notin> X \<and> is_free ?vm z) (as @ s # bs)"
    by (rule no_adj_mono) (auto simp: vm_simps split: if_splits)
  moreover have "tiles (segs ?vm) a xs b = tiles (segs vm) a xs b" for a xs b
    by (rule tiles_cong) (simp add: upd_seg_def)
  ultimately show ?thesis using t dd by (auto simp: tiling_ok_def sl upd_seg_def)
qed

lemma no_merge_wf:
  assumes wf: "vm_wf pinv live E (insert s X) vm" and sX: "s \<notin> X" and nb: "neighbours_busy X s vm"
  shows "\<exists>vm'. freelist_insert_no_merge s vm = Some vm' \<and> vm_wf pinv live E X vm' \<and>
    used_in X vm' = used_in (insert s X) vm \<and> same_range vm vm' \<and> seg_list vm' = seg_list vm \<and>
    segs vm' = (segs vm)(s := (segs vm s)\<lparr>seg_ty := Free\<rparr>)"
proof -
  note d = vm_wf_dest [OF wf]
  have s: "s \<in> set (tl (seg_list vm))" using nb by (auto simp: neighbours_busy_def)
  define vm1 where "vm1 = upd_seg s (seg_ty_update (\<lambda>_. Free)) vm"
  define vm' where "vm' = fl_push_front (size_to_index (seg_size (segs vm s))) s vm1"
  have "seg_size (segs vm s) \<noteq> 0" using tiling_ok_range(4) [OF d(2) s] by auto
  then have v: "freelist_insert_no_merge s vm = Some vm'"
    by (simp add: freelist_insert_no_merge_def vm'_def vm1_def)
  have "fl_ok X vm'" using d(3) s sX by (auto simp: fl_ok_def vm'_def vm1_def vm_simps)
  moreover have "ht_ok X vm'" using d(4) by (auto simp: ht_ok_def vm'_def vm1_def vm_simps)
  moreover have "objs_ok pinv live E vm'" using d(5) by (simp add: objs_ok_def vm'_def vm1_def vm_simps)
  moreover have "used_in X vm' = used_in (insert s X) vm"
    unfolding used_in_def by (rule image_cong) (auto simp: vm'_def vm1_def vm_simps)
  moreover have "tiling_ok X vm1" unfolding vm1_def by (rule set_free_tiling [OF d(2) nb d(1)])
  then have "tiling_ok X vm'" by (simp add: tiling_ok_def vm'_def vm_simps)
  moreover have "same_range vm vm'" "seg_list vm' = seg_list vm"
    "segs vm' = (segs vm)(s := (segs vm s)\<lparr>seg_ty := Free\<rparr>)"
    by (simp_all add: same_range_def vm'_def vm1_def vm_simps)
  ultimately show ?thesis using v by (auto simp: vm_wf_def)
qed

lemma no_merge_neighbours:
  assumes wf: "vm_wf pinv live E {s} vm" and s: "s \<in> set (tl (seg_list vm))"
    and np: "merges_prev s vm = None" and nn: "merges_next s vm = None"
  shows "neighbours_busy {} s vm"
proof -
  note d = vm_wf_dest [OF wf]
  obtain sp as bs where sl: "seg_list vm = sp # as @ s # bs"
    using s d(2) by (cases "seg_list vm") (auto simp: in_set_conv_decomp)
  have dd: "distinct (sp # as @ s # bs)" using d(1) sl by simp
  have tl: "tiles (segs vm) (unat (vm_base vm)) (as @ s # bs) (unat (vm_base vm) + unat (vm_size vm))"
    using d(2) by (simp add: tiling_ok_def sl)
  have "as = [] \<or> \<not> is_free vm (last as)"
  proof (rule ccontr)
    assume c: "\<not> ?thesis"
    then obtain cs p where as: "as = cs @ [p]" by (cases as rule: rev_cases) auto
    have "p \<in> set (tl (seg_list vm))" by (simp add: sl as)
    then have "seg_base (segs vm p) + seg_size (segs vm p) = seg_base (segs vm s)"
      using tl unat_seg_end [OF d(2)] by (auto simp: as word_eq_unat)
    then show False using np c pred_of_split [of s "sp # as" bs] dd
      by (auto simp: merges_prev_def sl as is_free_def)
  qed
  moreover have "bs = [] \<or> \<not> is_free vm (hd bs)"
  proof (rule ccontr)
    assume c: "\<not> ?thesis"
    then obtain n cs where bs: "bs = n # cs" by (cases bs) auto
    then have "seg_base (segs vm s) + seg_size (segs vm s) = seg_base (segs vm n)"
      using tl unat_seg_end [OF d(2) s] by (auto simp: word_eq_unat)
    then show False using nn c succ_of_split [of s "sp # as" bs] dd
      by (auto simp: merges_next_def sl bs is_free_def)
  qed
  ultimately show ?thesis using sl by (auto simp: neighbours_busy_def)
qed

lemma same_range_trans: "same_range a b \<Longrightarrow> same_range b c \<Longrightarrow> same_range a c"
  by (simp add: same_range_def)

lemma freelist_insert_loop_wf:
  "vm_wf pinv live E {s} vm \<Longrightarrow> s \<in> set (tl (seg_list vm)) \<Longrightarrow>
   \<exists>vm'. freelist_insert_loop s vm = Some vm' \<and> vm_wf pinv live E {} vm' \<and>
     used_in {} vm' = used_in {s} vm \<and> same_range vm vm'"
proof (induction s vm rule: freelist_insert_loop.induct)
  case (1 s vm)
  consider (p) p where "merges_prev s vm = Some p"
    | (n) n where "merges_prev s vm = None" "merges_next s vm = Some n"
    | (none) "merges_prev s vm = None" "merges_next s vm = None" by fastforce
  then show ?case
  proof cases
    case p
    note mg = merges_prev_mergeable [OF 1(3) p]
    show ?thesis using 1(2) [OF p merge_wf [OF mg 1(3)] mergeable_mem [OF mg]] p
        merge_used [OF mg] merge_range [of vm p s p]
      by (subst freelist_insert_loop.simps) (auto intro: same_range_trans)
  next
    case n
    note mg = merges_next_mergeable [OF 1(3,4) n(2)]
    show ?thesis using 1(1) [OF n merge_wf [OF mg 1(3)] mergeable_mem [OF mg]] n
        merge_used [OF mg] merge_range [of vm s n n]
      by (subst freelist_insert_loop.simps) (auto intro: same_range_trans)
  next
    case none
    then show ?thesis using no_merge_wf [OF 1(3) _ no_merge_neighbours [OF 1(3,4) none]]
      by (auto simp: freelist_insert_loop.simps)
  qed
qed

lemma freelist_insert_wf:
  assumes "vm_wf pinv live E {s} vm" and "s \<in> set (tl (seg_list vm))"
  shows "\<exists>vm'. freelist_insert s vm = Some vm' \<and> vm_wf pinv live E {} vm' \<and>
     used_in {} vm' = used_in {s} vm \<and> same_range vm vm'"
  using freelist_insert_loop_wf [OF assms] tiling_ok_range(4) [OF vm_wf_dest(2) [OF assms(1)] assms(2)]
  by (auto simp: freelist_insert_def)

lemma tiling_ok_inj:
  assumes t: "tiling_ok X vm" and "s \<in> set (tl (seg_list vm))" and "u \<in> set (tl (seg_list vm))"
    and "seg_base (segs vm s) = seg_base (segs vm u)"
  shows "s = u"
proof (rule ccontr)
  assume "s \<noteq> u"
  with t have "unat (seg_base (segs vm s)) + unat (seg_size (segs vm s)) \<le> unat (seg_base (segs vm u)) \<or>
      unat (seg_base (segs vm u)) + unat (seg_size (segs vm u)) \<le> unat (seg_base (segs vm s))"
    using assms(2,3) by (intro tiles_disjoint) (auto simp: tiling_ok_def)
  then show False using assms(4) tiling_ok_range(4) [OF t] assms(2,3) by fastforce
qed

lemma tiling_ok_weaken: "tiling_ok {} vm \<Longrightarrow> tiling_ok X vm"
  by (auto simp: tiling_ok_def elim!: no_adj_mono)

lemma used_inj_on:
  assumes "tiling_ok X vm"
  shows "inj_on (\<lambda>s. (unat (seg_base (segs vm s)), unat (seg_size (segs vm s)))) {s \<in> set (tl (seg_list vm)) - Y. is_used vm s}"
  using tiling_ok_inj [OF assms] by (auto simp: inj_on_def word_eq_unat)

lemma used_in_inj:
  assumes wf: "vm_wf pinv live E {} vm" and "(a, n) \<in> used_in {} vm" and "(a, k) \<in> used_in {} vm"
  shows "n = k"
proof -
  obtain s u where "s \<in> set (tl (seg_list vm))" "u \<in> set (tl (seg_list vm))"
    "unat (seg_base (segs vm s)) = unat (seg_base (segs vm u))"
    and nk: "n = unat (seg_size (segs vm s))" "k = unat (seg_size (segs vm u))"
    using assms(2,3) by (auto simp: used_in_def)
  then have "s = u" using tiling_ok_inj [OF vm_wf_dest(2) [OF wf]] by (simp add: word_eq_unat)
  with nk show ?thesis by simp
qed

lemma hashtab_remove_cases:
  assumes wf: "vm_wf pinv live E {} vm" and r: "hashtab_remove key vm = (r, vm')"
  shows "case r of
     None \<Rightarrow> vm' = vm \<and> unat key \<notin> fst ` used_in {} vm
   | Some s \<Rightarrow> s \<in> set (tl (seg_list vm')) \<and> seg_base (segs vm' s) = key \<and> vm_wf pinv live E {s} vm' \<and>
       (unat key, unat (seg_size (segs vm' s))) \<in> used_in {} vm \<and>
       used_in {s} vm' = used_in {} vm - {(unat key, unat (seg_size (segs vm' s)))} \<and> same_range vm vm'"
proof (cases "List.find (\<lambda>s. seg_base (segs vm s) = key) (hash_tab vm (hash_index key))")
  case None
  then have "\<forall>s \<in> set (hash_tab vm (hash_index key)). seg_base (segs vm s) \<noteq> key"
    by (auto simp: find_None_iff)
  then have "unat (seg_base (segs vm u)) \<noteq> unat key" if "u \<in> set (tl (seg_list vm))" "is_used vm u" for u
    using ht_ok_dest [OF vm_wf_dest(4) [OF wf], of u "hash_index key"] that
      word_eq_unat [of "seg_base (segs vm u)" key] by auto
  then have "unat key \<notin> fst ` used_in {} vm" by (force simp: used_in_def)
  then show ?thesis using None r by (auto simp: hashtab_remove_def Let_def)
next
  case (Some s)
  note d = vm_wf_dest [OF wf]
  have "s \<in> set (hash_tab vm (hash_index key))" and key: "seg_base (segs vm s) = key"
    using Some by (auto simp: find_Some_iff)
  then have s: "s \<in> set (tl (seg_list vm))" "is_used vm s" using ht_ok_dest [OF d(4)] by auto
  have vm': "r = Some s" "vm' = vm\<lparr>hash_tab := (hash_tab vm)(hash_index key := remove1 s (hash_tab vm (hash_index key)))\<rparr>"
    using Some r by (auto simp: hashtab_remove_def Let_def)
  have "ht_ok {s} vm'" using d(4) key by (auto simp: ht_ok_def vm' is_used_def)
  moreover have "fl_ok {s} vm'" using d(3) s by (auto simp: fl_ok_def vm' is_used_def is_free_def)
  moreover have "tiling_ok {s} vm'" using tiling_ok_weaken [OF d(2), of "{s}"] by (simp add: tiling_ok_def vm' is_free_def)
  moreover have "objs_ok pinv live E vm'" using d(5) by (simp add: objs_ok_def vm')
  moreover have "used_in {s} vm' = used_in {} vm - {(unat key, unat (seg_size (segs vm s)))}"
  proof -
    have "{u \<in> set (tl (seg_list vm')) - {s}. is_used vm' u} = {u \<in> set (tl (seg_list vm)) - {}. is_used vm u} - {s}"
      by (auto simp: vm' is_used_def)
    then show ?thesis using inj_on_image_set_diff [OF used_inj_on [OF d(2), of "{}"],
          of "{u \<in> set (tl (seg_list vm)) - {}. is_used vm u}" "{s}"] s key
      by (simp add: used_in_def vm')
  qed
  moreover have "(unat key, unat (seg_size (segs vm s))) \<in> used_in {} vm"
    using s key by (auto simp: used_in_def)
  ultimately show ?thesis using s key by (auto simp: vm_wf_def vm' same_range_def)
qed

lemma xfree_wf:
  assumes wf: "vm_wf pinv live E {} vm" and u: "(unat ptr, unat (ALIGNUP sz (vm_quantum vm))) \<in> used_in {} vm"
  shows "\<exists>vm'. xfree ptr sz vm = Some vm' \<and> vm_wf pinv live E {} vm' \<and>
     used_in {} vm' = used_in {} vm - {(unat ptr, unat (ALIGNUP sz (vm_quantum vm)))} \<and> same_range vm vm'"
proof -
  obtain r vm1 where r: "hashtab_remove ptr vm = (r, vm1)" by fastforce
  show ?thesis
  proof (cases r)
    case None
    then show ?thesis using hashtab_remove_cases [OF wf r] u by force
  next
    case (Some s)
    note h = hashtab_remove_cases [OF wf r, unfolded Some option.case]
    have n: "unat (seg_size (segs vm1 s)) = unat (ALIGNUP sz (vm_quantum vm))"
      using h u used_in_inj [OF wf] by blast
    then have "seg_size (segs vm1 s) = ALIGNUP sz (vm_quantum vm1)"
      using h word_eq_unat [of "seg_size (segs vm1 s)" "ALIGNUP sz (vm_quantum vm)"]
      by (simp add: same_range_def)
    then show ?thesis using freelist_insert_wf [of pinv live E s vm1] h r Some n
      by (auto simp: xfree_def intro: same_range_trans)
  qed
qed

lemma xfree_unknown:
  assumes wf: "vm_wf pinv live E {} vm" and u: "unat ptr \<notin> fst ` used_in {} vm"
  shows "xfree ptr sz vm = Some vm"
proof -
  obtain r vm1 where r: "hashtab_remove ptr vm = (r, vm1)" by fastforce
  then show ?thesis using hashtab_remove_cases [OF wf r] u
    by (cases r) (auto simp: xfree_def image_iff)
qed

lemma xfree_wrong_size:
  assumes wf: "vm_wf pinv live E {} vm" and u: "(unat ptr, n) \<in> used_in {} vm"
    and n: "n \<noteq> unat (ALIGNUP sz (vm_quantum vm))"
  shows "xfree ptr sz vm = None"
proof -
  obtain r vm1 where r: "hashtab_remove ptr vm = (r, vm1)" by fastforce
  show ?thesis
  proof (cases r)
    case None
    then show ?thesis using hashtab_remove_cases [OF wf r] rev_image_eqI [OF u, of "unat ptr" fst] by simp
  next
    case (Some s)
    have h: "(unat ptr, unat (seg_size (segs vm1 s))) \<in> used_in {} vm" "vm_quantum vm1 = vm_quantum vm"
      using hashtab_remove_cases [OF wf r, unfolded Some option.case] by (auto simp: same_range_def)
    then have "unat (seg_size (segs vm1 s)) = n"
      using u used_in_inj [OF wf, of "unat ptr" "unat (seg_size (segs vm1 s))" n] by simp
    then have "seg_size (segs vm1 s) \<noteq> ALIGNUP sz (vm_quantum vm1)" using n h by auto
    then show ?thesis by (simp add: xfree_def r Some)
  qed
qed

end
