(* ===== verification/Vmem_Alloc.thy ===== *)
theory Vmem_Alloc
  imports Vmem_Inv
begin

text \<open>
  Allocation of the \<open>VMem\<close> model: segment objects come from a page source, \<open>seg_fit\<close> cuts
  a region out of a free segment, and \<open>xalloc\<close> searches the free lists for one that fits.
\<close>

section \<open>Segment objects and the page source\<close>

locale page_source =
  fixes alloc_page :: "'pm \<Rightarrow> nat option \<times> 'pm"
    and pinv :: "'pm \<Rightarrow> bool" and live :: "'pm \<Rightarrow> nat set"
  assumes alloc_none: "pinv p \<Longrightarrow> alloc_page p = (None, p') \<Longrightarrow> pinv p' \<and> live p' = live p"
    and alloc_some: "pinv p \<Longrightarrow> alloc_page p = (Some a, p') \<Longrightarrow>
      pinv p' \<and> a \<notin> live p \<and> live p' = insert a (live p)"
    and live_aligned: "pinv p \<Longrightarrow> a \<in> live p \<Longrightarrow> a mod 4096 = 0"

definition same_struct :: "'pm vmem \<Rightarrow> 'pm vmem \<Rightarrow> bool" where
  "same_struct vm vm' \<longleftrightarrow> freelists vm' = freelists vm \<and> seg_list vm' = seg_list vm \<and>
     hash_tab vm' = hash_tab vm \<and> segs vm' = segs vm \<and> same_range vm vm'"

lemma same_struct_trans: "same_struct a b \<Longrightarrow> same_struct b c \<Longrightarrow> same_struct a c"
  by (simp add: same_struct_def same_range_def)

lemma same_struct_wf:
  "same_struct vm vm' \<Longrightarrow> vm_wf pinv live E X vm \<Longrightarrow> objs_ok pinv live E' vm' \<Longrightarrow> vm_wf pinv live E' X vm'"
  by (auto simp: same_struct_def same_range_def vm_wf_def fl_ok_def ht_ok_def tiling_ok_def
      is_free_def is_used_def)

lemma same_struct_used: "same_struct vm vm' \<Longrightarrow> used_in X vm' = used_in X vm"
  by (simp add: same_struct_def used_in_def is_used_def)

lemma fold_push: "fold (\<lambda>i fs. g i # fs) xs ys = rev (map g xs) @ ys"
  by (induction xs arbitrary: ys) auto

lemma fresh_page_segs:
  assumes "fs = rev (map (\<lambda>i. page + 56 * i) [1..<73])"
  shows "distinct fs" and "fs \<noteq> []" and "\<And>s. s \<in> set fs \<Longrightarrow> page \<le> s \<and> s < page + 4096"
  using assms by (auto simp: distinct_map inj_on_def simp del: upt_rec_numeral)

lemma other_page_disjoint:
  fixes p q s :: nat
  assumes "p mod 4096 = 0" and "q mod 4096 = 0" and "p \<noteq> q" and "p \<le> s" "s < p + 4096"
  shows "\<not> (q \<le> s \<and> s < q + 4096)"
proof -
  obtain a b where ab: "p = 4096 * a" "q = 4096 * b" using assms(1,2) by (auto elim!: dvdE simp: mod_eq_0_iff_dvd)
  then have "a + 1 \<le> b \<or> b + 1 \<le> a" using assms(3) by auto
  then show ?thesis using assms(4,5) unfolding ab by linarith
qed

context page_source
begin

lemma seg_alloc_cases:
  assumes ok: "objs_ok pinv live E vm" and r: "seg_alloc alloc_page vm = (r, vm')"
  shows "same_struct vm vm' \<and> objs_ok pinv live (case r of None \<Rightarrow> E | Some s \<Rightarrow> s # E) vm'"
proof (cases "free_segs vm")
  case (Cons s ss)
  then show ?thesis using ok r by (auto simp: seg_alloc_def objs_ok_def same_struct_def same_range_def)
next
  case Nil
  obtain q p' where q: "alloc_page (pm vm) = (q, p')" by fastforce
  have pi: "pinv (pm vm)" using ok by (simp add: objs_ok_def)
  show ?thesis
  proof (cases q)
    case None
    then show ?thesis using ok r q Nil alloc_none [OF pi]
      by (auto simp: seg_alloc_def objs_ok_def same_struct_def same_range_def)
  next
    case (Some page)
    note n = alloc_some [OF pi q [unfolded Some]]
    define fs where "fs = rev (map (\<lambda>i. page + 56 * i) [1..<73])"
    note fs = fresh_page_segs [OF fs_def]
    have "fold (\<lambda>i fs. (page + sizeof_Segment * i) # fs) [1..<unat PAGE_SIZE div sizeof_Segment] [] = fs"
      by (simp add: fold_push fs_def sizeof_Segment_def PAGE_SIZE_def del: upt_rec_numeral)
    then have r': "r = Some (hd fs)" "vm' = vm\<lparr>pm := p', seg_page_list := page # seg_page_list vm, free_segs := tl fs\<rparr>"
      using r q Nil unfolding seg_alloc_def Some by (simp_all add: Let_def)
    have al: "page mod 4096 = 0" using n live_aligned by blast
    have "s \<notin> set fs" if s: "s \<in> set (E @ seg_list vm)" for s
    proof -
      have "\<exists>p \<in> set (seg_page_list vm). p \<le> s \<and> s < p + 4096" using s ok by (auto simp: objs_ok_def)
      then obtain p where p: "p \<in> set (seg_page_list vm)" "p \<le> s" "s < p + 4096" by blast
      then have "p \<in> live (pm vm)" using ok by (auto simp: objs_ok_def)
      then have "p mod 4096 = 0" "p \<noteq> page" using live_aligned [OF pi] n by auto
      from other_page_disjoint [OF this(1) al this(2) p(2,3)] show ?thesis using fs(3) [of s] by blast
    qed
    moreover obtain h t where "fs = h # t" using fs(2) by (cases fs) auto
    moreover have "\<forall>s \<in> set fs. \<exists>p \<in> set (seg_page_list vm'). p \<le> s \<and> s < p + 4096"
      using fs(3) by (auto simp: r')
    ultimately show ?thesis using ok n fs(1) Nil
      by (auto simp: objs_ok_def same_struct_def same_range_def r')
  qed
qed

end

section \<open>Splitting a segment\<close>

definition split_seg :: "nat \<Rightarrow> nat \<Rightarrow> usize \<Rightarrow> seg_type \<Rightarrow> 'pm vmem \<Rightarrow> 'pm vmem" where
  "split_seg s a k ty vm = vm\<lparr>seg_list := list_insert_before s a (seg_list vm),
     segs := (segs vm)(a := \<lparr>seg_base = seg_base (segs vm s), seg_size = k, seg_ty = ty\<rparr>,
       s := (segs vm s)\<lparr>seg_base := seg_base (segs vm s) + k, seg_size := seg_size (segs vm s) - k\<rparr>)\<rparr>"

lemma split_seg_tiling:
  assumes t: "tiling_ok {s} vm" and d: "distinct (a # seg_list vm)" and s: "s \<in> set (tl (seg_list vm))"
    and k: "0 < k" "k < seg_size (segs vm s)" and ty: "ty \<noteq> Span"
  shows "tiling_ok {s, a} (split_seg s a k ty vm)"
proof -
  obtain sp as bs where sl: "seg_list vm = sp # as @ s # bs"
    using s by (cases "seg_list vm") (auto simp: in_set_conv_decomp)
  let ?f = "segs vm" and ?vm = "split_seg s a k ty vm"
  have dd: "distinct (a # sp # as @ s # bs)" using d sl by simp
  have sl': "seg_list ?vm = sp # as @ a # s # bs" using dd by (simp add: split_seg_def sl)
  have b: "unat (seg_base (?f s) + k) = unat (seg_base (?f s)) + unat k"
    using tiling_ok_range(3) [OF t s] k by (intro unat_add_small) (simp add: word_less_nat_alt)
  have n: "unat (seg_size (?f s) - k) = unat (seg_size (?f s)) - unat k" "unat k < unat (seg_size (?f s))"
    using k unat_sub_le [of k "seg_size (?f s)"] by (auto simp: word_less_nat_alt word_le_nat_alt)
  have "tiles ?f (unat (vm_base vm)) (as @ s # bs) (unat (vm_base vm) + unat (vm_size vm))"
    using t by (simp add: tiling_ok_def sl)
  then have tl: "tiles (segs ?vm) (unat (vm_base vm)) (as @ a # s # bs) (unat (vm_base vm) + unat (vm_size vm))"
    using dd k b n by (auto simp: split_seg_def word_less_nat_alt)
  have "no_adj (\<lambda>z. z \<noteq> s \<and> is_free vm z) (as @ s # bs)" using t by (simp add: tiling_ok_def sl)
  then have "no_adj (\<lambda>z. z \<noteq> s \<and> is_free vm z) as" "no_adj (\<lambda>z. z \<noteq> s \<and> is_free vm z) bs"
    by (auto simp: no_adj_append no_adj_cons)
  then have "no_adj (\<lambda>z. z \<notin> {s, a} \<and> is_free ?vm z) as" "no_adj (\<lambda>z. z \<notin> {s, a} \<and> is_free ?vm z) bs"
    using dd by (auto elim!: no_adj_mono simp: is_free_def split_seg_def split: if_splits)
  then have na: "no_adj (\<lambda>z. z \<notin> {s, a} \<and> is_free ?vm z) (as @ a # s # bs)"
    by (auto simp: no_adj_append no_adj_cons)
  have "vm_base ?vm = vm_base vm" "vm_size ?vm = vm_size vm" by (simp_all add: split_seg_def)
  moreover have "seg_ty (segs ?vm sp) = Span" "\<forall>z \<in> set (as @ a # s # bs). seg_ty (segs ?vm z) \<noteq> Span"
    using t dd ty by (auto simp: tiling_ok_def sl split_seg_def)
  ultimately show ?thesis using t tl na unfolding tiling_ok_def sl' by (simp add: sl)
qed

lemma split_seg_wf:
  assumes wf: "vm_wf pinv live (a # E) {s} vm" and s: "s \<in> set (tl (seg_list vm))"
    and k: "0 < k" "k < seg_size (segs vm s)" and ty: "ty \<noteq> Span"
  shows "vm_wf pinv live E {s, a} (split_seg s a k ty vm)"
    and "used_in {s, a} (split_seg s a k ty vm) = used_in {s} vm"
proof -
  note d = vm_wf_dest [OF wf]
  obtain sp as bs where sl: "seg_list vm = sp # as @ s # bs"
    using s by (cases "seg_list vm") (auto simp: in_set_conv_decomp)
  let ?vm = "split_seg s a k ty vm"
  have dd: "distinct (a # sp # as @ s # bs)" using d(5) sl by (auto simp: objs_ok_def)
  have sl': "seg_list ?vm = sp # as @ a # s # bs" using dd by (simp add: split_seg_def sl)
  have t: "tiling_ok {s, a} ?vm" using split_seg_tiling [OF d(2) _ s k ty] dd sl by simp
  have fl: "fl_ok {s, a} ?vm"
    using d(3) dd by (auto simp: fl_ok_def sl sl' is_free_def) (auto simp: split_seg_def)
  have ht: "ht_ok {s, a} ?vm"
    using d(4) dd by (auto simp: ht_ok_def sl sl' is_used_def) (auto simp: split_seg_def)
  have ob: "objs_ok pinv live E ?vm"
    using d(5) unfolding objs_ok_def sl' sl by (auto simp: split_seg_def)
  show "vm_wf pinv live E {s, a} ?vm" using t fl ht ob by (simp add: vm_wf_def)
  show "used_in {s, a} ?vm = used_in {s} vm" unfolding used_in_def
    by (rule image_cong) (use dd in \<open>auto simp: sl sl' is_used_def split_seg_def\<close>)
qed

section \<open>Taking a segment off its free list and putting it back\<close>

lemma hashtab_insert_wf:
  assumes wf: "vm_wf pinv live E (insert s X) vm" and sX: "s \<notin> X" and s: "s \<in> set (tl (seg_list vm))"
  shows "vm_wf pinv live E X (hashtab_insert s vm)"
    and "used_in X (hashtab_insert s vm) =
      insert (unat (seg_base (segs vm s)), unat (seg_size (segs vm s))) (used_in (insert s X) vm)"
    and "same_range vm (hashtab_insert s vm)"
    and "seg_base (segs (hashtab_insert s vm) s) = seg_base (segs vm s)"
proof -
  note d = vm_wf_dest [OF wf]
  let ?vm = "hashtab_insert s vm"
  have sg: "segs ?vm = (segs vm)(s := (segs vm s)\<lparr>seg_ty := Used\<rparr>)" and sl: "seg_list ?vm = seg_list vm"
    and b: "vm_base ?vm = vm_base vm" "vm_size ?vm = vm_size vm"
    by (simp_all add: hashtab_insert_def upd_seg_def Let_def)
  have "fl_ok X ?vm"
    using d(3) by (auto simp: fl_ok_def hashtab_insert_def upd_seg_def is_free_def Let_def)
  moreover have "ht_ok X ?vm"
    using d(4) s sX by (auto simp: ht_ok_def hashtab_insert_def upd_seg_def is_used_def Let_def)
  moreover have "objs_ok pinv live E ?vm"
    using d(5) by (simp add: objs_ok_def hashtab_insert_def upd_seg_def Let_def)
  moreover have "tiling_ok X ?vm"
  proof -
    have "no_adj (\<lambda>z. z \<notin> insert s X \<and> is_free vm z) (tl (seg_list vm))" using d(2) by (simp add: tiling_ok_def)
    then have "no_adj (\<lambda>z. z \<notin> X \<and> is_free ?vm z) (tl (seg_list ?vm))"
      unfolding sl by (rule no_adj_mono) (auto simp: is_free_def sg split: if_splits)
    moreover have "tiles (segs ?vm) a xs b = tiles (segs vm) a xs b" for a xs b
      by (rule tiles_cong) (simp add: sg)
    moreover have "s \<noteq> hd (seg_list vm)" using d(1) s by (cases "seg_list vm") auto
    ultimately show ?thesis using d(2) unfolding tiling_ok_def sl b by (auto simp: sg)
  qed
  ultimately show "vm_wf pinv live E X ?vm" by (simp add: vm_wf_def)
  have "{u \<in> set (tl (seg_list ?vm)) - X. is_used ?vm u} =
      insert s {u \<in> set (tl (seg_list vm)) - insert s X. is_used vm u}"
    using s sX by (auto simp: sl sg is_used_def split: if_splits)
  then show "used_in X ?vm = insert (unat (seg_base (segs vm s)), unat (seg_size (segs vm s)))
      (used_in (insert s X) vm)"
    by (simp add: used_in_def sg)
qed (simp_all add: same_range_def hashtab_insert_def upd_seg_def Let_def)

text \<open>A free segment that has been taken off its list: the state in which \<open>seg_fit\<close> works.\<close>

definition taken_wf :: "('pm \<Rightarrow> bool) \<Rightarrow> ('pm \<Rightarrow> nat set) \<Rightarrow> nat list \<Rightarrow> nat \<Rightarrow> 'pm vmem \<Rightarrow> bool" where
  "taken_wf pinv live E s vm \<longleftrightarrow> vm_wf pinv live E {s} vm \<and> neighbours_busy {} s vm \<and> is_free vm s"

lemma neighbours_busyI:
  "seg_list vm = sp # as @ s # bs \<Longrightarrow> as = [] \<or> last as \<in> X \<or> \<not> is_free vm (last as) \<Longrightarrow>
   bs = [] \<or> hd bs \<in> X \<or> \<not> is_free vm (hd bs) \<Longrightarrow> neighbours_busy X s vm"
  by (auto simp: neighbours_busy_def)

lemma taken_mem: "taken_wf pinv live E s vm \<Longrightarrow> s \<in> set (tl (seg_list vm))"
  by (auto simp: taken_wf_def neighbours_busy_def)

lemma no_adj_neighbours:
  "no_adj P (as @ s # bs) \<Longrightarrow> P s \<Longrightarrow> (as = [] \<or> \<not> P (last as)) \<and> (bs = [] \<or> \<not> P (hd bs))"
  by (auto simp: no_adj_append no_adj_cons)

lemma fl_remove_taken:
  assumes wf: "vm_wf pinv live E {} vm" and s: "s \<in> set (freelists vm i)"
  shows "taken_wf pinv live E s (fl_remove i s vm)"
proof -
  note d = vm_wf_dest [OF wf]
  let ?vm = "fl_remove i s vm"
  have m: "s \<in> set (tl (seg_list vm))" "is_free vm s" "size_to_index (seg_size (segs vm s)) = i"
    using s fl_ok_dest [OF d(3)] by auto
  then obtain sp as bs where sl: "seg_list vm = sp # as @ s # bs"
    by (cases "seg_list vm") (auto simp: in_set_conv_decomp)
  have "fl_ok {s} ?vm" using d(3) m by (auto simp: fl_ok_def vm_simps)
  moreover have "ht_ok {s} ?vm" using d(4) m by (auto simp: ht_ok_def vm_simps)
  moreover have "tiling_ok {s} ?vm" using tiling_ok_weaken [OF d(2), of "{s}"] by (simp add: tiling_ok_def vm_simps)
  moreover have "objs_ok pinv live E ?vm" using d(5) by (simp add: objs_ok_def vm_simps)
  moreover have "no_adj (is_free vm) (as @ s # bs)" using d(2) by (simp add: tiling_ok_def sl)
  then have "neighbours_busy {} s ?vm" using no_adj_neighbours [of "is_free vm" as s bs] m(2)
    by (auto simp: neighbours_busy_def sl vm_simps)
  ultimately show ?thesis using m(2) by (simp add: taken_wf_def vm_wf_def vm_simps)
qed

lemma fl_remove_used: "is_free vm s \<Longrightarrow> used_in {s} (fl_remove i s vm) = used_in {} vm"
  unfolding used_in_def by (rule image_cong) (auto simp: vm_simps)

lemma fl_push_front_wf:
  assumes t: "taken_wf pinv live E s vm" and i: "i = size_to_index (seg_size (segs vm s))"
  shows "vm_wf pinv live E {} (fl_push_front i s vm)" and "used_in {} (fl_push_front i s vm) = used_in {s} vm"
proof -
  have "upd_seg s (seg_ty_update (\<lambda>_. Free)) vm = vm"
    using t by (auto simp: taken_wf_def upd_seg_def is_free_def fun_upd_idem_iff intro!: vmem.equality segment.equality)
  moreover have "seg_size (segs vm s) \<noteq> 0"
    using t tiling_ok_range(4) [OF vm_wf_dest(2) taken_mem [OF t]] by (fastforce simp: taken_wf_def)
  ultimately have "freelist_insert_no_merge s vm = Some (fl_push_front i s vm)"
    by (simp add: freelist_insert_no_merge_def i Let_def)
  then show "vm_wf pinv live E {} (fl_push_front i s vm)" and "used_in {} (fl_push_front i s vm) = used_in {s} vm"
    using no_merge_wf [of pinv live E s "{}" vm] t by (auto simp: taken_wf_def)
qed

lemma same_struct_taken:
  "same_struct vm vm' \<Longrightarrow> taken_wf pinv live E s vm \<Longrightarrow> objs_ok pinv live E' vm' \<Longrightarrow> taken_wf pinv live E' s vm'"
  using same_struct_wf [of vm vm' pinv live E "{s}" E']
  by (auto simp: taken_wf_def neighbours_busy_def same_struct_def is_free_def)

lemma taken_not_merged:
  assumes "distinct (seg_list vm)" and "neighbours_busy {} s vm" and "seg_size (segs vm s) \<noteq> 0"
    and "seg_ty (segs vm (hd (seg_list vm))) = Span"
  shows "freelist_insert s vm = freelist_insert_no_merge s vm"
proof -
  obtain sp as bs where sl: "seg_list vm = sp # as @ s # bs"
    and n: "as = [] \<or> \<not> is_free vm (last as)" "bs = [] \<or> \<not> is_free vm (hd bs)"
    using assms(2) by (auto simp: neighbours_busy_def)
  have "merges_prev s vm = None"
    using pred_of_split [of s "sp # as" bs] assms n by (auto simp: merges_prev_def sl is_free_def)
  moreover have "merges_next s vm = None"
    using succ_of_split [of s "sp # as" bs] assms n
    by (auto simp: merges_next_def sl is_free_def split: list.splits)
  ultimately show ?thesis using assms(3) by (simp add: freelist_insert_def freelist_insert_loop.simps)
qed

section \<open>Cutting a region out of a free segment\<close>

lemma take_seg_same [simp]:
  "seg_list (take_seg p i s vm) = seg_list vm" "segs (take_seg p i s vm) = segs vm"
  "hash_tab (take_seg p i s vm) = hash_tab vm" "free_segs (take_seg p i s vm) = free_segs vm"
  "seg_page_list (take_seg p i s vm) = seg_page_list vm" "pm (take_seg p i s vm) = pm vm"
  "vm_base (take_seg p i s vm) = vm_base vm" "vm_size (take_seg p i s vm) = vm_size vm"
  "vm_quantum (take_seg p i s vm) = vm_quantum vm"
  by (simp_all add: take_seg_def vm_simps)

lemma take_seg_objs [simp]: "objs_ok pinv live E (take_seg p i s vm) = objs_ok pinv live E vm"
  by (simp add: objs_ok_def)

lemma take_seg_struct: "same_struct vm vm' \<Longrightarrow> same_struct (take_seg p i s vm) (take_seg p i s vm')"
  by (auto simp: same_struct_def same_range_def take_seg_def vm_simps)

lemma take_seg_split: "take_seg p i s (split_seg u a k ty vm) = split_seg u a k ty (take_seg p i s vm)"
  by (simp add: take_seg_def split_seg_def vm_simps)

lemma take_seg_no_merge:
  "u \<noteq> s \<Longrightarrow> freelist_insert_no_merge u (take_seg p i s vm) =
     map_option (take_seg p i s) (freelist_insert_no_merge u vm)"
  by (cases "i = size_to_index (seg_size (segs vm u))")
    (auto simp: freelist_insert_no_merge_def take_seg_def vm_simps Let_def fun_upd_twist [of i])

lemma cut_front_new:
  "start \<noteq> seg_base (segs vm s) \<Longrightarrow> seg_alloc ap vm = (Some u, vm1) \<Longrightarrow> u \<noteq> s \<Longrightarrow>
   cut_front ap start s vm = map_option (Pair True)
     (freelist_insert_no_merge u (split_seg s u (start - seg_base (segs vm1 s)) Free vm1))"
  by (cases "freelist_insert_no_merge u (split_seg s u (start - seg_base (segs vm1 s)) Free vm1)")
    (auto simp: cut_front_def split_seg_def upd_seg_def Let_def fun_upd_twist)

definition next_busy :: "nat \<Rightarrow> 'pm vmem \<Rightarrow> bool" where
  "next_busy s vm \<longleftrightarrow> (\<exists>sp as bs. seg_list vm = sp # as @ s # bs \<and> (bs = [] \<or> \<not> is_free vm (hd bs)))"

lemma seg_alloc_nonempty: "seg_alloc ap vm = (None, vm') \<Longrightarrow> free_segs vm = []"
  by (auto simp: seg_alloc_def Let_def split: list.splits prod.splits option.splits)

text \<open>The part in front of the region becomes a free segment of its own.\<close>

lemma cut_off_wf:
  assumes t: "taken_wf pinv live (u # E) s vm" and k: "0 < k" "k < seg_size (segs vm s)"
  shows "\<exists>vm'. freelist_insert_no_merge u (split_seg s u k Free vm) = Some vm' \<and> vm_wf pinv live E {s} vm' \<and>
     next_busy s vm' \<and> used_in {s} vm' = used_in {s} vm \<and> same_range vm vm' \<and>
     segs vm' s = (segs vm s)\<lparr>seg_base := seg_base (segs vm s) + k, seg_size := seg_size (segs vm s) - k\<rparr>"
proof -
  have wf: "vm_wf pinv live (u # E) {s} vm" using t by (simp add: taken_wf_def)
  obtain sp as bs where sl: "seg_list vm = sp # as @ s # bs"
    and n: "as = [] \<or> \<not> is_free vm (last as)" "bs = [] \<or> \<not> is_free vm (hd bs)"
    using t by (auto simp: taken_wf_def neighbours_busy_def)
  have dd: "distinct (u # sp # as @ s # bs)" using vm_wf_dest(5) [OF wf] sl by (auto simp: objs_ok_def)
  let ?v = "split_seg s u k Free vm"
  have sl': "seg_list ?v = sp # as @ u # s # bs" using dd by (simp add: split_seg_def sl)
  note w = split_seg_wf [OF wf taken_mem [OF t] k, of Free, simplified]
  have fr: "is_free ?v z \<longleftrightarrow> is_free vm z" if "z \<noteq> u" for z using that by (simp add: is_free_def split_seg_def)
  have "as = [] \<or> last as \<noteq> u" "bs = [] \<or> hd bs \<noteq> u" using dd by auto
  then have nb: "as = [] \<or> \<not> is_free ?v (last as)" "bs = [] \<or> \<not> is_free ?v (hd bs)" using n fr by auto
  then have "neighbours_busy {s} u ?v" using neighbours_busyI [of ?v sp as u "s # bs" "{s}"] sl' by auto
  moreover have "insert u {s} = {s, u}" by auto
  ultimately obtain vm' where v: "freelist_insert_no_merge u ?v = Some vm'" "vm_wf pinv live E {s} vm'"
    "used_in {s} vm' = used_in {s, u} ?v" "same_range ?v vm'" "seg_list vm' = seg_list ?v"
    "segs vm' = (segs ?v)(u := (segs ?v u)\<lparr>seg_ty := Free\<rparr>)"
    using no_merge_wf [of pinv live E u "{s}" ?v] w dd by auto
  have "next_busy s vm'" unfolding next_busy_def v(5) sl'
    using nb dd by (intro exI [of _ sp] exI [of _ "as @ [u]"] exI [of _ bs]) (auto simp: is_free_def v(6))
  moreover have "same_range vm vm'" using v(4) by (simp add: same_range_def split_seg_def)
  moreover have "segs vm' s = (segs vm s)\<lparr>seg_base := seg_base (segs vm s) + k, seg_size := seg_size (segs vm s) - k\<rparr>"
    using dd by (auto simp: v(6) split_seg_def)
  ultimately show ?thesis using v w by simp
qed

context page_source
begin

lemma cut_front_wf:
  assumes t: "taken_wf pinv live E s (take_seg p i s vm)"
    and st: "seg_base (segs vm s) \<le> start" "start - seg_base (segs vm s) < seg_size (segs vm s)"
  obtains (fail) vm' where "cut_front alloc_page start s vm = Some (False, vm')"
      "same_struct vm vm'" "objs_ok pinv live E vm'" "free_segs vm = []"
  | (ok) vm' where "cut_front alloc_page start s vm = Some (True, vm')"
      "vm_wf pinv live E {s} (take_seg p i s vm')" "next_busy s (take_seg p i s vm')"
      "used_in {s} (take_seg p i s vm') = used_in {s} (take_seg p i s vm)" "same_range vm vm'"
      "seg_base (segs vm' s) = start"
      "seg_size (segs vm' s) = seg_size (segs vm s) - (start - seg_base (segs vm s))"
proof -
  let ?T = "take_seg p i s"
  have wf: "vm_wf pinv live E {s} (?T vm)" using t by (simp add: taken_wf_def)
  show thesis
  proof (cases "start = seg_base (segs vm s)")
    case True
    have "next_busy s (?T vm)" using t by (auto simp: taken_wf_def next_busy_def neighbours_busy_def)
    then show thesis using True wf by (intro ok [of vm]) (auto simp: cut_front_def same_range_def)
  next
    case False
    obtain r vm1 where r: "seg_alloc alloc_page vm = (r, vm1)" by fastforce
    have "objs_ok pinv live E vm" using vm_wf_dest(5) [OF wf] by simp
    note sa = seg_alloc_cases [OF this r]
    show thesis
    proof (cases r)
      case None
      then show thesis using False r sa seg_alloc_nonempty [of alloc_page vm vm1]
        by (intro fail [of vm1]) (auto simp: cut_front_def)
    next
      case (Some u)
      have t1: "taken_wf pinv live (u # E) s (?T vm1)"
        using sa Some same_struct_taken [OF take_seg_struct t, of vm1 "u # E"] by simp
      have us: "u \<noteq> s" using taken_mem [OF t1] sa Some by (cases "seg_list vm1") (auto simp: objs_ok_def)
      have sg: "segs vm1 = segs vm" using sa by (simp add: same_struct_def)
      let ?k = "start - seg_base (segs vm1 s)"
      have "0 < ?k" using False sg by (simp add: word_neq_0_conv [symmetric])
      from cut_off_wf [OF t1 this] obtain v where v: "freelist_insert_no_merge u (split_seg s u ?k Free (?T vm1)) = Some v"
        "vm_wf pinv live E {s} v" "next_busy s v" "used_in {s} v = used_in {s} (?T vm1)" "same_range (?T vm1) v"
        "segs v s = (segs vm s)\<lparr>seg_base := seg_base (segs vm s) + ?k, seg_size := seg_size (segs vm s) - ?k\<rparr>"
        using st by (auto simp: sg)
      from v(1) have "map_option ?T (freelist_insert_no_merge u (split_seg s u ?k Free vm1)) = Some v"
        using take_seg_no_merge [OF us, of p i "split_seg s u ?k Free vm1"] by (simp add: take_seg_split)
      then obtain vm' where vm': "freelist_insert_no_merge u (split_seg s u ?k Free vm1) = Some vm'" "v = ?T vm'"
        by (auto simp: map_option_eq_Some)
      have "used_in {s} (?T vm1) = used_in {s} (?T vm)"
        using same_struct_used [OF take_seg_struct] sa by blast
      then show thesis using v cut_front_new [OF False r [unfolded Some] us] vm' sa
        by (intro ok [of vm']) (auto simp: same_range_def same_struct_def sg)
    qed
  qed
qed

end

lemma seg_free_wf:
  assumes "vm_wf pinv live (a # E) X vm"
  shows "vm_wf pinv live E X (seg_free a vm)" and "used_in X (seg_free a vm) = used_in X vm"
proof -
  have "same_struct vm (seg_free a vm)" by (simp add: same_struct_def same_range_def seg_free_def)
  moreover have "objs_ok pinv live E (seg_free a vm)"
    using vm_wf_dest(5) [OF assms] by (auto simp: objs_ok_def seg_free_def)
  ultimately show "vm_wf pinv live E X (seg_free a vm)" and "used_in X (seg_free a vm) = used_in X vm"
    using same_struct_wf [OF _ assms] same_struct_used by blast+
qed

text \<open>The front of the segment becomes the allocated region, the rest goes back on a free list.\<close>

lemma alloc_front_wf:
  assumes wf: "vm_wf pinv live (a # E) {s} vm" and nx: "next_busy s vm"
    and k: "0 < k" "k < seg_size (segs vm s)"
  shows "\<exists>v. freelist_insert s (split_seg s a k Used vm) = Some v \<and>
     vm_wf pinv live E {} (hashtab_insert a v) \<and>
     used_in {} (hashtab_insert a v) = insert (unat (seg_base (segs vm s)), unat k) (used_in {s} vm) \<and>
     same_range vm (hashtab_insert a v) \<and> seg_base (segs (hashtab_insert a v) a) = seg_base (segs vm s)"
proof -
  obtain sp as bs where sl: "seg_list vm = sp # as @ s # bs" and n: "bs = [] \<or> \<not> is_free vm (hd bs)"
    using nx by (auto simp: next_busy_def)
  have s: "s \<in> set (tl (seg_list vm))" by (simp add: sl)
  have dd: "distinct (a # sp # as @ s # bs)" using vm_wf_dest(5) [OF wf] sl by (auto simp: objs_ok_def)
  let ?v = "split_seg s a k Used vm"
  have sl': "seg_list ?v = sp # as @ a # s # bs" using dd by (simp add: split_seg_def sl)
  have sg: "segs ?v a = \<lparr>seg_base = seg_base (segs vm s), seg_size = k, seg_ty = Used\<rparr>"
    using dd by (simp add: split_seg_def)
  note w = split_seg_wf [OF wf s k, of Used, simplified]
  have "bs = [] \<or> \<not> is_free ?v (hd bs)" using n dd by (auto simp: is_free_def split_seg_def)
  then have nb: "neighbours_busy {} s ?v" "neighbours_busy {a} s ?v"
    using neighbours_busyI [of ?v sp "as @ [a]" s bs] sl' by (auto simp: is_free_def sg)
  have "s \<in> set (tl (seg_list ?v))" by (simp add: sl')
  then have "seg_size (segs ?v s) \<noteq> 0"
    using tiling_ok_range(4) [OF vm_wf_dest(2) [OF w(1)]] by fastforce
  then have fi: "freelist_insert s ?v = freelist_insert_no_merge s ?v"
    using vm_wf_dest(1,2) [OF w(1)] nb(1) by (intro taken_not_merged) (auto simp: tiling_ok_def)
  obtain v where v: "freelist_insert_no_merge s ?v = Some v" "vm_wf pinv live E {a} v"
    "used_in {a} v = used_in {s, a} ?v" "same_range ?v v" "seg_list v = seg_list ?v"
    "segs v = (segs ?v)(s := (segs ?v s)\<lparr>seg_ty := Free\<rparr>)"
    using no_merge_wf [of pinv live E s "{a}" ?v] w nb dd by auto
  have "a \<in> set (tl (seg_list v))" by (simp add: v(5) sl')
  from hashtab_insert_wf [OF v(2) _ this] show ?thesis
    using v(1,3,4,6) fi w(2) dd by (auto simp: sg same_range_def split_seg_def)
qed

section \<open>Fitting a request into a segment\<close>

definition fits :: "usize \<Rightarrow> usize \<Rightarrow> usize \<Rightarrow> segment \<Rightarrow> bool" where
  "fits sz mn mx g \<longleftrightarrow> (let start = max (seg_base g) mn; en = min (seg_base g + seg_size g) mx
     in start \<le> en \<and> sz \<le> en - start)"

lemma put_back_struct: "same_struct vm vm' \<Longrightarrow> same_struct (put_back p i s vm) (put_back p i s vm')"
  by (auto simp: same_struct_def same_range_def put_back_def vm_simps)

lemma put_back_objs [simp]: "objs_ok pinv live E (put_back p i s vm) = objs_ok pinv live E vm"
  by (simp add: objs_ok_def put_back_def vm_simps)

lemma alloc_region_split:
  "a \<noteq> s \<Longrightarrow> seg_size (segs vm s) \<noteq> sz \<Longrightarrow> freelist_insert s (split_seg s a sz Used vm) = Some v \<Longrightarrow>
   alloc_region sz s a vm = Some (seg_base (segs (hashtab_insert a v) a), hashtab_insert a v)"
  by (simp add: alloc_region_def split_seg_def upd_seg_def Let_def fun_upd_twist)

lemma seg_fit_alt:
  "seg_fit ap sz mn mx i s p vm =
     (if \<not> fits sz mn mx (segs vm s) then Some (0, put_back p i s vm)
      else if seg_size (segs vm s) = sz
      then (let vm = hashtab_insert s (take_seg p i s vm) in Some (seg_base (segs vm s), vm))
      else case seg_alloc ap vm of
        (None, vm) \<Rightarrow> Some (0, put_back p i s vm)
      | (Some a, vm1) \<Rightarrow>
          do { (ok, vm) \<leftarrow> cut_front ap (max (seg_base (segs vm s)) mn) s vm1;
               if ok then alloc_region sz s a (take_seg p i s vm)
               else Some (0, seg_free a (put_back p i s vm)) })"
  by (simp only: seg_fit_def fits_def Let_def de_Morgan_conj not_le)

lemma fits_unat:
  assumes f: "fits sz mn mx g" and e: "unat (seg_base g + seg_size g) = unat (seg_base g) + unat (seg_size g)"
  defines "st \<equiv> max (seg_base g) mn"
  shows "seg_base g \<le> st" "mn \<le> st" "unat st + unat sz \<le> unat (seg_base g) + unat (seg_size g)"
    "unat st + unat sz \<le> unat mx" "seg_size g = sz \<Longrightarrow> st = seg_base g"
proof -
  let ?en = "min (seg_base g + seg_size g) mx"
  have le: "st \<le> ?en" "sz \<le> ?en - st" using f by (auto simp: fits_def st_def Let_def)
  then have "unat st + unat sz \<le> unat ?en" using unat_sub_le [of st ?en] by (simp add: word_le_nat_alt)
  moreover have "unat ?en \<le> unat (seg_base g) + unat (seg_size g)" "unat ?en \<le> unat mx"
    using e by (auto simp: min_def word_le_nat_alt)
  ultimately show 1: "unat st + unat sz \<le> unat (seg_base g) + unat (seg_size g)"
    "unat st + unat sz \<le> unat mx" by linarith+
  show 2: "seg_base g \<le> st" "mn \<le> st" by (simp_all add: st_def)
  show "st = seg_base g" if "seg_size g = sz"
    using 1(1) 2(1) that by (simp add: word_eq_unat word_le_nat_alt)
qed

lemma alloc_region_wf:
  assumes wf: "vm_wf pinv live (a # E) {s} vm" and nx: "next_busy s vm"
    and k: "0 < sz" "sz \<le> seg_size (segs vm s)"
  shows "\<exists>vm'. alloc_region sz s a vm = Some (seg_base (segs vm s), vm') \<and> vm_wf pinv live E {} vm' \<and>
     used_in {} vm' = insert (unat (seg_base (segs vm s)), unat sz) (used_in {s} vm) \<and> same_range vm vm'"
proof (cases "seg_size (segs vm s) = sz")
  case True
  have "s \<in> set (tl (seg_list (seg_free a vm)))" using nx by (auto simp: next_busy_def seg_free_def)
  from hashtab_insert_wf [OF seg_free_wf(1) [OF wf] _ this] show ?thesis
    using True seg_free_wf(2) [OF wf] by (auto simp: alloc_region_def Let_def seg_free_def same_range_def)
next
  case False
  then have "sz < seg_size (segs vm s)" using k by simp
  from alloc_front_wf [OF wf nx k(1) this] obtain v where v: "freelist_insert s (split_seg s a sz Used vm) = Some v"
    "vm_wf pinv live E {} (hashtab_insert a v)"
    "used_in {} (hashtab_insert a v) = insert (unat (seg_base (segs vm s)), unat sz) (used_in {s} vm)"
    "same_range vm (hashtab_insert a v)" "seg_base (segs (hashtab_insert a v) a) = seg_base (segs vm s)" by blast
  have "a \<noteq> s" using nx vm_wf_dest(5) [OF wf] by (auto simp: next_busy_def objs_ok_def)
  then show ?thesis using alloc_region_split [OF _ False v(1)] v by auto
qed

definition found :: "('pm \<Rightarrow> bool) \<Rightarrow> ('pm \<Rightarrow> nat set) \<Rightarrow> usize \<Rightarrow> usize \<Rightarrow> usize \<Rightarrow> usize \<Rightarrow> (nat \<times> nat) set \<Rightarrow>
    'pm vmem \<Rightarrow> bool" where
  "found pinv live sz mn mx addr U vm' \<longleftrightarrow> addr \<noteq> 0 \<and> vm_wf pinv live [] {} vm' \<and>
     used_in {} vm' = insert (unat addr, unat sz) U \<and> mn \<le> addr \<and> unat addr + unat sz \<le> unat mx \<and>
     (\<forall>(b, n) \<in> U. b + n \<le> unat addr \<or> unat addr + unat sz \<le> b)"

lemma taken_disjoint:
  assumes t: "taken_wf pinv live E s vm" and u: "(b, n) \<in> used_in {s} vm"
  shows "b + n \<le> unat (seg_base (segs vm s)) \<or> unat (seg_base (segs vm s)) + unat (seg_size (segs vm s)) \<le> b"
proof -
  obtain z where "z \<in> set (tl (seg_list vm))" "z \<noteq> s" "b = unat (seg_base (segs vm z))" "n = unat (seg_size (segs vm z))"
    using u by (auto simp: used_in_def)
  then show ?thesis using t taken_mem [OF t] tiles_disjoint [of "segs vm" _ "tl (seg_list vm)" _ z s]
    by (auto simp: taken_wf_def vm_wf_def tiling_ok_def)
qed

context page_source
begin

lemma seg_fit_split_wf:
  assumes t: "taken_wf pinv live [] s (take_seg p i s vm)" and sz: "0 < unat sz"
    and f: "fits sz mn mx (segs vm s)" and ne: "seg_size (segs vm s) \<noteq> sz"
    and st: "st = max (seg_base (segs vm s)) mn" "unat (seg_base (segs vm s)) \<le> unat st"
      "unat st + unat sz \<le> unat (seg_base (segs vm s)) + unat (seg_size (segs vm s))"
  obtains (fail) vm' where "seg_fit alloc_page sz mn mx i s p vm = Some (0, vm')"
      "same_struct (put_back p i s vm) vm'" "objs_ok pinv live [] vm'" "length (free_segs vm) < 2"
  | (ok) vm' where "seg_fit alloc_page sz mn mx i s p vm = Some (st, vm')" "vm_wf pinv live [] {} vm'"
      "used_in {} vm' = insert (unat st, unat sz) (used_in {s} (take_seg p i s vm))" "same_range vm vm'"
proof -
  let ?T = "take_seg p i s" and ?g = "segs vm s"
  obtain r vm1 where r: "seg_alloc alloc_page vm = (r, vm1)" by fastforce
  have "objs_ok pinv live [] vm" using t vm_wf_dest(5) [of pinv live "[]" "{s}" "?T vm"] by (simp add: taken_wf_def)
  note sa = seg_alloc_cases [OF this r]
  have k: "unat (st - seg_base ?g) = unat st - unat (seg_base ?g)"
    using st(2) by (intro unat_sub_le) (simp add: word_le_nat_alt)
  have lt: "st - seg_base ?g < seg_size ?g" unfolding word_less_nat_alt k using st sz by linarith
  show thesis
  proof (cases r)
    case None
    then show thesis using r sa f ne seg_alloc_nonempty [of alloc_page vm vm1] put_back_struct [of vm vm1 p i s]
      by (intro fail [of "put_back p i s vm1"]) (auto simp: seg_fit_alt)
  next
    case (Some a)
    have t1: "taken_wf pinv live [a] s (?T vm1)"
      using sa Some same_struct_taken [OF take_seg_struct t, of vm1 "[a]"] by simp
    have sg: "segs vm1 = segs vm" using sa by (simp add: same_struct_def)
    have st1: "seg_base (segs vm1 s) \<le> st" "st - seg_base (segs vm1 s) < seg_size (segs vm1 s)"
      using st(2) lt by (simp_all add: sg word_le_nat_alt)
    show thesis
    proof (rule cut_front_wf [OF t1 st1], goal_cases)
      case cut: (1 vm2)
      let ?v = "seg_free a (put_back p i s vm2)"
      have "same_struct vm vm2" using sa cut(2) same_struct_trans by blast
      then have "same_struct (put_back p i s vm) ?v"
        using put_back_struct [of vm vm2 p i s] by (simp add: same_struct_def same_range_def seg_free_def)
      moreover have "objs_ok pinv live [] ?v" using cut(3) put_back_objs [of pinv live "[a]" p i s vm2]
        by (auto simp: objs_ok_def seg_free_def)
      moreover have "length (free_segs vm) < 2"
        using cut(4) r Some by (cases "free_segs vm") (auto simp: seg_alloc_def)
      ultimately show thesis using cut(1) f ne r Some st(1) by (intro fail [of ?v]) (auto simp: seg_fit_alt)
    next
      case cut: (2 vm2)
      have "sz \<le> seg_size (segs vm2 s)"
        unfolding cut(7) sg word_le_nat_alt unat_sub_le [OF less_imp_le [OF lt]] k using st by linarith
      then have "\<exists>vm'. alloc_region sz s a (?T vm2) = Some (st, vm') \<and> vm_wf pinv live [] {} vm' \<and>
         used_in {} vm' = insert (unat st, unat sz) (used_in {s} (?T vm2)) \<and> same_range (?T vm2) vm'"
        using alloc_region_wf [OF cut(2,3), of sz] sz cut(6) by (simp add: word_less_nat_alt)
      moreover have "used_in {s} (?T vm2) = used_in {s} (?T vm)"
        using cut(4) same_struct_used [OF take_seg_struct, of vm vm1] sa by simp
      ultimately show thesis using cut(1,5) f ne r Some sa st(1)
        by (auto simp: seg_fit_alt same_range_def same_struct_def intro: ok)
    qed
  qed
qed

lemma seg_fit_wf:
  assumes t: "taken_wf pinv live [] s (take_seg p i s vm)"
    and pb: "vm_wf pinv live [] {} (put_back p i s vm)" and sz: "0 < sz" and b0: "vm_base vm \<noteq> 0"
  obtains (fail) vm' where "seg_fit alloc_page sz mn mx i s p vm = Some (0, vm')"
      "vm_wf pinv live [] {} vm'" "same_struct (put_back p i s vm) vm'"
      "\<not> fits sz mn mx (segs vm s) \<and> vm' = put_back p i s vm \<or> length (free_segs vm) < 2"
  | (ok) addr vm' where "seg_fit alloc_page sz mn mx i s p vm = Some (addr, vm')"
      "found pinv live sz mn mx addr (used_in {s} (take_seg p i s vm)) vm'" "same_range vm vm'"
proof -
  let ?T = "take_seg p i s" and ?g = "segs vm s"
  let ?st = "max (seg_base ?g) mn"
  have wf: "vm_wf pinv live [] {s} (?T vm)" using t by (simp add: taken_wf_def)
  have s: "s \<in> set (tl (seg_list (?T vm)))" by (rule taken_mem [OF t])
  show thesis
  proof (cases "fits sz mn mx ?g")
    case False
    then show thesis using pb by (intro fail [of "put_back p i s vm"])
        (auto simp: seg_fit_alt same_struct_def same_range_def)
  next
    case f: True
    have "unat (seg_base ?g + seg_size ?g) = unat (seg_base ?g) + unat (seg_size ?g)"
      using unat_seg_end [OF vm_wf_dest(2) [OF wf] s] by simp
    note fu = fits_unat [OF f this]
    have le: "unat (seg_base ?g) \<le> unat ?st" using fu(1) unfolding word_le_nat_alt .
    have "unat (vm_base vm) \<le> unat (seg_base ?g)" using tiling_ok_range(1) [OF vm_wf_dest(2) [OF wf] s] by simp
    then have st0: "?st \<noteq> 0" using b0 le word_eq_unat [of "vm_base vm" 0] by auto
    have dj: "\<forall>(b, n) \<in> used_in {s} (?T vm). b + n \<le> unat ?st \<or> unat ?st + unat sz \<le> b"
      using taken_disjoint [OF t] le fu(3) by fastforce
    show thesis
    proof (cases "seg_size ?g = sz")
      case True
      have "seg_base ?g = ?st" using fu(5) [OF True] by simp
      then show thesis using hashtab_insert_wf [OF wf _ s] fu True st0 f dj
        by (intro ok [of ?st "hashtab_insert s (?T vm)"]) (auto simp: seg_fit_alt Let_def found_def same_range_def)
    next
      case ne: False
      have sz': "0 < unat sz" using sz by (simp add: word_less_nat_alt)
      show thesis
      proof (rule seg_fit_split_wf [OF t sz' f ne refl le fu(3)], goal_cases)
        case (1 vm') then show thesis using same_struct_wf [OF _ pb] by (intro fail [of vm']) auto
      next
        case (2 vm') then show thesis using fu st0 dj by (intro ok [of ?st vm']) (auto simp: found_def)
      qed
    qed
  qed
qed

end

section \<open>The search\<close>

lemma fl_push_remove: "freelists vm i = s # rest \<Longrightarrow> fl_push_front i s (fl_remove i s vm) = vm"
  by (simp add: vm_simps fun_upd_idem_iff)

lemma fl_remove_segs: "segs (fl_remove i s vm) = segs vm"
  by (simp add: vm_simps)

lemma fl_remove_hd: "freelists vm i = s # rest \<Longrightarrow> vm\<lparr>freelists := (freelists vm)(i := rest)\<rparr> = fl_remove i s vm"
  by (simp add: vm_simps)

lemma same_struct_refl [simp]: "same_struct vm vm"
  by (simp add: same_struct_def same_range_def)

lemma same_struct_range: "same_struct vm vm' \<Longrightarrow> same_range vm vm'"
  by (simp add: same_struct_def)

lemma wf_free_mem:
  "vm_wf pinv live E {} vm \<Longrightarrow> s \<in> set (freelists vm i) \<Longrightarrow> is_free vm s"
  using fl_ok_dest [OF vm_wf_dest(3)] by blast

text \<open>What an unsuccessful search has looked at: of a list whose first segment is large enough
  only that segment, of any other list every segment that is large enough.\<close>

definition searched :: "usize \<Rightarrow> usize \<Rightarrow> usize \<Rightarrow> nat \<Rightarrow> 'pm vmem \<Rightarrow> bool" where
  "searched sz mn mx j vm \<longleftrightarrow> (case freelists vm j of [] \<Rightarrow> True
     | s # rest \<Rightarrow> if sz \<le> seg_size (segs vm s) then \<not> fits sz mn mx (segs vm s)
         else \<forall>t \<in> set rest. sz \<le> seg_size (segs vm t) \<longrightarrow> \<not> fits sz mn mx (segs vm t))"

definition searched_from :: "usize \<Rightarrow> usize \<Rightarrow> usize \<Rightarrow> nat \<Rightarrow> 'pm vmem \<Rightarrow> bool" where
  "searched_from sz mn mx i vm \<longleftrightarrow> (\<forall>j. i \<le> j \<and> j < FREELIST_COUNT \<longrightarrow> searched sz mn mx j vm)"

lemma searched_from_Suc:
  "searched sz mn mx i vm \<Longrightarrow> searched_from sz mn mx (Suc i) vm \<Longrightarrow> searched_from sz mn mx i vm"
  unfolding searched_from_def by (metis Suc_leI le_neq_implies_less)

context page_source
begin

lemma seg_fit_any_wf:
  assumes "vm_wf pinv live [] {} vm" and "set ss \<subseteq> set (freelists vm i)" and "0 < sz" and "vm_base vm \<noteq> 0"
  obtains (fail) vm' where "seg_fit_any alloc_page sz mn mx i ss vm = Some (0, vm')"
      "vm_wf pinv live [] {} vm'" "same_struct vm vm'"
      "vm' = vm \<and> (\<forall>t \<in> set ss. sz \<le> seg_size (segs vm t) \<longrightarrow> \<not> fits sz mn mx (segs vm t)) \<or>
       length (free_segs vm) < 2"
  | (ok) addr vm' where "seg_fit_any alloc_page sz mn mx i ss vm = Some (addr, vm')"
      "found pinv live sz mn mx addr (used_in {} vm) vm'" "same_range vm vm'"
  using assms
proof (induction ss arbitrary: vm thesis)
  case Nil
  then show ?case by (intro Nil(1) [of vm]) auto
next
  case (Cons s ss)
  show ?case
  proof (cases "sz \<le> seg_size (segs vm s)")
    case False
    show ?thesis
      by (rule Cons.IH [of vm], goal_cases) (use Cons.prems False in auto)
  next
    case big: True
    have fr: "taken_wf pinv live [] s (take_seg False i s vm)" "is_free vm s"
      using Cons.prems(3,4) fl_remove_taken wf_free_mem by (auto simp: take_seg_def)
    have pb: "vm_wf pinv live [] {} (put_back False i s vm)" using Cons.prems by (simp add: put_back_def)
    show ?thesis
    proof (rule seg_fit_wf [where mn = mn and mx = mx, OF fr(1) pb Cons.prems(5,6)], goal_cases)
      case step: (1 vm1)
      have s1: "same_struct vm vm1" using step(3) by (simp add: put_back_def)
      then have sub: "set ss \<subseteq> set (freelists vm1 i)" "vm_base vm1 \<noteq> 0"
        using Cons.prems by (auto simp: same_struct_def same_range_def)
      show ?thesis
      proof (rule Cons.IH [OF _ _ step(2) sub(1) Cons.prems(5) sub(2)], goal_cases)
        case (1 vm')
        then show ?case using step s1 big
          by (intro Cons.prems(1) [of vm']) (auto simp: put_back_def intro: same_struct_trans)
      next
        case (2 addr vm')
        then show ?case using step(1) big same_struct_used [OF s1] s1
          by (intro Cons.prems(2) [of addr vm']) (auto simp: same_struct_def same_range_def)
      qed
    next
      case (2 addr vm')
      then show ?case using big fl_remove_used [OF fr(2)]
        by (intro Cons.prems(2) [of addr vm']) (auto simp: found_def take_seg_def)
    qed
  qed
qed

lemma list_turn_wf:
  assumes wf: "vm_wf pinv live [] {} vm" and l: "freelists vm i = s # rest" and sz: "0 < sz"
    and b0: "vm_base vm \<noteq> 0"
  obtains (fail) vm' where
      "(if sz \<le> seg_size (segs vm s) then seg_fit alloc_page sz mn mx i s True (fl_remove i s vm)
        else seg_fit_any alloc_page sz mn mx i (s # rest) vm) = Some (0, vm')"
      "vm_wf pinv live [] {} vm'" "same_struct vm vm'"
      "vm' = vm \<and> searched sz mn mx i vm \<or> length (free_segs vm) < 2"
  | (ok) addr vm' where
      "(if sz \<le> seg_size (segs vm s) then seg_fit alloc_page sz mn mx i s True (fl_remove i s vm)
        else seg_fit_any alloc_page sz mn mx i (s # rest) vm) = Some (addr, vm')"
      "found pinv live sz mn mx addr (used_in {} vm) vm'" "same_range vm vm'"
proof (cases "sz \<le> seg_size (segs vm s)")
  case big: True
  have m: "s \<in> set (freelists vm i)" by (simp add: l)
  let ?v = "fl_remove i s vm"
  have tk: "taken_wf pinv live [] s (take_seg True i s ?v)" using fl_remove_taken [OF wf m] by (simp add: take_seg_def)
  have eq: "put_back True i s ?v = vm" using fl_push_remove [OF l] by (simp add: put_back_def)
  then have pb: "vm_wf pinv live [] {} (put_back True i s ?v)" using wf by simp
  have b: "vm_base ?v \<noteq> 0" using b0 by (simp add: vm_simps)
  show ?thesis
  proof (rule seg_fit_wf [where mn = mn and mx = mx, OF tk pb sz b], goal_cases)
    case (1 vm')
    then show ?case using big eq by (intro fail [of vm']) (auto simp: searched_def l vm_simps)
  next
    case (2 addr vm')
    then show ?case using big fl_remove_used [OF wf_free_mem [OF wf m], of i]
      by (intro ok [of addr vm']) (auto simp: found_def take_seg_def same_range_def vm_simps)
  qed
next
  case small: False
  show ?thesis
  proof (rule seg_fit_any_wf [where mn = mn and mx = mx, OF wf, of "s # rest" i sz], goal_cases)
    case (4 vm')
    then show ?case using small by (intro fail [of vm']) (auto simp: searched_def l)
  next
    case (5 addr vm')
    then show ?case using small by (intro ok [of addr vm']) auto
  qed (use l sz b0 in auto)
qed

lemma xalloc_loop_wf:
  assumes "vm_wf pinv live [] {} vm" and "0 < sz" and "vm_base vm \<noteq> 0"
  obtains (fail) vm' where "xalloc_loop alloc_page sz mn mx True i vm = Some (0, vm')"
      "vm_wf pinv live [] {} vm'" "same_struct vm vm'"
      "searched_from sz mn mx i vm \<or> length (free_segs vm) < 2"
  | (ok) addr vm' where "xalloc_loop alloc_page sz mn mx True i vm = Some (addr, vm')"
      "found pinv live sz mn mx addr (used_in {} vm) vm'" "same_range vm vm'"
  using assms
proof (induction "FREELIST_COUNT - i" arbitrary: i vm thesis)
  case 0
  then show ?case by (intro 0(2) [of vm]) (auto simp: xalloc_loop.simps searched_from_def)
next
  case (Suc d)
  have i: "i < FREELIST_COUNT" "d = FREELIST_COUNT - Suc i" using Suc.hyps(2) by auto
  show ?case
  proof (cases "freelists vm i")
    case Nil
    have sr: "searched sz mn mx i vm" by (simp add: searched_def Nil)
    have "xalloc_loop alloc_page sz mn mx True i vm = xalloc_loop alloc_page sz mn mx True (Suc i) vm"
      using i(1) Nil by (subst xalloc_loop.simps) simp
    then show ?thesis using Suc.hyps(1) [OF i(2) _ _ Suc.prems(3-5)] Suc.prems(1,2) searched_from_Suc [OF sr]
      by metis
  next
    case (Cons s rest)
    have lp: "xalloc_loop alloc_page sz mn mx True i vm =
      do { (addr, vm) \<leftarrow> (if sz \<le> seg_size (segs vm s) then seg_fit alloc_page sz mn mx i s True (fl_remove i s vm)
             else seg_fit_any alloc_page sz mn mx i (s # rest) vm);
           if addr \<noteq> 0 then Some (addr, vm) else xalloc_loop alloc_page sz mn mx True (Suc i) vm }"
      using i(1) Cons fl_push_remove [OF Cons] fl_remove_segs [of i s vm]
      by (subst xalloc_loop.simps) (simp add: fl_remove_hd [OF Cons] Let_def)
    show ?thesis
    proof (rule list_turn_wf [where mn = mn and mx = mx, OF Suc.prems(3) Cons Suc.prems(4,5)], goal_cases)
      case turn: (1 vm1)
      have b1: "vm_base vm1 \<noteq> 0" using turn(3) Suc.prems(5) by (simp add: same_struct_def same_range_def)
      show ?case
      proof (rule Suc.hyps(1) [OF i(2) _ _ turn(2) Suc.prems(4) b1], goal_cases)
        case (1 vm')
        then show ?case using turn searched_from_Suc [of sz mn mx i vm]
          by (intro Suc.prems(1) [of vm']) (auto simp: lp intro: same_struct_trans)
      next
        case (2 addr vm')
        then show ?case using turn(1,3) same_struct_used [OF turn(3)]
          by (intro Suc.prems(2) [of addr vm']) (auto simp: lp same_struct_def same_range_def)
      qed
    next
      case (2 addr vm')
      then show ?case by (intro Suc.prems(2) [of addr vm']) (auto simp: lp found_def)
    qed
  qed
qed

end

end
