(* ===== verification/Vmem_Spec.thy ===== *)
theory Vmem_Spec
  imports Vmem_Alloc
begin

text \<open>
  What \<open>VMem\<close> promises its callers: \<open>init\<close> establishes the invariant, and every sequence
  of allocations and of frees of outstanding allocations keeps it; an allocation returns a region of
  the managed range that overlaps no outstanding one; an allocation without bounds succeeds
  whenever the range has a large enough gap; a free returns exactly the region it names.
\<close>

lemma size_to_index_eq:
  assumes "n \<noteq> 0"
  shows "size_to_index n = bit_len (unat n) - 1" and "size_to_index n < FREELIST_COUNT"
proof -
  let ?L = "bit_len (unat n)"
  have L: "?L \<le> 64" "0 < ?L" using bit_len_word [of n] assms unat_eq_0 [of n] by auto
  obtain m where m: "?L = Suc m" using L(2) by (cases ?L) auto
  have "(of_nat 64 - of_nat (64 - ?L) - 1 :: usize) = of_nat (?L - 1)"
    using L by (simp add: of_nat_diff m)
  then have "size_to_index n = unat (ucast (of_nat (?L - 1) :: usize) :: u32)"
    by (simp add: size_to_index_def FREELIST_COUNT_def countl_zero_eq)
  also have "\<dots> = ?L - 1" using L by (simp add: unsigned_ucast_eq unsigned_of_nat take_bit_eq_mod)
  finally show "size_to_index n = ?L - 1" .
  then show "size_to_index n < FREELIST_COUNT" using L by (simp add: FREELIST_COUNT_def)
qed

lemma size_to_index_mono: "m \<le> n \<Longrightarrow> 0 < m \<Longrightarrow> size_to_index m \<le> size_to_index n"
  using bit_len_mono [of "unat m" "unat n"] size_to_index_eq(1) [of m] size_to_index_eq(1) [of n]
  by (cases "m = 0"; cases "n = 0") (auto simp: word_le_nat_alt word_less_nat_alt diff_le_mono)

lemma size_to_index_0: "size_to_index 0 = 4294967295"
  by (simp add: size_to_index_def FREELIST_COUNT_def countl_zero_eq unsigned_ucast_eq
      unsigned_minus_1_eq_mask mask_eq_exp_minus_1 take_bit_eq_mod)

lemma fits_unbounded:
  assumes "unat (seg_base g) + unat (seg_size g) < 2 ^ 64" and "n \<le> seg_size g"
  shows "fits n 0 (- 1) g"
proof -
  have e: "unat (seg_base g + seg_size g) = unat (seg_base g) + unat (seg_size g)"
    using assms(1) by (intro unat_add_small) simp
  then have "seg_base g \<le> seg_base g + seg_size g" by (simp add: word_le_nat_alt)
  moreover have "min (seg_base g + seg_size g) (- 1) = seg_base g + seg_size g"
    by (simp add: min_def)
  ultimately show ?thesis using assms(2) by (simp add: fits_def Let_def)
qed

lemma tiles_cover: "tiles f a ss b \<Longrightarrow> a \<le> x \<Longrightarrow> x < b \<Longrightarrow>
    \<exists>as s bs. ss = as @ s # bs \<and> unat (seg_base (f s)) \<le> x \<and> x < unat (seg_base (f s)) + unat (seg_size (f s))"
proof (induction ss arbitrary: a)
  case (Cons s ss)
  show ?case
  proof (cases "x < a + unat (seg_size (f s))")
    case True
    then show ?thesis using Cons.prems by (intro exI [of _ "[]"] exI [of _ s] exI [of _ ss]) auto
  next
    case False
    then obtain as t bs where "ss = as @ t # bs" "unat (seg_base (f t)) \<le> x"
        "x < unat (seg_base (f t)) + unat (seg_size (f t))"
      using Cons by fastforce
    then show ?thesis by (intro exI [of _ "s # as"] exI [of _ t] exI [of _ bs]) auto
  qed
qed simp

text \<open>Because neighbouring free segments are merged, a gap between the outstanding regions lies
  inside one free segment.\<close>

lemma gap_in_segment:
  assumes wf: "vm_wf pinv live E {} vm" and n: "0 < n"
    and r: "unat (vm_base vm) \<le> a" "a + n \<le> unat (vm_base vm) + unat (vm_size vm)"
    and gap: "\<forall>(b, m) \<in> used_in {} vm. b + m \<le> a \<or> a + n \<le> b"
  shows "\<exists>s \<in> set (tl (seg_list vm)). is_free vm s \<and> n \<le> unat (seg_size (segs vm s))"
proof -
  let ?f = "segs vm" and ?L = "tl (seg_list vm)"
  have t: "tiles ?f (unat (vm_base vm)) ?L (unat (vm_base vm) + unat (vm_size vm))"
    and sp: "\<forall>s \<in> set ?L. seg_ty (?f s) \<noteq> Span" and na: "no_adj (is_free vm) ?L"
    using vm_wf_dest(2) [OF wf] by (simp_all add: tiling_ok_def)
  have "\<exists>as s bs. ?L = as @ s # bs \<and> unat (seg_base (?f s)) \<le> a \<and>
      a < unat (seg_base (?f s)) + unat (seg_size (?f s))"
    using r n by (intro tiles_cover [OF t]) auto
  then obtain as s bs where L: "?L = as @ s # bs" and s: "unat (seg_base (?f s)) \<le> a"
      "a < unat (seg_base (?f s)) + unat (seg_size (?f s))" by blast
  have busy: "is_free vm z \<or> unat (seg_base (?f z)) + unat (seg_size (?f z)) \<le> a \<or> a + n \<le> unat (seg_base (?f z))"
    if "z \<in> set ?L" for z
    using that sp gap by (cases "seg_ty (?f z)") (auto simp: used_in_def is_used_def is_free_def)
  have fs: "is_free vm s" using busy [of s] s n L by auto
  have "a + n \<le> unat (seg_base (?f s)) + unat (seg_size (?f s))"
  proof (cases bs)
    case Nil then show ?thesis using t r(2) by (auto simp: L)
  next
    case (Cons z zs)
    then have "\<not> is_free vm z" using na fs by (auto simp: L no_adj_append)
    moreover have "unat (seg_base (?f z)) = unat (seg_base (?f s)) + unat (seg_size (?f s))" "0 < unat (seg_size (?f z))"
      using t by (auto simp: L Cons)
    ultimately show ?thesis using busy [of z] s by (auto simp: L Cons)
  qed
  then show ?thesis using s fs L by (intro bexI [of _ s]) auto
qed

section \<open>Allocation and freeing\<close>

definition eff_max :: "usize \<Rightarrow> usize \<Rightarrow> usize \<Rightarrow> usize" where
  "eff_max n mn mx = (if mx = 0 then - 1 else if mx = mn then mn + n else mx)"

lemma xalloc_loop_eq:
  "xalloc ap sz mn mx vm = xalloc_loop ap (ALIGNUP sz (vm_quantum vm)) mn
     (eff_max (ALIGNUP sz (vm_quantum vm)) mn mx) True (size_to_index (ALIGNUP sz (vm_quantum vm))) vm"
  by (auto simp: xalloc_def eff_max_def Let_def)

lemma xalloc_zero:
  "ALIGNUP sz (vm_quantum vm) = 0 \<Longrightarrow> xalloc ap sz mn mx vm = Some (0, vm)"
  by (simp add: xalloc_loop_eq size_to_index_0 xalloc_loop.simps FREELIST_COUNT_def)

text \<open>The segments in the order of their addresses, and the outstanding allocations.\<close>

definition layout :: "'pm vmem \<Rightarrow> (usize \<times> usize \<times> seg_type) list" where
  "layout vm = map (\<lambda>s. (seg_base (segs vm s), seg_size (segs vm s), seg_ty (segs vm s))) (tl (seg_list vm))"

abbreviation allocated :: "'pm vmem \<Rightarrow> (nat \<times> nat) set" where
  "allocated vm \<equiv> used_in {} vm"

abbreviation vm_inv :: "('pm \<Rightarrow> bool) \<Rightarrow> ('pm \<Rightarrow> nat set) \<Rightarrow> 'pm vmem \<Rightarrow> bool" where
  "vm_inv pinv live vm \<equiv> vm_wf pinv live [] {} vm"

lemma same_struct_layout: "same_struct vm vm' \<Longrightarrow> layout vm' = layout vm"
  by (simp add: same_struct_def layout_def)

context page_source
begin

lemma xalloc_cases:
  fixes sz mn mx :: usize
  assumes wf: "vm_inv pinv live vm" and b0: "vm_base vm \<noteq> 0"
  defines "n \<equiv> ALIGNUP sz (vm_quantum vm)"
  obtains (fail) vm' where "xalloc alloc_page sz mn mx vm = Some (0, vm')" "vm_inv pinv live vm'"
      "same_struct vm vm'"
      "n = 0 \<or> searched_from n mn (eff_max n mn mx) (size_to_index n) vm \<or> length (free_segs vm) < 2"
  | (ok) addr vm' where "xalloc alloc_page sz mn mx vm = Some (addr, vm')" "same_range vm vm'"
      "found pinv live n mn (eff_max n mn mx) addr (allocated vm) vm'"
proof (cases "n = 0")
  case True
  then show thesis using fail [of vm] xalloc_zero [of sz vm alloc_page mn mx] wf by (auto simp: n_def)
next
  case False
  then have "0 < n" by (simp add: word_neq_0_conv)
  show thesis
    by (rule xalloc_loop_wf [OF wf \<open>0 < n\<close> b0, where mn = mn and mx = "eff_max n mn mx" and i = "size_to_index n"])
      (auto simp: xalloc_loop_eq n_def intro: fail ok)
qed

lemma xalloc_finds_gap:
  fixes sz :: usize
  assumes wf: "vm_inv pinv live vm" and b0: "vm_base vm \<noteq> 0" and two: "2 \<le> length (free_segs vm)"
  defines "n \<equiv> ALIGNUP sz (vm_quantum vm)"
  assumes n: "n \<noteq> 0" and r: "unat (vm_base vm) \<le> a" "a + unat n \<le> unat (vm_base vm) + unat (vm_size vm)"
    and gap: "\<forall>(b, m) \<in> allocated vm. b + m \<le> a \<or> a + unat n \<le> b"
  shows "\<exists>addr vm'. xalloc alloc_page sz 0 0 vm = Some (addr, vm') \<and> addr \<noteq> 0 \<and> vm_inv pinv live vm' \<and>
    allocated vm' = insert (unat addr, unat n) (allocated vm)"
proof (rule xalloc_cases [OF wf b0, where sz = sz and mn = 0 and mx = 0], goal_cases)
  case (1 vm')
  note d = vm_wf_dest [OF wf]
  obtain s where s: "s \<in> set (tl (seg_list vm))" "is_free vm s" "n \<le> seg_size (segs vm s)"
    using gap_in_segment [OF wf _ r gap] n by (auto simp: word_le_nat_alt unat_gt_0)
  define j where "j = size_to_index (seg_size (segs vm s))"
  have m: "s \<in> set (freelists vm j)" using s fl_ok_dest [OF d(3)] by (simp add: j_def)
  have "seg_size (segs vm s) \<noteq> 0" using tiling_ok_range(4) [OF d(2) s(1)] by auto
  then have "size_to_index n \<le> j" "j < FREELIST_COUNT"
    using size_to_index_mono [OF s(3)] n size_to_index_eq(2) by (auto simp: j_def word_neq_0_conv)
  then have "searched n 0 (- 1) j vm" using 1(4) n two by (auto simp: searched_from_def eff_max_def n_def)
  moreover have "fits n 0 (- 1) (segs vm z)" if "z \<in> set (freelists vm j)" "n \<le> seg_size (segs vm z)" for z
    using that fl_ok_dest [OF d(3)] tiling_ok_range(3) [OF d(2)] by (intro fits_unbounded) auto
  ultimately have False using m s(3) by (cases "freelists vm j") (auto simp: searched_def split: if_splits)
  then show ?case ..
next
  case (2 addr vm')
  then show ?case by (auto simp: found_def n_def)
qed

end

section \<open>The layout is determined by the outstanding allocations\<close>

definition used_of :: "(nat \<Rightarrow> segment) \<Rightarrow> nat list \<Rightarrow> (nat \<times> nat) set" where
  "used_of f ss = (\<lambda>s. (unat (seg_base (f s)), unat (seg_size (f s)))) ` {s \<in> set ss. seg_ty (f s) = Used}"

definition coalesced :: "(nat \<Rightarrow> segment) \<Rightarrow> nat \<Rightarrow> nat list \<Rightarrow> nat \<Rightarrow> bool" where
  "coalesced f a ss b \<longleftrightarrow> tiles f a ss b \<and> no_adj (\<lambda>s. seg_ty (f s) = Free) ss \<and>
     (\<forall>s \<in> set ss. seg_ty (f s) \<noteq> Span)"

lemma coalesced_Cons: "coalesced f a (s # ss) b \<Longrightarrow> coalesced f (a + unat (seg_size (f s))) ss b"
  by (auto simp: coalesced_def no_adj_cons)

lemma used_of_Cons:
  assumes "coalesced f a (s # ss) b"
  shows "used_of f ss = used_of f (s # ss) - {(a, unat (seg_size (f s)))}"
  using assms by (fastforce simp: coalesced_def used_of_def dest: tiles_range)

lemma used_head:
  assumes c: "coalesced g a (t # ts) b" and u: "(a, n) \<in> used_of g (t # ts)"
  shows "seg_ty (g t) = Used \<and> unat (seg_size (g t)) = n"
  using assms by (fastforce simp: coalesced_def used_of_def dest: tiles_range)

lemma head_size_le:
  assumes c: "coalesced f a (s # ss) b" "coalesced g a (t # ts) b" and U: "used_of f (s # ss) = used_of g (t # ts)"
    and fr: "seg_ty (f s) = Free"
  shows "unat (seg_size (g t)) \<le> unat (seg_size (f s))"
proof (rule ccontr)
  assume lt: "\<not> ?thesis"
  have "a + unat (seg_size (g t)) \<le> b" using c(2) by (auto simp: coalesced_def dest: tiles_le)
  then have "ss \<noteq> []" using c(1) lt by (auto simp: coalesced_def)
  then obtain x xs where ss: "ss = x # xs" by (cases ss) auto
  have "seg_ty (f x) = Used"
    using c(1) fr by (cases "seg_ty (f x)") (auto simp: coalesced_def ss)
  then have "(a + unat (seg_size (f s)), unat (seg_size (f x))) \<in> used_of g (t # ts)"
    unfolding U [symmetric] using c(1) by (auto simp: coalesced_def ss used_of_def intro!: image_eqI [of _ _ x])
  then show False using c lt by (fastforce simp: coalesced_def used_of_def dest: tiles_range)
qed

lemma coalesced_unique:
  assumes "coalesced f a ss b" "coalesced g a ts b" "used_of f ss = used_of g ts"
  shows "map (\<lambda>s. (seg_base (f s), seg_size (f s), seg_ty (f s))) ss =
         map (\<lambda>s. (seg_base (g s), seg_size (g s), seg_ty (g s))) ts"
  using assms
proof (induction ss arbitrary: a ts)
  case Nil
  then show ?case by (cases ts) (auto simp: coalesced_def dest: tiles_le)
next
  case (Cons s ss)
  have "ts \<noteq> []" using Cons.prems(1,2) by (auto simp: coalesced_def dest: tiles_le)
  then obtain t us where ts: "ts = t # us" by (cases ts) auto
  note c = Cons.prems(1) Cons.prems(2) [unfolded ts] and U = Cons.prems(3) [unfolded ts]
  have in_used: "seg_ty (h z) = Used \<Longrightarrow> coalesced h a (z # zs) b \<Longrightarrow> (a, unat (seg_size (h z))) \<in> used_of h (z # zs)" for h z zs
    by (auto simp: used_of_def coalesced_def)
  have ty: "seg_ty (f s) = seg_ty (g t)" and sz: "unat (seg_size (f s)) = unat (seg_size (g t))"
  proof -
    have "seg_ty (f s) = seg_ty (g t) \<and> unat (seg_size (f s)) = unat (seg_size (g t))"
    proof (cases "seg_ty (f s) = Used \<or> seg_ty (g t) = Used")
      case True
      then show ?thesis using used_head [OF c(2)] used_head [OF c(1)] in_used [OF _ c(1)] in_used [OF _ c(2)] U by metis
    next
      case False
      then have "seg_ty (f s) = Free" "seg_ty (g t) = Free"
        using c by (cases "seg_ty (f s)"; cases "seg_ty (g t)"; auto simp: coalesced_def)+
      then show ?thesis using head_size_le [OF c U] head_size_le [OF c(2,1) U [symmetric]] by auto
    qed
    then show "seg_ty (f s) = seg_ty (g t)" "unat (seg_size (f s)) = unat (seg_size (g t))" by auto
  qed
  have "used_of f ss = used_of g us" using used_of_Cons [OF c(1)] used_of_Cons [OF c(2)] U sz by simp
  then have "map (\<lambda>s. (seg_base (f s), seg_size (f s), seg_ty (f s))) ss = map (\<lambda>s. (seg_base (g s), seg_size (g s), seg_ty (g s))) us"
    using coalesced_Cons [OF c(1)] coalesced_Cons [OF c(2)] sz by (intro Cons.IH) auto
  moreover have "seg_base (f s) = seg_base (g t)" "seg_size (f s) = seg_size (g t)"
    using c sz by (auto simp: coalesced_def word_eq_unat)
  ultimately show ?case using ty by (simp add: ts)
qed

lemma layout_unique:
  assumes "vm_inv pinv live vm" "vm_inv pinv live vm'" "same_range vm vm'" "allocated vm' = allocated vm"
  shows "layout vm' = layout vm"
proof -
  have c: "coalesced (segs v) (unat (vm_base v)) (tl (seg_list v)) (unat (vm_base v) + unat (vm_size v))"
    if "vm_inv pinv live v" for v :: "'a vmem"
    using vm_wf_dest(2) [OF that] by (simp add: tiling_ok_def coalesced_def is_free_def)
  show ?thesis unfolding layout_def using c [OF assms(1)] c [OF assms(2)] assms(3,4)
    by (intro coalesced_unique) (auto simp: same_range_def used_of_def used_in_def is_used_def)
qed

section \<open>Initialisation and reachable states\<close>

inductive vm_reach :: "('pm \<Rightarrow> nat option \<times> 'pm) \<Rightarrow> usize \<Rightarrow> usize \<Rightarrow> usize \<Rightarrow> 'pm \<Rightarrow> 'pm vmem \<Rightarrow> bool"
  for alloc_page :: "'pm \<Rightarrow> nat option \<times> 'pm" and bas siz quantum :: usize and p :: 'pm where
  reach_init: "vmem_init alloc_page bas siz quantum (vmem_empty p) = Some vm \<Longrightarrow>
    vm_reach alloc_page bas siz quantum p vm"
| reach_alloc: "vm_reach alloc_page bas siz quantum p vm \<Longrightarrow> xalloc alloc_page sz mn mx vm = Some (addr, vm') \<Longrightarrow>
    vm_reach alloc_page bas siz quantum p vm'"
| reach_free: "vm_reach alloc_page bas siz quantum p vm \<Longrightarrow>
    (unat ptr, unat (ALIGNUP sz quantum)) \<in> allocated vm \<Longrightarrow> xfree ptr sz vm = Some vm' \<Longrightarrow>
    vm_reach alloc_page bas siz quantum p vm'"

lemma upd_seg_objs [simp]: "objs_ok pinv live E (upd_seg s f vm) = objs_ok pinv live E vm"
  by (simp add: objs_ok_def upd_seg_def)

context page_source
begin

lemma vmem_init_inv:
  assumes i: "vmem_init alloc_page bas siz quantum (vmem_empty p) = Some vm"
    and p: "pinv p" and r: "unat bas + unat siz < 2 ^ 64"
  shows "vm_inv pinv live vm \<and> vm_base vm = bas \<and> vm_size vm = siz \<and> vm_quantum vm = quantum \<and> allocated vm = {}"
proof -
  define v0 where "v0 = (vmem_empty p)\<lparr>vm_base := bas, vm_size := siz, vm_quantum := quantum\<rparr>"
  have o0: "objs_ok pinv live [] v0" using p by (simp add: v0_def vmem_empty_def objs_ok_def)
  obtain sp v1 where s1: "seg_alloc alloc_page v0 = (Some sp, v1)"
    using i by (auto simp: vmem_init_def v0_def [symmetric] Let_def split: prod.splits option.splits)
  let ?v1 = "upd_seg sp (\<lambda>_. \<lparr>seg_base = bas, seg_size = siz, seg_ty = Span\<rparr>) v1"
  note a1 = seg_alloc_cases [OF o0 s1, simplified]
  obtain f v2 where s2: "seg_alloc alloc_page ?v1 = (Some f, v2)"
    using i s1 by (auto simp: vmem_init_def v0_def [symmetric] Let_def split: prod.splits option.splits)
  have "objs_ok pinv live [sp] ?v1" using a1 by simp
  note a2 = seg_alloc_cases [OF this s2, simplified]
  have idx: "size_to_index siz < FREELIST_COUNT" and vm: "vm = (upd_seg f (\<lambda>_. \<lparr>seg_base = bas, seg_size = siz, seg_ty = Free\<rparr>) v2)
      \<lparr>seg_list := [sp, f], freelists := (\<lambda>_. [])(size_to_index siz := [f])\<rparr>"
    using i s1 s2 a1 a2
    by (auto simp: vmem_init_def v0_def vmem_empty_def Let_def same_struct_def upd_seg_def split: if_splits)
  have "siz \<noteq> 0" using idx size_to_index_0 by (auto simp: FREELIST_COUNT_def)
  then have pos: "0 < unat siz" by (simp add: unat_gt_0)
  have ne: "sp \<noteq> f" using a2 by (auto simp: objs_ok_def)
  have sg: "segs v2 sp = \<lparr>seg_base = bas, seg_size = siz, seg_ty = Span\<rparr>" "hash_tab v2 = (\<lambda>_. [])"
    "vm_base v2 = bas" "vm_size v2 = siz" "vm_quantum v2 = quantum" "seg_list v2 = []"
    using a1 a2 by (auto simp: same_struct_def same_range_def upd_seg_def v0_def vmem_empty_def)
  have "fl_ok {} vm" using ne by (auto simp: fl_ok_def vm upd_seg_def is_free_def)
  moreover have "ht_ok {} vm" using ne sg by (auto simp: ht_ok_def vm upd_seg_def is_used_def)
  moreover have "tiling_ok {} vm" using ne sg r pos by (auto simp: tiling_ok_def vm upd_seg_def)
  moreover have "objs_ok pinv live [] vm" using a2 sg by (auto simp: objs_ok_def vm upd_seg_def)
  ultimately show ?thesis using sg by (auto simp: vm_wf_def vm upd_seg_def used_in_def is_used_def)
qed

lemma vm_reach_inv:
  assumes "vm_reach alloc_page bas siz quantum p vm" and "pinv p" and "bas \<noteq> 0" and "unat bas + unat siz < 2 ^ 64"
  shows "vm_inv pinv live vm \<and> vm_base vm = bas \<and> vm_size vm = siz \<and> vm_quantum vm = quantum"
  using assms(1)
proof induction
  case (reach_init vm)
  then show ?case using vmem_init_inv assms(2,4) by blast
next
  case (reach_alloc vm sz mn mx addr vm')
  then have "vm_inv pinv live vm" "vm_base vm \<noteq> 0" using assms(3) by auto
  then show ?case
    by (rule xalloc_cases [where sz = sz and mn = mn and mx = mx])
      (use reach_alloc in \<open>auto simp: same_struct_def same_range_def found_def\<close>)
next
  case (reach_free vm ptr sz vm')
  then show ?case using xfree_wf [of pinv live "[]" vm ptr sz] by (auto simp: same_range_def)
qed

end

section \<open>Properties\<close>

lemma allocated_regions:
  assumes wf: "vm_inv pinv live vm" and u: "(b, n) \<in> allocated vm"
  shows "unat (vm_base vm) \<le> b" "0 < n" "b + n \<le> unat (vm_base vm) + unat (vm_size vm)"
    "(c, m) \<in> allocated vm \<Longrightarrow> (c, m) \<noteq> (b, n) \<Longrightarrow> b + n \<le> c \<or> c + m \<le> b"
proof -
  note t = vm_wf_dest(2) [OF wf]
  obtain s where s: "s \<in> set (tl (seg_list vm))" "b = unat (seg_base (segs vm s))" "n = unat (seg_size (segs vm s))"
    using u by (auto simp: used_in_def)
  then show "unat (vm_base vm) \<le> b" "0 < n" "b + n \<le> unat (vm_base vm) + unat (vm_size vm)"
    using tiling_ok_range [OF t s(1)] by auto
  assume "(c, m) \<in> allocated vm" "(c, m) \<noteq> (b, n)"
  then obtain z where "z \<in> set (tl (seg_list vm))" "z \<noteq> s" "c = unat (seg_base (segs vm z))" "m = unat (seg_size (segs vm z))"
    using s by (auto simp: used_in_def)
  then show "b + n \<le> c \<or> c + m \<le> b" using s tiles_disjoint [of "segs vm" _ "tl (seg_list vm)" _ s z] t
    by (auto simp: tiling_ok_def)
qed

text \<open>A page source for the concrete runs: pages are handed out in ascending order.\<close>

definition next_page :: "nat \<Rightarrow> nat option \<times> nat" where
  "next_page k = (Some (4096 * k), Suc k)"

interpretation np: page_source next_page "\<lambda>_. True" "\<lambda>k. (\<lambda>i. 4096 * i) ` {..<k}"
  by unfold_locales (auto simp: next_page_def lessThan_Suc)

lemma run_alloc:
  assumes "vmem_init next_page 0x1000 0x10000 0x1000 (vmem_empty 1) = Some vm" and "2 \<le> length (free_segs vm)"
  shows "\<exists>addr vm'. xalloc next_page 0x2000 0 0 vm = Some (addr, vm') \<and> addr \<noteq> 0 \<and>
    allocated vm' = {(unat addr, 0x2000)}"
proof -
  have "ALIGNUP 0x2000 0x1000 = (0x2000 :: usize)" by (simp add: ALIGNUP_def)
  then show ?thesis using np.vmem_init_inv [OF assms(1)] np.xalloc_finds_gap [of vm "0x2000" "0x1000"] assms(2) by auto
qed

lemma upt_page: "[Suc 0..<73] = [Suc 0..<69] @ [69, 70, 71, 72]"
  using upt_add_eq_append [of "Suc 0" 69 4] by (simp add: upt_rec)

lemma run_init: "\<exists>vm. vmem_init next_page 0x1000 0x10000 0x1000 (vmem_empty 1) = Some vm \<and> 2 \<le> length (free_segs vm)"
  by (simp add: vmem_init_def vmem_empty_def seg_alloc_def next_page_def fold_push upd_seg_def
      sizeof_Segment_def PAGE_SIZE_def Let_def size_to_index_eq FREELIST_COUNT_def bit_len.simps upt_page)

text \<open>C2 Every state that VMem reaches from init by allocations and by frees of outstanding
  allocations holds outstanding regions that lie inside the managed range and are pairwise disjoint,
  and no further allocation or free of an outstanding region trips an assertion.\<close>

theorem vmem_regions_disjoint:
  assumes "page_source alloc_page pinv live" and "pinv p" and "bas \<noteq> 0" and "unat bas + unat siz < 2 ^ 64"
    and "vm_reach alloc_page bas siz quantum p vm"
  shows "(\<forall>(b, n) \<in> allocated vm. unat bas \<le> b \<and> 0 < n \<and> b + n \<le> unat bas + unat siz) \<and>
    (\<forall>(b, n) \<in> allocated vm. \<forall>(c, m) \<in> allocated vm. (b, n) \<noteq> (c, m) \<longrightarrow> b + n \<le> c \<or> c + m \<le> b) \<and>
    xalloc alloc_page sz mn mx vm \<noteq> None \<and>
    ((unat ptr, unat (ALIGNUP sz quantum)) \<in> allocated vm \<longrightarrow> xfree ptr sz vm \<noteq> None)"
proof -
  note ps = page_source.vm_reach_inv [OF assms(1,5,2,3,4)]
  then have wf: "vm_inv pinv live vm" and b0: "vm_base vm \<noteq> 0" using assms(3) by auto
  have "xalloc alloc_page sz mn mx vm \<noteq> None"
    by (rule page_source.xalloc_cases [OF assms(1) wf b0, where sz = sz and mn = mn and mx = mx]) auto
  moreover have "(unat ptr, unat (ALIGNUP sz quantum)) \<in> allocated vm \<longrightarrow> xfree ptr sz vm \<noteq> None"
    using xfree_wf [OF wf, of ptr sz] ps by auto
  ultimately show ?thesis using ps allocated_regions [OF wf] by fastforce
qed

theorem vmem_regions_disjoint_witness:
  "\<exists>vm. vm_reach next_page 0x1000 0x10000 0x1000 1 vm \<and>
     (\<forall>(b, n) \<in> allocated vm. 0x1000 \<le> b \<and> 0 < n \<and> b + n \<le> 0x11000) \<and>
     xalloc next_page 0x3000 0 0 vm \<noteq> None"
proof -
  obtain vm where "vmem_init next_page 0x1000 0x10000 0x1000 (vmem_empty 1) = Some vm" using run_init by blast
  then have r: "vm_reach next_page 0x1000 0x10000 0x1000 1 vm" by (rule reach_init)
  show ?thesis
    using vmem_regions_disjoint [OF np.page_source_axioms _ _ _ r, where sz = "0x3000" and mn = 0 and mx = 0] r by (intro exI [of _ vm]) auto
qed

text \<open>C3 In such a state xalloc either returns 0 and leaves the segments as they were, or it
  returns a fresh region: of the requested size rounded up to the quantum, inside the bounds that the
  caller gave, overlapping no outstanding region, and the only change of the outstanding regions.\<close>

theorem xalloc_fresh_region:
  assumes "page_source alloc_page pinv live" and "pinv p" and "bas \<noteq> 0" and "unat bas + unat siz < 2 ^ 64"
    and "vm_reach alloc_page bas siz quantum p vm"
  shows "\<exists>addr vm'. xalloc alloc_page sz mn mx vm = Some (addr, vm') \<and>
    (if addr = 0 then layout vm' = layout vm
     else allocated vm' = insert (unat addr, unat (ALIGNUP sz quantum)) (allocated vm) \<and>
       unat bas \<le> unat addr \<and> unat addr + unat (ALIGNUP sz quantum) \<le> unat bas + unat siz \<and>
       mn \<le> addr \<and> unat addr + unat (ALIGNUP sz quantum) \<le> unat (eff_max (ALIGNUP sz quantum) mn mx) \<and>
       (\<forall>(b, n) \<in> allocated vm. b + n \<le> unat addr \<or> unat addr + unat (ALIGNUP sz quantum) \<le> b))"
proof -
  note ps = page_source.vm_reach_inv [OF assms(1,5,2,3,4)]
  then have wf: "vm_inv pinv live vm" and b0: "vm_base vm \<noteq> 0" using assms(3) by auto
  show ?thesis
  proof (rule page_source.xalloc_cases [OF assms(1) wf b0, where sz = sz and mn = mn and mx = mx], goal_cases)
    case (1 vm')
    then show ?thesis using same_struct_layout by auto
  next
    case (2 addr vm')
    then have "(unat addr, unat (ALIGNUP sz quantum)) \<in> allocated vm'" "vm_inv pinv live vm'"
      using ps by (auto simp: found_def)
    then show ?thesis using 2 ps allocated_regions [of pinv live vm' "unat addr" "unat (ALIGNUP sz quantum)"]
      by (intro exI [of _ addr] exI [of _ vm']) (auto simp: found_def same_range_def)
  qed
qed

theorem xalloc_fresh_region_witness:
  "\<exists>vm addr vm'. vm_reach next_page 0x1000 0x10000 0x1000 1 vm \<and>
     xalloc next_page 0x2800 0x3000 0x9000 vm = Some (addr, vm') \<and>
     (addr \<noteq> 0 \<longrightarrow> 0x3000 \<le> addr \<and> unat addr + 0x3000 \<le> 0x9000)"
proof -
  obtain vm where "vmem_init next_page 0x1000 0x10000 0x1000 (vmem_empty 1) = Some vm" using run_init by blast
  then have r: "vm_reach next_page 0x1000 0x10000 0x1000 1 vm" by (rule reach_init)
  have al: "ALIGNUP 0x2800 0x1000 = (0x3000 :: usize)" by (simp add: ALIGNUP_def)
  show ?thesis
    using xalloc_fresh_region [OF np.page_source_axioms _ _ _ r, where sz = "0x2800" and mn = "0x3000" and mx = "0x9000"] r
    by (auto simp: al eff_max_def split: if_splits)
qed

text \<open>C4 In every reachable state that has two spare segment objects at hand, an allocation without
  bounds whose rounded size is not zero succeeds whenever the managed range has a gap of the rounded
  size between the outstanding regions: free space is never lost to fragmentation of the segment
  list.\<close>

theorem xalloc_finds_any_gap:
  assumes "page_source alloc_page pinv live" and "pinv p" and "bas \<noteq> 0" and "unat bas + unat siz < 2 ^ 64"
    and "vm_reach alloc_page bas siz quantum p vm" and "2 \<le> length (free_segs vm)"
    and "ALIGNUP sz quantum \<noteq> 0" and "unat bas \<le> a" and "a + unat (ALIGNUP sz quantum) \<le> unat bas + unat siz"
    and "\<forall>(b, m) \<in> allocated vm. b + m \<le> a \<or> a + unat (ALIGNUP sz quantum) \<le> b"
  shows "\<exists>addr vm'. xalloc alloc_page sz 0 0 vm = Some (addr, vm') \<and> addr \<noteq> 0"
proof -
  note ps = page_source.vm_reach_inv [OF assms(1,5,2,3,4)]
  show ?thesis using page_source.xalloc_finds_gap [OF assms(1), of vm sz a] ps assms(3,6-10) by auto
qed

theorem xalloc_finds_any_gap_witness:
  "\<exists>vm addr vm'. vmem_init next_page 0x1000 0x10000 0x1000 (vmem_empty 1) = Some vm \<and>
     xalloc next_page 0x10000 0 0 vm = Some (addr, vm') \<and> addr \<noteq> 0"
proof -
  obtain vm where i: "vmem_init next_page 0x1000 0x10000 0x1000 (vmem_empty 1) = Some vm" and l: "2 \<le> length (free_segs vm)"
    using run_init by blast
  then have r: "vm_reach next_page 0x1000 0x10000 0x1000 1 vm" by (intro reach_init)
  have al: "ALIGNUP 0x10000 0x1000 = (0x10000 :: usize)" by (simp add: ALIGNUP_def)
  have e: "allocated vm = {}" using np.vmem_init_inv [OF i] by simp
  show ?thesis
    using xalloc_finds_any_gap [OF np.page_source_axioms _ _ _ r l, where sz = "0x10000" and a = "0x1000"] i by (auto simp: al e)
qed

text \<open>C5 xfree of an outstanding region with its size removes exactly that region; with another
  size it trips the assertion; of an address that starts no outstanding region it does nothing.\<close>

theorem xfree_exact:
  assumes "page_source alloc_page pinv live" and "pinv p" and "bas \<noteq> 0" and "unat bas + unat siz < 2 ^ 64"
    and "vm_reach alloc_page bas siz quantum p vm"
  shows "((unat ptr, unat (ALIGNUP sz quantum)) \<in> allocated vm \<longrightarrow>
      (\<exists>vm'. xfree ptr sz vm = Some vm' \<and> allocated vm' = allocated vm - {(unat ptr, unat (ALIGNUP sz quantum))})) \<and>
    (\<forall>n. (unat ptr, n) \<in> allocated vm \<and> n \<noteq> unat (ALIGNUP sz quantum) \<longrightarrow> xfree ptr sz vm = None) \<and>
    (unat ptr \<notin> fst ` allocated vm \<longrightarrow> xfree ptr sz vm = Some vm)"
proof -
  note ps = page_source.vm_reach_inv [OF assms(1,5,2,3,4)]
  then have wf: "vm_inv pinv live vm" and q: "vm_quantum vm = quantum" by auto
  show ?thesis using xfree_wf [OF wf, of ptr sz] xfree_wrong_size [OF wf, of ptr _ sz] xfree_unknown [OF wf, of ptr sz]
    unfolding q by blast
qed

theorem xfree_exact_witness:
  "\<exists>vm addr vm' vm''. vm_reach next_page 0x1000 0x10000 0x1000 1 vm' \<and> allocated vm' = {(unat addr, 0x2000)} \<and>
     xfree addr 0x2000 vm' = Some vm'' \<and> allocated vm'' = {} \<and> xfree addr 0x1000 vm' = None"
proof -
  obtain vm where i: "vmem_init next_page 0x1000 0x10000 0x1000 (vmem_empty 1) = Some vm" "2 \<le> length (free_segs vm)"
    using run_init by blast
  from run_alloc [OF this] obtain addr vm' where x: "xalloc next_page 0x2000 0 0 vm = Some (addr, vm')" "allocated vm' = {(unat addr, 0x2000)}"
    by blast
  have r: "vm_reach next_page 0x1000 0x10000 0x1000 1 vm'" using i(1) x(1) by (blast intro: vm_reach.intros)
  have al: "ALIGNUP 0x2000 0x1000 = (0x2000 :: usize)" "ALIGNUP 0x1000 0x1000 = (0x1000 :: usize)" by (simp_all add: ALIGNUP_def)
  show ?thesis
    using xfree_exact [OF np.page_source_axioms _ _ _ r, where ptr = addr and sz = "0x2000"]
      xfree_exact [OF np.page_source_axioms _ _ _ r, where ptr = addr and sz = "0x1000"] r x(2) by (auto simp: al)
qed

text \<open>C6 Freeing what xalloc has just returned restores the segment layout exactly: the pieces
  that the allocation had cut are merged again.\<close>

theorem xalloc_xfree_layout:
  assumes "page_source alloc_page pinv live" and "pinv p" and "bas \<noteq> 0" and "unat bas + unat siz < 2 ^ 64"
    and "vm_reach alloc_page bas siz quantum p vm"
    and "xalloc alloc_page sz mn mx vm = Some (addr, vm')" and "addr \<noteq> 0"
  shows "\<exists>vm''. xfree addr sz vm' = Some vm'' \<and> layout vm'' = layout vm"
proof -
  note ps = page_source.vm_reach_inv [OF assms(1,5,2,3,4)]
  then have wf: "vm_inv pinv live vm" and b0: "vm_base vm \<noteq> 0" using assms(3) by auto
  have "found pinv live (ALIGNUP sz (vm_quantum vm)) mn (eff_max (ALIGNUP sz (vm_quantum vm)) mn mx) addr (allocated vm) vm'"
    and sr: "same_range vm vm'"
    by (rule page_source.xalloc_cases [OF assms(1) wf b0, where sz = sz and mn = mn and mx = mx];
        use assms(6,7) in auto)+
  then have wf': "vm_inv pinv live vm'" and al: "allocated vm' = insert (unat addr, unat (ALIGNUP sz (vm_quantum vm'))) (allocated vm)"
    and fr: "(unat addr, unat (ALIGNUP sz (vm_quantum vm'))) \<notin> allocated vm"
    using allocated_regions(2) [OF wf] by (fastforce simp: found_def same_range_def)+
  from xfree_wf [OF wf', of addr sz] al obtain vm'' where f: "xfree addr sz vm' = Some vm''" "vm_inv pinv live vm''"
    "allocated vm'' = allocated vm' - {(unat addr, unat (ALIGNUP sz (vm_quantum vm')))}" "same_range vm' vm''" by auto
  then have "allocated vm'' = allocated vm" using al fr by auto
  then show ?thesis using f sr layout_unique [OF wf f(2)] by (auto simp: same_range_def)
qed

theorem xalloc_xfree_layout_witness:
  "\<exists>vm addr vm' vm''. vmem_init next_page 0x1000 0x10000 0x1000 (vmem_empty 1) = Some vm \<and>
     xalloc next_page 0x2000 0 0 vm = Some (addr, vm') \<and> addr \<noteq> 0 \<and>
     xfree addr 0x2000 vm' = Some vm'' \<and> layout vm'' = layout vm"
proof -
  obtain vm where i: "vmem_init next_page 0x1000 0x10000 0x1000 (vmem_empty 1) = Some vm" "2 \<le> length (free_segs vm)"
    using run_init by blast
  from run_alloc [OF this] obtain addr vm' where x: "xalloc next_page 0x2000 0 0 vm = Some (addr, vm')" "addr \<noteq> 0" by blast
  from xalloc_xfree_layout [OF np.page_source_axioms _ _ _ reach_init [OF i(1)] x] show ?thesis using i(1) x by auto
qed

end
