(* ===== verification/Pmalloc.thy ===== *)
theory Pmalloc
  imports Vmem_Spec "HOL-Library.Code_Target_Nat"
begin

text \<open>
  The physical page allocator, \<open>src/src/mem/pmalloc.cpp\<close>: a buddy allocator with one free list
  per block size, from 1 page to 8192 pages.

  A page descriptor is named by the number of its page, its physical address divided by the page
  size; physical regions start on a page boundary. The free lists are plain lists (the lists of the
  source are those of \<open>Intrusive_List\<close>), pushed and popped at the end. The fields of a region
  never change once it is made, so a descriptor holds its region by value. The sizes of the two
  descriptor types, which the compiler fixes, are parameters. The locks order the operations and
  are left out. An access outside the array of lists and a failed assertion are the result \<open>None\<close>.
\<close>

section \<open>State\<close>

definition PM_FREELIST_COUNT :: nat where
  "PM_FREELIST_COUNT = 14"

record pregion =
  r_base :: nat
  r_page_count :: nat
  r_res_count :: nat

record ppage =
  pg_region :: pregion
  pg_used :: bool
  pg_in_list :: bool
  pg_index :: nat

record pmem =
  P_REGIONS :: "pregion list"
  FREELISTS :: "nat \<Rightarrow> nat list"
  PAGES :: "nat \<Rightarrow> ppage"
  TOTAL_MEMORY :: usize
  RESERVED_MEMORY :: usize
  USED_MEMORY :: usize

definition pmem_new :: pmem where
  "pmem_new = \<lparr>P_REGIONS = [], FREELISTS = (\<lambda>_. []),
     PAGES = (\<lambda>_. \<lparr>pg_region = \<lparr>r_base = 0, r_page_count = 0, r_res_count = 0\<rparr>, pg_used = False, pg_in_list = False, pg_index = 0\<rparr>),
     TOTAL_MEMORY = 0, RESERVED_MEMORY = 0, USED_MEMORY = 0\<rparr>"

definition index_to_size :: "nat \<Rightarrow> nat" where
  "index_to_size index = 2 ^ index"

definition pm_size_to_index :: "usize \<Rightarrow> nat" where
  "pm_size_to_index size' = 64 - countl_zero (size' - 1)"

definition upd_page :: "nat \<Rightarrow> (ppage \<Rightarrow> ppage) \<Rightarrow> pmem \<Rightarrow> pmem" where
  "upd_page p f s = s\<lparr>PAGES := (PAGES s)(p := f (PAGES s p))\<rparr>"

definition pm_push :: "nat \<Rightarrow> nat \<Rightarrow> pmem \<Rightarrow> pmem" where
  "pm_push i p s = s\<lparr>FREELISTS := (FREELISTS s)(i := FREELISTS s i @ [p])\<rparr>"

definition pm_pop :: "nat \<Rightarrow> pmem \<Rightarrow> pmem" where
  "pm_pop i s = s\<lparr>FREELISTS := (FREELISTS s)(i := butlast (FREELISTS s i))\<rparr>"

definition pm_remove :: "nat \<Rightarrow> nat \<Rightarrow> pmem \<Rightarrow> pmem" where
  "pm_remove i p s = s\<lparr>FREELISTS := (FREELISTS s)(i := remove1 p (FREELISTS s i))\<rparr>"

section \<open>Freeing: merge with the buddy while it is free\<close>

text \<open>The buddy of a block, by the offset from the first page of the region that is not reserved. The
  offset of a reserved page wraps around in the source, where only its low bits count: they are those of
  the negative number. An address below the region wraps around too and is then outside of it.\<close>

definition buddy_of :: "nat \<Rightarrow> nat \<Rightarrow> pregion \<Rightarrow> nat option" where
  "buddy_of new_i p r =
     (let base = r_base r div 4096;
          page_offset = int p - int (base + r_res_count r);
          size' = index_to_size new_i;
          buddy = (if page_offset mod int (index_to_size (new_i + 1)) \<noteq> 0
                   then (if base + size' \<le> p then Some (p - size') else None) else Some (p + size'))
      in case buddy of None \<Rightarrow> None | Some b \<Rightarrow> if b - base \<ge> r_page_count r then None else Some b)"

function pm_merge :: "nat \<Rightarrow> nat \<Rightarrow> pmem \<Rightarrow> nat \<times> nat \<times> pmem" where
  "pm_merge new_i p s =
     (if new_i < PM_FREELIST_COUNT - 1
      then case buddy_of new_i p (pg_region (PAGES s p)) of
             None \<Rightarrow> (new_i, p, s)
           | Some b \<Rightarrow>
               if \<not> pg_used (PAGES s b) \<and> pg_index (PAGES s b) = pg_index (PAGES s p)
               then let s = (if pg_in_list (PAGES s b)
                             then upd_page b (\<lambda>g. g\<lparr>pg_in_list := False\<rparr>) (pm_remove (pg_index (PAGES s b)) b s) else s);
                        first = min p b;
                        s = upd_page first (\<lambda>g. g\<lparr>pg_in_list := False, pg_index := new_i + 1\<rparr>) s
                    in pm_merge (new_i + 1) first s
               else (new_i, p, s)
      else (new_i, p, s))"
  by pat_completeness auto
termination
  by (relation "measure (\<lambda>(i, _, _). PM_FREELIST_COUNT - i)") auto

definition pm_freelist_insert :: "nat \<Rightarrow> nat \<Rightarrow> pmem \<Rightarrow> pmem" where
  "pm_freelist_insert index p s =
     (let s = upd_page p (\<lambda>g. g\<lparr>pg_used := False, pg_index := index\<rparr>) s;
          (final_i, p, s) = pm_merge index p s
      in pm_push final_i p (upd_page p (\<lambda>g. g\<lparr>pg_in_list := True\<rparr>) s))"

section \<open>Allocating: split the smallest larger block\<close>

fun split_down :: "nat \<Rightarrow> nat \<Rightarrow> nat \<Rightarrow> pmem \<Rightarrow> pmem" where
  "split_down 0 index p s = s"
| "split_down (Suc i) index p s =
     (if Suc i > index
      then let second = p + index_to_size (Suc i) div 2;
               s = upd_page second (\<lambda>g. g\<lparr>pg_index := i\<rparr>) s;
               s = upd_page second (\<lambda>g. g\<lparr>pg_in_list := True\<rparr>) (pm_push i second s)
           in split_down i index p s
      else s)"

definition freelist_get :: "nat \<Rightarrow> pmem \<Rightarrow> (nat option \<times> pmem) option" where
  "freelist_get index s =
     (if index \<ge> PM_FREELIST_COUNT then None
      else if FREELISTS s index \<noteq> []
      then let p = last (FREELISTS s index)
           in Some (Some p, upd_page p (\<lambda>g. g\<lparr>pg_used := True, pg_in_list := False\<rparr>) (pm_pop index s))
      else case List.find (\<lambda>i. FREELISTS s i \<noteq> []) [index + 1 ..< PM_FREELIST_COUNT] of
             None \<Rightarrow> Some (None, s)
           | Some new_i \<Rightarrow>
               let p = last (FREELISTS s new_i);
                   s = upd_page p (\<lambda>g. g\<lparr>pg_in_list := False, pg_used := True, pg_index := index\<rparr>) (pm_pop new_i s)
               in Some (Some p, split_down new_i index p s))"

section \<open>Operations\<close>

definition from_phys :: "nat \<Rightarrow> pmem \<Rightarrow> nat option" where
  "from_phys phys s =
     (case List.find (\<lambda>r. r_base r \<le> phys \<and> phys < r_base r + r_page_count r * 4096) (P_REGIONS s) of
        None \<Rightarrow> None
      | Some r \<Rightarrow> Some (r_base r div 4096 + (phys - r_base r) div 4096))"

definition pmalloc :: "usize \<Rightarrow> pmem \<Rightarrow> (nat \<times> pmem) option" where
  "pmalloc count s =
     (if count = 0 then Some (0, s)
      else do { (r, s) \<leftarrow> freelist_get (pm_size_to_index count) s;
                case r of
                  Some p \<Rightarrow> Some (p * 4096, s\<lparr>USED_MEMORY := USED_MEMORY s + count * PAGE_SIZE\<rparr>)
                | None \<Rightarrow> Some (0, s) })"

definition pfree :: "nat \<Rightarrow> usize \<Rightarrow> pmem \<Rightarrow> pmem option" where
  "pfree addr count s =
     (case from_phys addr s of
        None \<Rightarrow> None
      | Some p \<Rightarrow>
          if p * 4096 \<noteq> addr \<or> \<not> pg_used (PAGES s p) \<or> pg_index (PAGES s p) \<noteq> pm_size_to_index count then None
          else Some (pm_freelist_insert (pg_index (PAGES s p)) p (s\<lparr>USED_MEMORY := USED_MEMORY s - count * PAGE_SIZE\<rparr>)))"

text \<open>The blocks of a new region: the largest that is aligned and still fits, from the first page that
  is not reserved on.\<close>

definition largest_block :: "nat \<Rightarrow> nat \<Rightarrow> nat" where
  "largest_block p free_pages =
     (case List.find (\<lambda>j. p * 4096 mod (index_to_size j * 4096) = 0 \<and> free_pages \<ge> index_to_size j)
             (rev [0 ..< PM_FREELIST_COUNT]) of
        Some j \<Rightarrow> j | None \<Rightarrow> 0)"

function add_blocks :: "nat \<Rightarrow> nat \<Rightarrow> pmem \<Rightarrow> pmem" where
  "add_blocks p free_pages s =
     (if free_pages = 0 then s
      else let j = largest_block p free_pages;
               s = upd_page p (\<lambda>g. g\<lparr>pg_index := j, pg_in_list := True\<rparr>) (pm_push j p s)
           in add_blocks (p + index_to_size j) (free_pages - index_to_size j) s)"
  by pat_completeness auto
termination
  by (relation "measure (\<lambda>(_, n, _). n)") (auto simp: index_to_size_def)

definition insert_region :: "pregion \<Rightarrow> pregion list \<Rightarrow> pregion list" where
  "insert_region r rs =
     (case List.find (\<lambda>x. r_base x > r_base r) rs of
        None \<Rightarrow> r # rs
      | Some x \<Rightarrow> takeWhile (\<lambda>y. y \<noteq> x) rs @ x # r # tl (dropWhile (\<lambda>y. y \<noteq> x) rs))"

definition init_pages :: "pregion \<Rightarrow> pmem \<Rightarrow> pmem" where
  "init_pages r s = s\<lparr>PAGES := (\<lambda>p. if r_base r div 4096 \<le> p \<and> p < r_base r div 4096 + r_page_count r
     then \<lparr>pg_region = r, pg_used = False, pg_in_list = False,
           pg_index = (if p < r_base r div 4096 + r_res_count r then 0 else PM_FREELIST_COUNT)\<rparr>
     else PAGES s p)\<rparr>"

definition pmalloc_add_mem :: "nat \<Rightarrow> nat \<Rightarrow> nat \<Rightarrow> nat \<Rightarrow> pmem \<Rightarrow> pmem" where
  "pmalloc_add_mem sizeof_PRegion sizeof_Page phys size' s =
     (let pages = size' div 4096;
          needed = sizeof_PRegion + (pages - 1) * sizeof_Page
      in if pages = 0 \<or> needed \<ge> size' then s
         else let res_pages = (needed + 4095) div 4096;
                  r = \<lparr>r_base = phys, r_page_count = pages, r_res_count = res_pages\<rparr>;
                  s = s\<lparr>TOTAL_MEMORY := TOTAL_MEMORY s + of_nat size',
                         RESERVED_MEMORY := RESERVED_MEMORY s + of_nat (res_pages * 4096)\<rparr>;
                  s = init_pages r s;
                  s = add_blocks (phys div 4096 + res_pages) (pages - res_pages) s
              in s\<lparr>P_REGIONS := insert_region r (P_REGIONS s)\<rparr>)"

definition pmalloc_get_total_mem :: "pmem \<Rightarrow> usize" where
  "pmalloc_get_total_mem s = TOTAL_MEMORY s"

definition pmalloc_get_reserved_mem :: "pmem \<Rightarrow> usize" where
  "pmalloc_get_reserved_mem s = RESERVED_MEMORY s"

definition pmalloc_get_used_mem :: "pmem \<Rightarrow> usize" where
  "pmalloc_get_used_mem s = USED_MEMORY s"

text \<open>The page source of the virtual address allocator: a page at its address in the direct map.\<close>

definition alloc_page :: "nat \<Rightarrow> pmem \<Rightarrow> nat option \<times> pmem" where
  "alloc_page HHDM_START s =
     (case pmalloc 1 s of
        Some (phys, s) \<Rightarrow> (if phys = 0 then None else Some (phys + HHDM_START), s)
      | None \<Rightarrow> (None, s))"

definition free_page :: "nat \<Rightarrow> nat \<Rightarrow> pmem \<Rightarrow> pmem option" where
  "free_page HHDM_START addr s = pfree (addr - HHDM_START) 1 s"

section \<open>Blocks\<close>

definition blk :: "nat \<Rightarrow> nat \<Rightarrow> nat set" where
  "blk p i = {p ..< p + 2 ^ i}"

definition free_blocks :: "pmem \<Rightarrow> (nat \<times> nat) set" where
  "free_blocks s = {(p, i). p \<in> set (FREELISTS s i)}"

definition used_blocks :: "pmem \<Rightarrow> (nat \<times> nat) set" where
  "used_blocks s = {(p, i). pg_used (PAGES s p) \<and> i = pg_index (PAGES s p)}"

definition disj :: "(nat \<times> nat) set \<Rightarrow> bool" where
  "disj B \<longleftrightarrow> (\<forall>(p, i) \<in> B. \<forall>(q, j) \<in> B. (p, i) \<noteq> (q, j) \<longrightarrow> blk p i \<inter> blk q j = {})"

definition r_first :: "pregion \<Rightarrow> nat" where
  "r_first r = r_base r div 4096 + r_res_count r"

definition r_end :: "pregion \<Rightarrow> nat" where
  "r_end r = r_base r div 4096 + r_page_count r"

text \<open>A block lies in the free part of one region; in the strict form its offset there is a multiple
  of its size.\<close>

definition blk_ok :: "bool \<Rightarrow> (nat \<Rightarrow> pregion) \<Rightarrow> nat \<Rightarrow> nat \<Rightarrow> bool" where
  "blk_ok al R p i \<longleftrightarrow> i < 14 \<and> 0 < p \<and> r_first (R p) \<le> p \<and> p + 2 ^ i \<le> r_end (R p) \<and> (\<forall>q \<in> blk p i. R q = R p) \<and>
     (al \<longrightarrow> 2 ^ i dvd p - r_first (R p))"

definition reg :: "pmem \<Rightarrow> nat \<Rightarrow> pregion" where
  "reg s p = pg_region (PAGES s p)"

text \<open>The free lists beside a set of taken blocks.\<close>

definition pm_wf :: "bool \<Rightarrow> pmem \<Rightarrow> (nat \<times> nat) set \<Rightarrow> bool" where
  "pm_wf al s U \<longleftrightarrow>
     (\<forall>i. distinct (FREELISTS s i)) \<and>
     (\<forall>(p, i) \<in> free_blocks s. \<not> pg_used (PAGES s p) \<and> pg_in_list (PAGES s p) \<and> pg_index (PAGES s p) = i) \<and>
     disj (free_blocks s \<union> U) \<and> free_blocks s \<inter> U = {} \<and>
     (\<forall>(p, i) \<in> free_blocks s \<union> U. blk_ok al (reg s) p i)"

definition pages_of :: "(nat \<times> nat) set \<Rightarrow> nat set" where
  "pages_of B = (\<Union>(p, i) \<in> B. blk p i)"

lemma blk_head [simp]: "p \<in> blk p i"
  by (simp add: blk_def)

lemma disjD: "disj B \<Longrightarrow> (p, i) \<in> B \<Longrightarrow> (q, j) \<in> B \<Longrightarrow> x \<in> blk p i \<Longrightarrow> x \<in> blk q j \<Longrightarrow> p = q \<and> i = j"
  by (fastforce simp: disj_def)

lemma disjI: "(\<And>p i q j x. (p, i) \<in> B \<Longrightarrow> (q, j) \<in> B \<Longrightarrow> x \<in> blk p i \<Longrightarrow> x \<in> blk q j \<Longrightarrow> p = q \<and> i = j) \<Longrightarrow> disj B"
  by (fastforce simp: disj_def)

lemma blk_split: "blk p (Suc i) = blk p i \<union> blk (p + 2 ^ i) i" "blk p i \<inter> blk (p + 2 ^ i) i = {}"
  by (auto simp: blk_def)

text \<open>Replacing a block of a disjoint family by its halves, or two halves by their union.\<close>

lemma disj_split:
  assumes "disj (insert (p, Suc i) B)" and "(p, Suc i) \<notin> B"
  shows "disj (insert (p + 2 ^ i, i) (insert (p, i) B))" and "(p, i) \<notin> B" "(p + 2 ^ i, i) \<notin> B"
proof -
  have o: "False" if "(q, j) \<in> B" "x \<in> blk q j" "x \<in> blk p (Suc i)" for q j x
    using disjD [OF assms(1), of p "Suc i" q j x] that assms(2) by auto
  have h: "x \<in> blk p (Suc i)" if "x \<in> blk p i \<or> x \<in> blk (p + 2 ^ i) i" for x
    using that by (simp add: blk_split(1))
  show "(p, i) \<notin> B" "(p + 2 ^ i, i) \<notin> B" using o [of p i p] o [of "p + 2 ^ i" i "p + 2 ^ i"] h [of p] h [of "p + 2 ^ i"] by auto
  show "disj (insert (p + 2 ^ i, i) (insert (p, i) B))"
  proof (rule disjI)
    fix a k b l x
    assume a: "(a, k) \<in> insert (p + 2 ^ i, i) (insert (p, i) B)" "(b, l) \<in> insert (p + 2 ^ i, i) (insert (p, i) B)"
      "x \<in> blk a k" "x \<in> blk b l"
    have "a = b \<and> k = l" if "(a, k) \<in> B" "(b, l) \<in> B" using disjD [OF assms(1)] a that by blast
    then show "a = b \<and> k = l" using a o h blk_split(2) [of p i] by blast
  qed
qed

lemma disj_join:
  assumes "disj (insert (p + 2 ^ i, i) (insert (p, i) B))" and "(p, i) \<notin> B" and "(p + 2 ^ i, i) \<notin> B"
  shows "disj (insert (p, Suc i) B)" and "(p, Suc i) \<notin> B"
proof -
  have o: "False" if "(q, j) \<in> B" "x \<in> blk q j" "x \<in> blk p (Suc i)" for q j x
    using that disjD [OF assms(1), of p i q j x] disjD [OF assms(1), of "p + 2 ^ i" i q j x] assms(2,3)
    by (auto simp: blk_split(1))
  then show "(p, Suc i) \<notin> B" using blk_head by blast
  show "disj (insert (p, Suc i) B)"
  proof (rule disjI)
    fix a k b l x
    assume a: "(a, k) \<in> insert (p, Suc i) B" "(b, l) \<in> insert (p, Suc i) B" "x \<in> blk a k" "x \<in> blk b l"
    have "a = b \<and> k = l" if "(a, k) \<in> B" "(b, l) \<in> B" using disjD [OF assms(1)] a that by blast
    then show "a = b \<and> k = l" using a o by blast
  qed
qed

lemma pages_of_split: "pages_of (insert (p + 2 ^ i, i) (insert (p, i) B)) = pages_of (insert (p, Suc i) B)"
  by (auto simp: pages_of_def blk_split(1))

lemma blk_ok_split:
  assumes "blk_ok al R p (Suc i)"
  shows "blk_ok al R p i" and "blk_ok al R (p + 2 ^ i) i"
proof -
  have q: "\<forall>q \<in> blk p (Suc i). R q = R p" and b: "Suc i < 14" "0 < p" "r_first (R p) \<le> p" "p + 2 ^ Suc i \<le> r_end (R p)"
    using assms unfolding blk_ok_def by blast+
  have "p + 2 ^ i \<in> blk p (Suc i)" by (simp add: blk_def)
  then have h: "R (p + 2 ^ i) = R p" by (rule bspec [OF q])
  have d: "2 ^ i dvd p - r_first (R p)" if al
  proof -
    have "2 ^ Suc i dvd p - r_first (R p)" using assms that unfolding blk_ok_def by blast
    then show ?thesis by (metis dvd_trans dvd_triv_right power_Suc)
  qed
  have q1: "\<forall>q \<in> blk p i. R q = R p" "\<forall>q \<in> blk (p + 2 ^ i) i. R q = R p" using q unfolding blk_split(1) by blast+
  have b1: "i < 14" "p + 2 ^ i \<le> r_end (R p)" "p + 2 ^ i + 2 ^ i \<le> r_end (R p)" "0 < p + 2 ^ i" "r_first (R p) \<le> p + 2 ^ i" using b by simp_all
  show "blk_ok al R p i" unfolding blk_ok_def using b b1 q1(1) d by blast
  have "p + 2 ^ i - r_first (R p) = (p - r_first (R p)) + 2 ^ i" using b by simp
  then have "2 ^ i dvd p + 2 ^ i - r_first (R p)" if al using d that by simp
  then show "blk_ok al R (p + 2 ^ i) i" unfolding blk_ok_def h using b1 q1(2) by blast
qed

section \<open>Allocation\<close>

lemma reg_upd [simp]:
  "reg (pm_push i p s) = reg s" "reg (pm_pop i s) = reg s" "reg (pm_remove i p s) = reg s"
  "(\<And>g. pg_region (f g) = pg_region g) \<Longrightarrow> reg (upd_page p f s) = reg s"
  by (auto simp: reg_def pm_push_def pm_pop_def pm_remove_def upd_page_def)

lemma pm_simps [simp]:
  "PAGES (pm_push i p s) = PAGES s" "PAGES (pm_pop i s) = PAGES s" "PAGES (pm_remove i p s) = PAGES s"
  "FREELISTS (upd_page p f s) = FREELISTS s" "PAGES (upd_page p f s) q = (if q = p then f (PAGES s p) else PAGES s q)"
  "P_REGIONS (pm_push i p s) = P_REGIONS s" "P_REGIONS (pm_pop i s) = P_REGIONS s"
  "P_REGIONS (pm_remove i p s) = P_REGIONS s" "P_REGIONS (upd_page p f s) = P_REGIONS s"
  "free_blocks (upd_page p f s) = free_blocks s"
  by (auto simp: pm_push_def pm_pop_def pm_remove_def upd_page_def free_blocks_def)

lemma free_blocks_push [simp]: "free_blocks (pm_push i p s) = insert (p, i) (free_blocks s)"
  by (auto simp: free_blocks_def pm_push_def)

lemma set_butlast_distinct: "distinct xs \<Longrightarrow> xs \<noteq> [] \<Longrightarrow> set (butlast xs) = set xs - {last xs}"
  by (induction xs rule: rev_induct) auto

lemma free_blocks_pop:
  "distinct (FREELISTS s i) \<Longrightarrow> FREELISTS s i \<noteq> [] \<Longrightarrow>
   free_blocks (pm_pop i s) = free_blocks s - {(last (FREELISTS s i), i)}"
  by (auto simp: free_blocks_def pm_pop_def set_butlast_distinct)

lemma free_blocks_remove:
  "distinct (FREELISTS s i) \<Longrightarrow> free_blocks (pm_remove i p s) = free_blocks s - {(p, i)}"
  by (auto simp: free_blocks_def pm_remove_def)

lemma pm_wfD:
  assumes "pm_wf al s U"
  shows "distinct (FREELISTS s i)" and "disj (free_blocks s \<union> U)" and "free_blocks s \<inter> U = {}"
    and "(p, i) \<in> free_blocks s \<Longrightarrow> \<not> pg_used (PAGES s p) \<and> pg_in_list (PAGES s p) \<and> pg_index (PAGES s p) = i"
    and "(p, i) \<in> free_blocks s \<Longrightarrow> blk_ok al (reg s) p i" and "(p, i) \<in> U \<Longrightarrow> blk_ok al (reg s) p i"
  using assms by (auto simp: pm_wf_def)

lemma pm_wfI:
  assumes "\<And>i. distinct (FREELISTS s i)" and "disj (free_blocks s \<union> U)" and "free_blocks s \<inter> U = {}"
    and "\<And>p i. (p, i) \<in> free_blocks s \<Longrightarrow> \<not> pg_used (PAGES s p) \<and> pg_in_list (PAGES s p) \<and> pg_index (PAGES s p) = i"
    and "\<And>p i. (p, i) \<in> free_blocks s \<union> U \<Longrightarrow> blk_ok al (reg s) p i"
  shows "pm_wf al s U"
  unfolding pm_wf_def by (intro conjI allI ballI assms(1-3); clarify; use assms(4,5) in blast)

text \<open>One split: the second half goes to the free lists, the first half stays taken.\<close>

lemma split_step:
  assumes wf: "pm_wf al s (insert (p, Suc i) U)" and "(p, Suc i) \<notin> U"
    and used: "\<And>q. pg_used (PAGES s q) \<Longrightarrow> q = p \<or> (q, pg_index (PAGES s q)) \<in> U"
  defines "s' \<equiv> upd_page (p + 2 ^ i) (\<lambda>g. g\<lparr>pg_in_list := True\<rparr>)
     (pm_push i (p + 2 ^ i) (upd_page (p + 2 ^ i) (\<lambda>g. g\<lparr>pg_index := i\<rparr>) s))"
  shows "pm_wf al s' (insert (p, i) U)" and "(p, i) \<notin> U" and "free_blocks s' = insert (p + 2 ^ i, i) (free_blocks s)"
    and "\<And>q. q \<noteq> p + 2 ^ i \<Longrightarrow> PAGES s' q = PAGES s q" and "\<not> pg_used (PAGES s' (p + 2 ^ i))" and "\<not> pg_used (PAGES s (p + 2 ^ i))"
    and "reg s' = reg s"
proof -
  let ?h = "p + 2 ^ i"
  have D: "disj (insert (p, Suc i) (free_blocks s \<union> U))" and n: "(p, Suc i) \<notin> free_blocks s \<union> U"
    using pm_wfD(2,3) [OF wf] assms(2) by auto
  note S = disj_split [OF D n]
  have hp: "?h \<noteq> p" and hb: "?h \<in> blk p (Suc i)" by (auto simp: blk_def)
  have nu: "\<not> pg_used (PAGES s ?h)"
  proof
    assume "pg_used (PAGES s ?h)"
    then have "(?h, pg_index (PAGES s ?h)) \<in> U" using used hp by blast
    then show False using disjD [OF D, of p "Suc i" ?h "pg_index (PAGES s ?h)" ?h] hp hb by simp
  qed
  have nf: "(?h, j) \<notin> free_blocks s" for j
    using disjD [OF D, of p "Suc i" ?h j ?h] hp hb by auto
  show fb: "free_blocks s' = insert (?h, i) (free_blocks s)" by (simp add: s'_def)
  show pg: "\<And>q. q \<noteq> ?h \<Longrightarrow> PAGES s' q = PAGES s q" and nu': "\<not> pg_used (PAGES s' ?h)" and "\<not> pg_used (PAGES s ?h)"
    and rs: "reg s' = reg s" and "(p, i) \<notin> U"
    using nu S(2) by (simp_all add: s'_def)
  have hi: "pg_in_list (PAGES s' ?h)" "pg_index (PAGES s' ?h) = i" by (simp_all add: s'_def)
  show "pm_wf al s' (insert (p, i) U)"
  proof (rule pm_wfI)
    show "distinct (FREELISTS s' k)" for k
      using pm_wfD(1) [OF wf, of k] nf [of i] by (auto simp: s'_def pm_push_def free_blocks_def)
    have "free_blocks s' \<union> insert (p, i) U = insert (?h, i) (insert (p, i) (free_blocks s \<union> U))" unfolding fb by auto
    then show "disj (free_blocks s' \<union> insert (p, i) U)" using S(1) by simp
    show "free_blocks s' \<inter> insert (p, i) U = {}" using pm_wfD(3) [OF wf] S(2,3) hp unfolding fb by auto
    show "\<not> pg_used (PAGES s' q) \<and> pg_in_list (PAGES s' q) \<and> pg_index (PAGES s' q) = j" if "(q, j) \<in> free_blocks s'" for q j
    proof (cases "q = ?h")
      case True
      then show ?thesis using that nf nu' hi unfolding fb by blast
    next
      case False
      then have "(q, j) \<in> free_blocks s" using that unfolding fb by blast
      then show ?thesis using pm_wfD(4) [OF wf] pg [OF False] by metis
    qed
    have "blk_ok al (reg s) p (Suc i)" using pm_wfD(6) [OF wf] by blast
    from blk_ok_split [OF this] show "blk_ok al (reg s') q j" if "(q, j) \<in> free_blocks s' \<union> insert (p, i) U" for q j
      using that pm_wfD(5,6) [OF wf] unfolding fb rs by blast
  qed
qed

lemma split_down_wf:
  assumes "pm_wf al s (insert (p, i) U)" and "(p, i) \<notin> U" and "index \<le> i"
    and "\<And>q. pg_used (PAGES s q) \<Longrightarrow> q = p \<or> (q, pg_index (PAGES s q)) \<in> U"
  shows "pm_wf al (split_down i index p s) (insert (p, index) U) \<and> (p, index) \<notin> U \<and>
    (\<forall>q. pg_used (PAGES (split_down i index p s) q) = pg_used (PAGES s q)) \<and>
    (\<forall>q. pg_used (PAGES s q) \<longrightarrow> PAGES (split_down i index p s) q = PAGES s q) \<and>
    pages_of (free_blocks (split_down i index p s) \<union> insert (p, index) U) = pages_of (free_blocks s \<union> insert (p, i) U) \<and>
    reg (split_down i index p s) = reg s \<and> P_REGIONS (split_down i index p s) = P_REGIONS s"
  using assms
proof (induction i arbitrary: s)
  case (Suc i)
  show ?case
  proof (cases "Suc i > index")
    case True
    define s' where "s' = upd_page (p + 2 ^ i) (\<lambda>g. g\<lparr>pg_in_list := True\<rparr>)
      (pm_push i (p + 2 ^ i) (upd_page (p + 2 ^ i) (\<lambda>g. g\<lparr>pg_index := i\<rparr>) s))"
    note st = split_step [OF Suc.prems(1,2,4), folded s'_def]
    have e: "split_down (Suc i) index p s = split_down i index p s'" using True by (simp add: s'_def Let_def index_to_size_def)
    have u: "pg_used (PAGES s' q) = pg_used (PAGES s q)" for q using st(4,5,6) by metis
    have u2: "PAGES s' q = PAGES s q" if "pg_used (PAGES s q)" for q using st(4,6) that by metis
    have "q = p \<or> (q, pg_index (PAGES s' q)) \<in> U" if "pg_used (PAGES s' q)" for q
      using that Suc.prems(4) [of q] u u2 by metis
    note IH = Suc.IH [OF st(1,2) _ this]
    have "pages_of (free_blocks s' \<union> insert (p, i) U) = pages_of (insert (p + 2 ^ i, i) (insert (p, i) (free_blocks s \<union> U)))"
      by (rule arg_cong [of _ _ pages_of]) (simp add: s'_def insert_commute)
    also have "\<dots> = pages_of (free_blocks s \<union> insert (p, Suc i) U)" unfolding pages_of_split by simp
    finally show ?thesis using IH True u u2 st(7) unfolding e by (simp add: s'_def)
  next
    case False
    then have "index = Suc i" using Suc.prems(3) by simp
    then show ?thesis using Suc.prems by simp
  qed
qed simp

definition pm_inv :: "bool \<Rightarrow> pmem \<Rightarrow> bool" where
  "pm_inv al s \<longleftrightarrow> pm_wf al s (used_blocks s) \<and> (\<forall>p. pg_used (PAGES s p) \<longrightarrow> \<not> pg_in_list (PAGES s p))"

text \<open>What an operation that takes the block \<open>b\<close> out of the free lists leaves.\<close>

definition taken :: "bool \<Rightarrow> nat \<times> nat \<Rightarrow> pmem \<Rightarrow> pmem \<Rightarrow> bool" where
  "taken al b s s' \<longleftrightarrow> pm_inv al s' \<and> b \<notin> used_blocks s \<and> used_blocks s' = insert b (used_blocks s) \<and>
     pages_of (free_blocks s' \<union> used_blocks s') = pages_of (free_blocks s \<union> used_blocks s) \<and>
     reg s' = reg s \<and> P_REGIONS s' = P_REGIONS s"

lemma take_last:
  assumes inv: "pm_inv al s" and ne: "FREELISTS s i \<noteq> []" and "k \<le> i"
  defines "p \<equiv> last (FREELISTS s i)"
  defines "s1 \<equiv> upd_page p (\<lambda>g. g\<lparr>pg_in_list := False, pg_used := True, pg_index := k\<rparr>) (pm_pop i s)"
  shows "taken al (p, k) s (split_down i k p s1)"
proof -
  have wf: "pm_wf al s (used_blocks s)" and ui: "\<And>p. pg_used (PAGES s p) \<Longrightarrow> \<not> pg_in_list (PAGES s p)"
    using inv by (auto simp: pm_inv_def)
  have pf: "(p, i) \<in> free_blocks s" using ne by (simp add: free_blocks_def p_def)
  have pu: "\<not> pg_used (PAGES s p)" using pm_wfD(4) [OF wf pf] by blast
  then have nu: "(p, j) \<notin> used_blocks s" for j by (simp add: used_blocks_def)
  have fb: "free_blocks s1 = free_blocks s - {(p, i)}"
    using free_blocks_pop [OF pm_wfD(1) [OF wf] ne] by (simp add: s1_def p_def)
  have un: "free_blocks s1 \<union> insert (p, i) (used_blocks s) = free_blocks s \<union> used_blocks s" using pf unfolding fb by blast
  have rs: "reg s1 = reg s" by (simp add: s1_def)
  have pne: "q \<noteq> p" if "(q, j) \<in> free_blocks s1" for q j
  proof
    assume "q = p"
    then have "(p, j) \<in> free_blocks s" "j \<noteq> i" using that unfolding fb by auto
    then show False using pm_wfD(4) [OF wf pf] pm_wfD(4) [OF wf, of p j] by simp
  qed
  have w1: "pm_wf al s1 (insert (p, i) (used_blocks s))"
  proof (rule pm_wfI)
    show "distinct (FREELISTS s1 j)" for j
      using pm_wfD(1) [OF wf, of j] pm_wfD(1) [OF wf, of i] by (auto simp: s1_def pm_pop_def distinct_butlast)
    show "disj (free_blocks s1 \<union> insert (p, i) (used_blocks s))" unfolding un by (rule pm_wfD(2) [OF wf])
    show "free_blocks s1 \<inter> insert (p, i) (used_blocks s) = {}" using pm_wfD(3) [OF wf] unfolding fb by blast
    show "\<not> pg_used (PAGES s1 q) \<and> pg_in_list (PAGES s1 q) \<and> pg_index (PAGES s1 q) = j" if "(q, j) \<in> free_blocks s1" for q j
    proof -
      have "PAGES s1 q = PAGES s q" using pne [OF that] by (simp add: s1_def)
      moreover have "(q, j) \<in> free_blocks s" using that unfolding fb by blast
      ultimately show ?thesis using pm_wfD(4) [OF wf] by metis
    qed
    show "blk_ok al (reg s1) q j" if "(q, j) \<in> free_blocks s1 \<union> insert (p, i) (used_blocks s)" for q j
      using that pm_wfD(5,6) [OF wf] unfolding un rs by blast
  qed
  have u1: "q = p \<or> (q, pg_index (PAGES s1 q)) \<in> used_blocks s" if "pg_used (PAGES s1 q)" for q
    using that by (auto simp: s1_def used_blocks_def split: if_splits)
  define s2 where "s2 = split_down i k p s1"
  note sd = split_down_wf [OF w1 nu assms(3) u1, folded s2_def]
  have up: "pg_used (PAGES s2 q) \<longleftrightarrow> q = p \<or> pg_used (PAGES s q)" for q using sd by (simp add: s1_def)
  have ix: "PAGES s2 q = PAGES s1 q" if "q = p \<or> pg_used (PAGES s q)" for q
  proof -
    have "pg_used (PAGES s1 q)" using that by (auto simp: s1_def)
    then show ?thesis using sd by blast
  qed
  have ub: "used_blocks s2 = insert (p, k) (used_blocks s)"
    using up ix pu by (auto simp: used_blocks_def s1_def split: if_splits)
  have "\<not> pg_in_list (PAGES s2 q)" if "pg_used (PAGES s2 q)" for q
    using that up ix ui by (auto simp: s1_def)
  then have "pm_inv al s2" unfolding pm_inv_def ub using sd by blast
  moreover have "pages_of (free_blocks s2 \<union> used_blocks s2) = pages_of (free_blocks s \<union> used_blocks s)"
    unfolding ub un [symmetric] using sd by blast
  moreover have "reg s2 = reg s" "P_REGIONS s2 = P_REGIONS s" using sd rs by (auto simp: s1_def)
  ultimately show ?thesis unfolding taken_def s2_def [symmetric] using ub nu by blast
qed

lemma split_down_same: "split_down i i p s = s"
  by (cases i) auto

lemma freelist_get_cases:
  assumes inv: "pm_inv al s" and "index < 14"
  shows "(freelist_get index s = Some (None, s) \<and> (\<forall>i. index \<le> i \<and> i < 14 \<longrightarrow> FREELISTS s i = [])) \<or>
    (\<exists>p s'. freelist_get index s = Some (Some p, s') \<and> taken al (p, index) s s')"
proof (cases "FREELISTS s index = []")
  case False
  let ?p = "last (FREELISTS s index)"
  have pf: "(?p, index) \<in> free_blocks s" using False by (simp add: free_blocks_def)
  have "pm_wf al s (used_blocks s)" using inv by (simp add: pm_inv_def)
  then have "pg_index (PAGES s ?p) = index" using pm_wfD(4) pf by blast
  then have "upd_page ?p (\<lambda>g. g\<lparr>pg_used := True, pg_in_list := False\<rparr>) (pm_pop index s) =
      upd_page ?p (\<lambda>g. g\<lparr>pg_in_list := False, pg_used := True, pg_index := index\<rparr>) (pm_pop index s)"
    by (simp add: upd_page_def pm_pop_def fun_upd_def fun_eq_iff)
  then show ?thesis using False assms(2) take_last [OF inv False, of index]
    by (simp add: freelist_get_def PM_FREELIST_COUNT_def Let_def split_down_same)
next
  case True
  show ?thesis
  proof (cases "List.find (\<lambda>i. FREELISTS s i \<noteq> []) [index + 1 ..< PM_FREELIST_COUNT]")
    case None
    then have "FREELISTS s i = []" if "index \<le> i" "i < 14" for i
      using True that by (cases "i = index") (auto simp: find_None_iff PM_FREELIST_COUNT_def)
    then show ?thesis using None True assms(2) by (simp add: freelist_get_def PM_FREELIST_COUNT_def)
  next
    case (Some j)
    then have j: "FREELISTS s j \<noteq> []" "index \<le> j" by (auto simp: find_Some_iff)
    then show ?thesis using Some True assms(2) take_last [OF inv j]
      by (simp add: freelist_get_def PM_FREELIST_COUNT_def Let_def)
  qed
qed

lemma pm_size_to_index_eq: "count \<noteq> 0 \<Longrightarrow> pm_size_to_index count = bit_len (unat count - 1)"
proof -
  assume "count \<noteq> 0"
  then have "unat (count - 1) = unat count - 1" by (metis unat_minus_one)
  moreover have "bit_len (unat (count - 1)) \<le> 64" using bit_len_word [of "count - 1"] by simp
  ultimately show ?thesis by (simp add: pm_size_to_index_def countl_zero_eq)
qed

lemma pm_size_to_index_bounds:
  assumes "count \<noteq> 0"
  shows "unat count \<le> 2 ^ pm_size_to_index count" and "pm_size_to_index count < 14 \<longleftrightarrow> unat count \<le> 8192"
proof -
  have c: "0 < unat count" using assms by (simp add: unat_gt_0)
  show "unat count \<le> 2 ^ pm_size_to_index count"
    using bit_len_less [of "unat count - 1"] c by (simp add: pm_size_to_index_eq [OF assms])
  have "bit_len (unat count - 1) \<le> 13 \<longleftrightarrow> unat count - 1 < 8192" using bit_len_le_iff [of "unat count - 1" 13] by simp
  then show "pm_size_to_index count < 14 \<longleftrightarrow> unat count \<le> 8192" using c unfolding pm_size_to_index_eq [OF assms] by linarith
qed

lemma taken_fresh:
  assumes "taken al (p, i) s s'"
  shows "blk p i \<inter> pages_of (used_blocks s) = {}" and "0 < p"
proof -
  have wf: "pm_wf al s' (insert (p, i) (used_blocks s))" and n: "(p, i) \<notin> used_blocks s"
    using assms by (auto simp: taken_def pm_inv_def)
  show "0 < p" using pm_wfD(6) [OF wf, of p i] by (simp add: blk_ok_def)
  show "blk p i \<inter> pages_of (used_blocks s) = {}"
  proof (rule ccontr)
    assume "blk p i \<inter> pages_of (used_blocks s) \<noteq> {}"
    then obtain x q j where "x \<in> blk p i" "x \<in> blk q j" "(q, j) \<in> used_blocks s" by (auto simp: pages_of_def)
    then show False using disjD [OF pm_wfD(2) [OF wf], of p i q j x] n by auto
  qed
qed

lemma reg_used_mem [simp]: "reg (s\<lparr>USED_MEMORY := x\<rparr>) = reg s"
  by (rule ext) (simp add: reg_def)

lemma used_mem_upd [simp]:
  "pm_inv al (s\<lparr>USED_MEMORY := x\<rparr>) = pm_inv al s" "used_blocks (s\<lparr>USED_MEMORY := x\<rparr>) = used_blocks s"
  "free_blocks (s\<lparr>USED_MEMORY := x\<rparr>) = free_blocks s" "taken al b s (s'\<lparr>USED_MEMORY := x\<rparr>) = taken al b s s'"
  by (simp_all add: pm_inv_def pm_wf_def used_blocks_def free_blocks_def taken_def)

lemma pmalloc_cases:
  assumes "pm_inv al s" and "count \<noteq> 0" and "unat count \<le> 8192"
  shows "(pmalloc count s = Some (0, s) \<and> (\<forall>i. pm_size_to_index count \<le> i \<and> i < 14 \<longrightarrow> FREELISTS s i = [])) \<or>
    (\<exists>p s'. pmalloc count s = Some (p * 4096, s') \<and> 0 < p \<and> taken al (p, pm_size_to_index count) s s')"
proof -
  have "pm_size_to_index count < 14" using pm_size_to_index_bounds(2) [OF assms(2)] assms(3) by simp
  from freelist_get_cases [OF assms(1) this] show ?thesis
    using assms(2) taken_fresh(2) by (auto simp: pmalloc_def)
qed

lemma smaller_block:
  assumes "count \<noteq> 0" and "i < pm_size_to_index count"
  shows "2 ^ i < unat count"
proof -
  have "2 ^ i \<le> unat count - 1" using assms bit_len_le_iff [of "unat count - 1" i] by (simp add: pm_size_to_index_eq)
  moreover have "0 < unat count" using assms(1) by (simp add: unat_gt_0)
  ultimately show ?thesis by linarith
qed

lemma taken_free:
  assumes "taken al (p, i) s s'"
  shows "blk p i \<subseteq> pages_of (free_blocks s)"
proof -
  have "blk p i \<subseteq> pages_of (free_blocks s \<union> used_blocks s)"
    using assms unfolding taken_def pages_of_def by (metis (no_types, lifting) UN_upper UnCI case_prod_conv insertI1)
  then show ?thesis using taken_fresh(1) [OF assms] by (auto simp: pages_of_def)
qed

lemma pages_of_insert: "pages_of (insert (p, i) B) = blk p i \<union> pages_of B"
  by (simp add: pages_of_def)

interpretation pma: page_source "alloc_page H" "\<lambda>s. pm_inv False s \<and> H mod 4096 = 0" "\<lambda>s. (\<lambda>q. q * 4096 + H) ` pages_of (used_blocks s)" for H
proof unfold_locales
  have i1: "pm_size_to_index 1 = 0" using pm_size_to_index_eq [of 1] by simp
  fix s r s' assume inv: "pm_inv False s \<and> H mod 4096 = 0"
  note c = pmalloc_cases [of False s 1, unfolded i1]
  show "(pm_inv False s' \<and> H mod 4096 = 0) \<and> (\<lambda>q. q * 4096 + H) ` pages_of (used_blocks s') = (\<lambda>q. q * 4096 + H) ` pages_of (used_blocks s)"
    if "alloc_page H s = (None, s')"
    using c inv that by (auto simp: alloc_page_def taken_def)
  show "(pm_inv False s' \<and> H mod 4096 = 0) \<and> a \<notin> (\<lambda>q. q * 4096 + H) ` pages_of (used_blocks s) \<and>
      (\<lambda>q. q * 4096 + H) ` pages_of (used_blocks s') = insert a ((\<lambda>q. q * 4096 + H) ` pages_of (used_blocks s))"
    if al: "alloc_page H s = (Some a, s')" for a
  proof -
    obtain p where p: "a = p * 4096 + H" "taken False (p, 0) s s'"
      using c inv al by (auto simp: alloc_page_def)
    have "blk p 0 = {p}" by (auto simp: blk_def)
    then have "p \<notin> pages_of (used_blocks s)" using taken_fresh(1) [OF p(2)] by simp
    then show ?thesis using p \<open>blk p 0 = {p}\<close> inv by (auto simp: taken_def pages_of_insert)
  qed
  show "a mod 4096 = 0" if "a \<in> (\<lambda>q. q * 4096 + H) ` pages_of (used_blocks s)" for a
    using inv that by (auto simp: mod_add_eq [symmetric])
qed

section \<open>Freeing\<close>

definition covered :: "pmem \<Rightarrow> (nat \<times> nat) set \<Rightarrow> bool" where
  "covered s U \<longleftrightarrow> (\<forall>q. r_first (reg s q) \<le> q \<and> q < r_end (reg s q) \<longrightarrow> q \<in> pages_of (free_blocks s \<union> U))"

definition regions_ok :: "(nat \<Rightarrow> pregion) \<Rightarrow> bool" where
  "regions_ok R \<longleftrightarrow> (\<forall>p q. r_base (R p) div 4096 \<le> p \<and> p < r_end (R p) \<and> r_base (R p) div 4096 \<le> q \<and> q < r_end (R p) \<longrightarrow> R q = R p)"

text \<open>Aligned blocks, by their offset in units of their size.\<close>

lemma block_unit_cases:
  fixes i j c d :: nat
  assumes "2 ^ j * d \<le> 2 ^ i * c" and "2 ^ i * c < 2 ^ j * d + 2 ^ j" and "j \<le> i"
  shows "2 ^ j * d = 2 ^ i * c"
proof -
  obtain k where k: "i = j + k" using assms(3) by (metis le_Suc_ex)
  have "2 ^ j * d \<le> 2 ^ j * (2 ^ k * c)" "2 ^ j * (2 ^ k * c) < 2 ^ j * (d + 1)"
    using assms(1,2) by (simp_all add: k power_add algebra_simps)
  then have "d \<le> 2 ^ k * c" "2 ^ k * c < d + 1" by (auto simp only: mult_le_cancel1 mult_less_cancel1)
  then show ?thesis by (simp add: k power_add)
qed

lemma block_unit_parent:
  fixes i j a c d :: nat
  assumes "2 ^ j * d \<le> 2 ^ i * c" and "2 ^ i * c < 2 ^ j * d + 2 ^ j" and "i < j" and "a div 2 = c div 2"
  shows "2 ^ j * d \<le> 2 ^ i * a \<and> 2 ^ i * a < 2 ^ j * d + 2 ^ j"
proof -
  obtain k where k: "j = i + 1 + k" using assms(3) by (metis Suc_eq_plus1 Suc_leI le_Suc_ex)
  define m where "m = (2 :: nat) ^ k"
  have j: "(2 :: nat) ^ j = 2 ^ i * (2 * m)" by (simp add: k m_def power_add)
  have "2 ^ i * (2 * m * d) \<le> 2 ^ i * c" "2 ^ i * c < 2 ^ i * (2 * m * d + 2 * m)"
    using assms(1,2) unfolding j by (simp_all add: algebra_simps)
  then have "2 * m * d \<le> c" "c < 2 * m * d + 2 * m" by (auto simp only: mult_le_cancel1 mult_less_cancel1)
  moreover define M where "M = m * d"
  ultimately have "2 * M \<le> c" "c < 2 * (M + m)" by simp_all
  then have "2 * M \<le> a" "a < 2 * (M + m)" using assms(4) by presburger+
  then have "2 * (m * d) \<le> a" "a < 2 * (m * d + m)" by (simp_all add: M_def)
  then have "2 ^ i * (2 * (m * d)) \<le> 2 ^ i * a" "2 ^ i * a < 2 ^ i * (2 * (m * d + m))"
    by (auto simp only: mult_le_cancel1 mult_less_cancel1 zero_less_power zero_less_numeral)
  then show ?thesis unfolding j by (simp add: algebra_simps)
qed

lemma buddy_of_unit:
  assumes "r_first r \<le> p" and "2 ^ i dvd p - r_first r" and "buddy_of i p r = Some b"
  shows "\<exists>a c. p = r_first r + 2 ^ i * a \<and> b = r_first r + 2 ^ i * c \<and> a div 2 = c div 2 \<and> a \<noteq> c \<and>
    r_base r div 4096 \<le> b \<and> b < r_end r \<and> (b = p + 2 ^ i \<and> even a \<or> p = b + 2 ^ i \<and> even c)"
proof -
  obtain a where a: "p - r_first r = 2 ^ i * a" using assms(2) by (elim dvdE)
  then have p: "p = r_first r + 2 ^ i * a" using assms(1) by simp
  have "2 ^ i * a mod 2 ^ (i + 1) = 2 ^ i * (a mod 2)" by (simp only: power_add power_one_right mult_mod_right)
  then have m: "2 ^ i * a mod 2 ^ (i + 1) = 0 \<longleftrightarrow> even a"
    by (metis even_iff_mod_2_eq_zero mult_eq_0_iff power_not_zero zero_neq_numeral)
  have "int p - int (r_base r div 4096 + r_res_count r) = int (2 ^ i * a)" using p by (simp add: r_first_def)
  then have off: "(int p - int (r_base r div 4096 + r_res_count r)) mod int (2 ^ (i + 1)) \<noteq> 0 \<longleftrightarrow> 2 ^ i * a mod 2 ^ (i + 1) \<noteq> 0"
    by (simp only: zmod_int [symmetric] of_nat_eq_0_iff)
  show ?thesis
  proof (cases "even a")
    case True
    then have b: "b = p + 2 ^ i" "b - r_base r div 4096 < r_page_count r"
      using assms(3) unfolding buddy_of_def Let_def index_to_size_def off m by (simp_all add: True split: if_splits)
    then have "b = r_first r + 2 ^ i * (a + 1)" using p by simp
    moreover have "a div 2 = (a + 1) div 2" using True by auto
    moreover have "r_base r div 4096 \<le> b" using p b by (simp add: r_first_def)
    moreover have "b < r_end r" using b(2) calculation(3) by (simp add: r_end_def)
    moreover have "a \<noteq> a + 1" by simp
    ultimately show ?thesis using p b(1) True by blast
  next
    case False
    then obtain e where e: "a = 2 * e + 1" by (elim oddE)
    have b: "b = p - 2 ^ i" "b - r_base r div 4096 < r_page_count r" "r_base r div 4096 + 2 ^ i \<le> p"
      using assms(3) unfolding buddy_of_def Let_def index_to_size_def off m by (simp_all add: False split: if_splits)
    then have "b = r_first r + 2 ^ i * (2 * e)" "p = b + 2 ^ i" using p e by simp_all
    moreover have "r_base r div 4096 \<le> b" "b < r_end r" using b by (simp_all add: r_end_def)
    moreover have "a div 2 = 2 * e div 2" "a \<noteq> 2 * e" "even (2 * e)" using e by simp_all
    ultimately show ?thesis using p by blast
  qed
qed

text \<open>A buddy that is not in use and carries the same size is a free block of that size: a descriptor
  with a stale size cannot be mistaken for one when all blocks are aligned.\<close>

lemma buddy_free:
  assumes wf: "pm_wf True s (insert (p, i) U)" and cov: "covered s (insert (p, i) U)" and regs: "regions_ok (reg s)"
    and used: "\<forall>q j. (q, j) \<in> U \<longrightarrow> pg_used (PAGES s q)"
    and b: "buddy_of i p (reg s p) = Some b" and nb: "\<not> pg_used (PAGES s b)" and ib: "pg_index (PAGES s b) = i"
  shows "(b, i) \<in> free_blocks s" and "b = p + 2 ^ i \<or> p = b + 2 ^ i" and "reg s b = reg s p"
    and "2 ^ Suc i dvd min p b - r_first (reg s p)"
proof -
  define r where "r = reg s p"
  define F where "F = r_first r"
  have pok: "blk_ok True (reg s) p i" using pm_wfD(6) [OF wf] by blast
  then have pF: "F \<le> p" "2 ^ i dvd p - F" and pe: "p < r_end r" unfolding blk_ok_def r_def [symmetric] F_def
    by (auto simp: less_le_trans [of p "p + 2 ^ i"])
  obtain a c where u: "p = F + 2 ^ i * a" "b = F + 2 ^ i * c" "a div 2 = c div 2" "a \<noteq> c"
    and br: "r_base r div 4096 \<le> b" "b < r_end r" and sib: "b = p + 2 ^ i \<and> even a \<or> p = b + 2 ^ i \<and> even c"
    using buddy_of_unit [OF pF [unfolded F_def] b [folded r_def]] unfolding F_def [symmetric] by blast
  show "b = p + 2 ^ i \<or> p = b + 2 ^ i" using sib by blast
  have rp: "r_base r div 4096 \<le> p" using pF(1) by (simp add: F_def r_first_def)
  have "reg s b = reg s p" by (rule regs [unfolded regions_ok_def, rule_format]) (use br rp pe r_def in auto)
  then show rb: "reg s b = reg s p" .
  have bF: "F \<le> b" using u(2) by simp
  have "b \<in> pages_of (free_blocks s \<union> insert (p, i) U)"
    by (rule cov [unfolded covered_def, rule_format]) (use br bF rb in \<open>simp add: r_def F_def\<close>)
  then obtain q j where qj: "(q, j) \<in> free_blocks s \<union> insert (p, i) U" "b \<in> blk q j" by (auto simp: pages_of_def)
  have "b \<notin> blk p i" using sib by (auto simp: blk_def)
  then have ne: "(q, j) \<noteq> (p, i)" using qj(2) by blast
  have qok: "blk_ok True (reg s) q j" using pm_wfD(5,6) [OF wf] qj(1) by blast
  have "reg s b = reg s q" using qok qj(2) unfolding blk_ok_def by blast
  then have rq: "reg s q = r" using rb by (simp add: r_def)
  have "F \<le> q" "2 ^ j dvd q - F" using qok unfolding blk_ok_def rq F_def by auto
  then obtain d where d: "q = F + 2 ^ j * d" by (metis dvdE le_add_diff_inverse)
  have w: "2 ^ j * d \<le> 2 ^ i * c" "2 ^ i * c < 2 ^ j * d + 2 ^ j" using qj(2) u(2) d by (auto simp: blk_def)
  have "j \<le> i"
  proof (rule ccontr)
    assume "\<not> j \<le> i"
    then have "p \<in> blk q j" using block_unit_parent [OF w _ u(3)] u(1) d by (simp add: blk_def)
    then show False using disjD [OF pm_wfD(2) [OF wf], of p i q j p] qj(1) ne by simp
  qed
  then have "q = b" using block_unit_cases [OF w] u(2) d by simp
  then have "(b, j) \<in> free_blocks s" using qj(1) ne used nb by blast
  then show "(b, i) \<in> free_blocks s" using pm_wfD(4) [OF wf] ib by blast
  have "min p b - r_first (reg s p) = 2 ^ Suc i * (a div 2)"
    using sib u unfolding r_def [symmetric] F_def [symmetric] by (elim disjE conjE) (auto elim!: evenE)
  then show "2 ^ Suc i dvd min p b - r_first (reg s p)" by simp
qed

text \<open>A block on its way to the free lists, beside the blocks in use.\<close>

definition pending :: "pmem \<Rightarrow> nat \<Rightarrow> nat \<Rightarrow> bool" where
  "pending s p i \<longleftrightarrow> pm_wf True s (insert (p, i) (used_blocks s)) \<and> (p, i) \<notin> used_blocks s \<and>
     covered s (insert (p, i) (used_blocks s)) \<and> regions_ok (reg s) \<and> \<not> pg_used (PAGES s p) \<and> pg_index (PAGES s p) = i \<and>
     (\<forall>q. pg_used (PAGES s q) \<longrightarrow> \<not> pg_in_list (PAGES s q))"

lemma merge_step:
  assumes pe: "pending s p i" and "i < 13" and b: "buddy_of i p (reg s p) = Some b"
    and nb: "\<not> pg_used (PAGES s b)" and ib: "pg_index (PAGES s b) = i"
  defines "s' \<equiv> upd_page (min p b) (\<lambda>g. g\<lparr>pg_in_list := False, pg_index := i + 1\<rparr>)
     (upd_page b (\<lambda>g. g\<lparr>pg_in_list := False\<rparr>) (pm_remove i b s))"
  shows "pending s' (min p b) (Suc i)" and "pg_in_list (PAGES s b)" and "used_blocks s' = used_blocks s"
    and "free_blocks s = insert (b, i) (free_blocks s')"
proof -
  let ?U = "used_blocks s" and ?m = "min p b"
  have wf: "pm_wf True s (insert (p, i) ?U)" and np: "\<not> pg_used (PAGES s p)" and nU: "(p, i) \<notin> ?U"
    and cov: "covered s (insert (p, i) ?U)" and regs: "regions_ok (reg s)"
    and ui: "\<And>q. pg_used (PAGES s q) \<Longrightarrow> \<not> pg_in_list (PAGES s q)"
    using pe by (auto simp: pending_def)
  have used: "\<forall>q j. (q, j) \<in> ?U \<longrightarrow> pg_used (PAGES s q)" by (simp add: used_blocks_def)
  note B = buddy_free [OF wf cov regs used b nb ib]
  show "pg_in_list (PAGES s b)" using pm_wfD(4) [OF wf B(1)] by blast
  have bp: "b \<noteq> p" using B(2) by auto
  have fb: "free_blocks s' = free_blocks s - {(b, i)}"
    using free_blocks_remove [OF pm_wfD(1) [OF wf]] by (simp add: s'_def)
  then show fi: "free_blocks s = insert (b, i) (free_blocks s')" using B(1) by blast
  have un: "pg_used (PAGES s' q) = pg_used (PAGES s q)" for q by (auto simp: s'_def)
  have oth: "PAGES s' q = PAGES s q" if "q \<noteq> p" "q \<noteq> b" for q using that by (auto simp: s'_def min_def)
  have rs: "reg s' = reg s" by (simp add: s'_def)
  show ub: "used_blocks s' = ?U"
  proof -
    have "pg_used (PAGES s' q) \<and> j = pg_index (PAGES s' q) \<longleftrightarrow> pg_used (PAGES s q) \<and> j = pg_index (PAGES s q)" for q j
      using un [of q] oth [of q] np nb by metis
    then show ?thesis by (simp add: used_blocks_def)
  qed
  have nfU: "(p, i) \<notin> free_blocks s' \<union> ?U" "(b, i) \<notin> free_blocks s' \<union> ?U"
    using pm_wfD(3) [OF wf] nU used nb unfolding fb by auto
  have all: "insert (b, i) (insert (p, i) (free_blocks s' \<union> ?U)) = free_blocks s \<union> insert (p, i) ?U" using B(1) unfolding fb by blast
  have D: "disj (insert (?m + 2 ^ i, i) (insert (?m, i) (free_blocks s' \<union> ?U)))"
    and N: "(?m, i) \<notin> free_blocks s' \<union> ?U" "(?m + 2 ^ i, i) \<notin> free_blocks s' \<union> ?U"
    and pg: "pages_of (insert (?m + 2 ^ i, i) (insert (?m, i) (free_blocks s' \<union> ?U))) = pages_of (free_blocks s \<union> insert (p, i) ?U)"
  proof -
    have "insert (?m + 2 ^ i, i) (insert (?m, i) (free_blocks s' \<union> ?U)) = free_blocks s \<union> insert (p, i) ?U"
      using B(2) unfolding all [symmetric] by (elim disjE) (simp_all add: insert_commute)
    then show "disj (insert (?m + 2 ^ i, i) (insert (?m, i) (free_blocks s' \<union> ?U)))"
      "pages_of (insert (?m + 2 ^ i, i) (insert (?m, i) (free_blocks s' \<union> ?U))) = pages_of (free_blocks s \<union> insert (p, i) ?U)"
      using pm_wfD(2) [OF wf] by simp_all
    show "(?m, i) \<notin> free_blocks s' \<union> ?U" "(?m + 2 ^ i, i) \<notin> free_blocks s' \<union> ?U"
      using B(2) nfU by (elim disjE; simp)+
  qed
  note J = disj_join [OF D N]
  have okm: "blk_ok True (reg s) ?m (Suc i)"
  proof -
    have "blk_ok True (reg s) p i" "blk_ok True (reg s) b i" using pm_wfD(5,6) [OF wf] B(1) by blast+
    then have p: "0 < p" "r_first (reg s p) \<le> p" "p + 2 ^ i \<le> r_end (reg s p)" "\<forall>q \<in> blk p i. reg s q = reg s p"
      and q: "0 < b" "r_first (reg s p) \<le> b" "b + 2 ^ i \<le> r_end (reg s p)" "\<forall>q \<in> blk b i. reg s q = reg s p"
      unfolding blk_ok_def B(3) by blast+
    have "blk ?m (Suc i) = blk p i \<union> blk b i" using B(2) by (elim disjE) (auto simp: blk_def)
    then have "\<forall>q \<in> blk ?m (Suc i). reg s q = reg s p" using p(4) q(4) by blast
    moreover have "?m + 2 ^ Suc i \<le> r_end (reg s p)" using p(3) q(3) B(2) by (elim disjE) simp_all
    moreover have "Suc i < 14" "0 < ?m" "r_first (reg s p) \<le> ?m" using assms(2) p(1,2) q(1,2) by simp_all
    moreover have rm: "reg s ?m = reg s p" using B(3) by (simp add: min_def)
    ultimately show ?thesis unfolding blk_ok_def rm using B(4) by blast
  qed
  have w': "pm_wf True s' (insert (?m, Suc i) ?U)"
  proof (rule pm_wfI)
    show "distinct (FREELISTS s' j)" for j
      using pm_wfD(1) [OF wf, of j] pm_wfD(1) [OF wf, of i] by (auto simp: s'_def pm_remove_def)
    show "disj (free_blocks s' \<union> insert (?m, Suc i) ?U)" using J(1) by simp
    show "free_blocks s' \<inter> insert (?m, Suc i) ?U = {}" using J(2) pm_wfD(3) [OF wf] unfolding fb by blast
    show "\<not> pg_used (PAGES s' q) \<and> pg_in_list (PAGES s' q) \<and> pg_index (PAGES s' q) = j" if "(q, j) \<in> free_blocks s'" for q j
    proof -
      have f: "(q, j) \<in> free_blocks s" "(q, j) \<noteq> (b, i)" using that unfolding fb by auto
      have "q \<noteq> b" using f pm_wfD(4) [OF wf f(1)] ib by auto
      moreover have "q \<noteq> p" using disjD [OF pm_wfD(2) [OF wf], of p i q j p] f(1) pm_wfD(3) [OF wf] by auto
      ultimately show ?thesis using oth pm_wfD(4) [OF wf f(1)] by metis
    qed
    show "blk_ok True (reg s') q j" if "(q, j) \<in> free_blocks s' \<union> insert (?m, Suc i) ?U" for q j
      using that okm pm_wfD(5,6) [OF wf] unfolding rs fb by blast
  qed
  have c': "covered s' (insert (?m, Suc i) ?U)"
    using cov pg unfolding covered_def rs pages_of_split by simp
  have "\<not> pg_in_list (PAGES s' q)" if "pg_used (PAGES s' q)" for q
    using that un [of q] oth [of q] ui [of q] np nb by metis
  moreover have "\<not> pg_used (PAGES s' ?m)" using un [of ?m] np nb by (simp add: min_def)
  moreover have "pg_index (PAGES s' ?m) = Suc i" by (simp add: s'_def)
  ultimately show "pending s' ?m (Suc i)"
    unfolding pending_def ub using w' c' J(2) regs rs by simp
qed

declare pm_merge.simps [simp del]

lemma pm_merge_pending:
  assumes "pending s p i" and "i < 14" and "pm_merge i p s = (i', p', s')"
  shows "pending s' p' i' \<and> i' < 14 \<and> used_blocks s' = used_blocks s \<and> reg s' = reg s \<and> P_REGIONS s' = P_REGIONS s \<and>
    pages_of (insert (p', i') (free_blocks s')) = pages_of (insert (p, i) (free_blocks s))"
  using assms
proof (induction i p s rule: pm_merge.induct)
  case (1 i p s)
  show ?case
  proof (cases "i < 13 \<and> (\<exists>b. buddy_of i p (reg s p) = Some b \<and> \<not> pg_used (PAGES s b) \<and> pg_index (PAGES s b) = i)")
    case False
    then have "pm_merge i p s = (i, p, s)" using "1.prems"(1)
      by (subst pm_merge.simps) (auto simp: PM_FREELIST_COUNT_def reg_def pending_def split: option.splits)
    then show ?thesis using "1.prems" by simp
  next
    case True
    then obtain b where i13: "i < 13" and b: "buddy_of i p (reg s p) = Some b" "\<not> pg_used (PAGES s b)" "pg_index (PAGES s b) = i"
      by blast
    have ip: "pg_index (PAGES s p) = i" using "1.prems"(1) by (simp add: pending_def)
    define t0 where "t0 = upd_page b (\<lambda>g. g\<lparr>pg_in_list := False\<rparr>) (pm_remove i b s)"
    define t where "t = upd_page (min p b) (\<lambda>g. g\<lparr>pg_in_list := False, pg_index := i + 1\<rparr>) t0"
    note M = merge_step [OF "1.prems"(1) i13 b, folded t0_def, folded t_def]
    have e: "pm_merge i p s = pm_merge (i + 1) (min p b) t"
      using i13 b M(2) ip by (subst pm_merge.simps) (simp add: PM_FREELIST_COUNT_def reg_def [symmetric] t_def t0_def Let_def)
    have IH: "pending s' p' i' \<and> i' < 14 \<and> used_blocks s' = used_blocks t \<and> reg s' = reg t \<and> P_REGIONS s' = P_REGIONS t \<and>
      pages_of (insert (p', i') (free_blocks s')) = pages_of (insert (min p b, i + 1) (free_blocks t))"
      using i13 b M ip "1.prems"(3) e
      by (intro "1.IH" [of b t0 "min p b" t]) (simp_all add: PM_FREELIST_COUNT_def reg_def [symmetric] t0_def [symmetric], simp add: t_def)
    have "pages_of (insert (min p b, i + 1) (free_blocks t)) = pages_of (insert (p, i) (free_blocks s))"
    proof -
      have "b = p + 2 ^ i \<or> p = b + 2 ^ i" using "1.prems"(1) b
        by (intro buddy_free(2) [of s p i "used_blocks s" b]) (auto simp: pending_def used_blocks_def)
      then have "insert (p, i) (free_blocks s) = insert (min p b + 2 ^ i, i) (insert (min p b, i) (free_blocks t))"
        unfolding M(4) by (elim disjE) (simp_all add: insert_commute)
      then show ?thesis by (simp add: pages_of_split)
    qed
    then show ?thesis using IH M(3) by (simp add: t_def t0_def)
  qed
qed

lemma push_inv:
  assumes "pending s p i"
  defines "s' \<equiv> pm_push i p (upd_page p (\<lambda>g. g\<lparr>pg_in_list := True\<rparr>) s)"
  shows "pm_inv True s'" and "used_blocks s' = used_blocks s" and "free_blocks s' = insert (p, i) (free_blocks s)"
    and "covered s' (used_blocks s')" and "reg s' = reg s"
proof -
  have wf: "pm_wf True s (insert (p, i) (used_blocks s))" and np: "\<not> pg_used (PAGES s p)" "pg_index (PAGES s p) = i"
    and nU: "(p, i) \<notin> used_blocks s" and cov: "covered s (insert (p, i) (used_blocks s))"
    and ui: "\<And>q. pg_used (PAGES s q) \<Longrightarrow> \<not> pg_in_list (PAGES s q)"
    using assms by (auto simp: pending_def)
  show fb: "free_blocks s' = insert (p, i) (free_blocks s)" and rs: "reg s' = reg s" by (simp_all add: s'_def)
  have pg: "pg_used (PAGES s' q) = pg_used (PAGES s q)" "pg_index (PAGES s' q) = pg_index (PAGES s q)"
    "pg_in_list (PAGES s' q) \<longleftrightarrow> q = p \<or> pg_in_list (PAGES s q)" for q by (auto simp: s'_def)
  show ub: "used_blocks s' = used_blocks s" by (simp add: used_blocks_def pg)
  have "free_blocks s' \<union> used_blocks s = free_blocks s \<union> insert (p, i) (used_blocks s)" unfolding fb by simp
  then show "covered s' (used_blocks s')" using cov unfolding covered_def rs ub by simp
  have "(p, i) \<notin> free_blocks s" using pm_wfD(3) [OF wf] by blast
  then have "pm_wf True s' (used_blocks s)"
  proof (intro pm_wfI)
    show "distinct (FREELISTS s' j)" for j
      using pm_wfD(1) [OF wf, of j] \<open>(p, i) \<notin> free_blocks s\<close> by (auto simp: s'_def pm_push_def free_blocks_def)
    show "disj (free_blocks s' \<union> used_blocks s)" using pm_wfD(2) [OF wf] unfolding fb by simp
    show "free_blocks s' \<inter> used_blocks s = {}" using pm_wfD(3) [OF wf] nU unfolding fb by blast
    show "\<not> pg_used (PAGES s' q) \<and> pg_in_list (PAGES s' q) \<and> pg_index (PAGES s' q) = j" if "(q, j) \<in> free_blocks s'" for q j
      using that pm_wfD(4) [OF wf, of q j] np unfolding fb pg by blast
    show "blk_ok True (reg s') q j" if "(q, j) \<in> free_blocks s' \<union> used_blocks s" for q j
      using that pm_wfD(5,6) [OF wf] unfolding fb rs by blast
  qed
  then show "pm_inv True s'" unfolding pm_inv_def ub using ui np pg by metis
qed

text \<open>The full invariant, with the alignment of blocks, the cover of every region by blocks, and the
  list of regions.\<close>

definition pm_full :: "pmem \<Rightarrow> bool" where
  "pm_full s \<longleftrightarrow> pm_inv True s \<and> covered s (used_blocks s) \<and> regions_ok (reg s) \<and>
     (\<forall>r \<in> set (P_REGIONS s). r_base r mod 4096 = 0) \<and>
     (\<forall>q. r_first (reg s q) \<le> q \<and> q < r_end (reg s q) \<longrightarrow> reg s q \<in> set (P_REGIONS s))"

lemma blk_ok_range:
  assumes "blk_ok al R p i"
  shows "r_first (R p) \<le> p" and "p < r_end (R p)"
proof -
  have "r_first (R p) \<le> p" "p + 2 ^ i \<le> r_end (R p)" using assms unfolding blk_ok_def by blast+
  moreover have "p < p + 2 ^ i" by simp
  ultimately show "r_first (R p) \<le> p" "p < r_end (R p)" by linarith+
qed

lemma from_phys_eq:
  assumes "pm_full s" and "(p, i) \<in> used_blocks s"
  shows "from_phys (p * 4096) s = Some p"
proof -
  have "blk_ok True (reg s) p i" using assms pm_wfD(6) unfolding pm_full_def pm_inv_def by blast
  then have p: "r_first (reg s p) \<le> p" "p < r_end (reg s p)" by (rule blk_ok_range)+
  then have m: "reg s p \<in> set (P_REGIONS s)" and al: "\<And>r. r \<in> set (P_REGIONS s) \<Longrightarrow> r_base r mod 4096 = 0"
    using assms(1) unfolding pm_full_def by blast+
  obtain k where k: "r_base (reg s p) = 4096 * k" using al [OF m] by auto
  have "r_base (reg s p) \<le> p * 4096 \<and> p * 4096 < r_base (reg s p) + r_page_count (reg s p) * 4096"
    using p by (simp add: k r_first_def r_end_def)
  then obtain r where r: "List.find (\<lambda>r. r_base r \<le> p * 4096 \<and> p * 4096 < r_base r + r_page_count r * 4096) (P_REGIONS s) = Some r"
    using m by (cases "List.find (\<lambda>r. r_base r \<le> p * 4096 \<and> p * 4096 < r_base r + r_page_count r * 4096) (P_REGIONS s)")
      (auto simp: find_None_iff)
  then have "r \<in> set (P_REGIONS s)" "r_base r \<le> p * 4096" by (auto simp: find_Some_iff)
  then obtain l where l: "r_base r = 4096 * l" "l \<le> p" using al [of r] by auto
  then have "(p * 4096 - 4096 * l) div 4096 = p - l" by (simp add: diff_mult_distrib [symmetric] mult.commute [of 4096])
  then show ?thesis using r l by (simp add: from_phys_def)
qed

lemma free_pending:
  assumes "pm_full s" and "(p, i) \<in> used_blocks s"
  defines "s1 \<equiv> upd_page p (\<lambda>g. g\<lparr>pg_used := False, pg_index := i\<rparr>) s"
  shows "pending s1 p i" and "used_blocks s1 = used_blocks s - {(p, i)}"
proof -
  have wf: "pm_wf True s (used_blocks s)" and cov: "covered s (used_blocks s)" and regs: "regions_ok (reg s)"
    and ui: "\<And>q. pg_used (PAGES s q) \<Longrightarrow> \<not> pg_in_list (PAGES s q)" using assms(1) by (auto simp: pm_full_def pm_inv_def)
  have rs: "reg s1 = reg s" and fb: "free_blocks s1 = free_blocks s" by (simp_all add: s1_def)
  show ub: "used_blocks s1 = used_blocks s - {(p, i)}" using assms(2) by (auto simp: s1_def used_blocks_def split: if_splits)
  then have ins: "insert (p, i) (used_blocks s1) = used_blocks s" using assms(2) by blast
  have "pm_wf True s1 (used_blocks s)"
  proof (rule pm_wfI)
    show "\<not> pg_used (PAGES s1 q) \<and> pg_in_list (PAGES s1 q) \<and> pg_index (PAGES s1 q) = j" if "(q, j) \<in> free_blocks s1" for q j
    proof -
      have "q \<noteq> p" using that pm_wfD(4) [OF wf, of q j] assms(2) unfolding fb by (auto simp: used_blocks_def)
      then show ?thesis using that pm_wfD(4) [OF wf, of q j] unfolding fb by (simp add: s1_def)
    qed
    show "distinct (FREELISTS s1 j)" for j using pm_wfD(1) [OF wf] by (simp add: s1_def)
    show "disj (free_blocks s1 \<union> used_blocks s)" unfolding fb by (rule pm_wfD(2) [OF wf])
    show "free_blocks s1 \<inter> used_blocks s = {}" unfolding fb by (rule pm_wfD(3) [OF wf])
    show "blk_ok True (reg s1) q j" if "(q, j) \<in> free_blocks s1 \<union> used_blocks s" for q j
      using that pm_wfD(5,6) [OF wf] unfolding fb rs by blast
  qed
  moreover have "covered s1 (used_blocks s)" using cov by (simp add: covered_def rs fb)
  moreover have "\<not> pg_used (PAGES s1 p)" "pg_index (PAGES s1 p) = i" by (simp_all add: s1_def)
  moreover have "\<not> pg_in_list (PAGES s1 q)" if "pg_used (PAGES s1 q)" for q using that ui by (auto simp: s1_def split: if_splits)
  moreover have "(p, i) \<notin> used_blocks s1" unfolding ub by blast
  ultimately show "pending s1 p i" unfolding pending_def ins rs using regs by blast
qed

lemma pm_full_used_mem [simp]: "pm_full (s\<lparr>USED_MEMORY := x\<rparr>) = pm_full s"
  by (simp add: pm_full_def covered_def)

lemma taken_full: "pm_full s \<Longrightarrow> taken True b s s' \<Longrightarrow> pm_full s'"
  by (auto simp: pm_full_def taken_def covered_def simp del: Un_insert_right)

lemma freelist_insert_full:
  assumes full: "pm_full s" and p: "(p, i) \<in> used_blocks s"
  shows "pm_full (pm_freelist_insert i p s) \<and> used_blocks (pm_freelist_insert i p s) = used_blocks s - {(p, i)} \<and>
    pages_of (free_blocks (pm_freelist_insert i p s)) = blk p i \<union> pages_of (free_blocks s)"
proof -
  define s1 where "s1 = upd_page p (\<lambda>g. g\<lparr>pg_used := False, pg_index := i\<rparr>) s"
  note P = free_pending [OF full p, folded s1_def]
  have "blk_ok True (reg s) p i" using full p pm_wfD(6) unfolding pm_full_def pm_inv_def by blast
  then have i14: "i < 14" unfolding blk_ok_def by blast
  obtain i' p' s2 where m: "pm_merge i p s1 = (i', p', s2)" by (metis prod_cases3)
  note M = pm_merge_pending [OF P(1) i14 m]
  define s3 where "s3 = pm_push i' p' (upd_page p' (\<lambda>g. g\<lparr>pg_in_list := True\<rparr>) s2)"
  have p2: "pending s2 p' i'" using M by blast
  note I = push_inv [OF p2, folded s3_def]
  have e: "pm_freelist_insert i p s = s3" by (simp add: pm_freelist_insert_def s1_def [symmetric] m s3_def)
  have rs: "reg s3 = reg s" using I(5) M by (simp add: s1_def)
  have pr: "P_REGIONS s3 = P_REGIONS s" using M by (simp add: s3_def s1_def)
  have "pm_full s3" using full I(1,4) unfolding pm_full_def rs pr by blast
  moreover have "used_blocks s3 = used_blocks s - {(p, i)}" using I(2) M P(2) by simp
  moreover have "pages_of (free_blocks s3) = blk p i \<union> pages_of (free_blocks s)"
    using I(3) M by (simp add: s1_def pages_of_insert)
  ultimately show ?thesis unfolding e by blast
qed

lemma pfree_full:
  assumes "pm_full s" and "(p, pm_size_to_index count) \<in> used_blocks s"
  shows "\<exists>s'. pfree (p * 4096) count s = Some s' \<and> pm_full s' \<and> used_blocks s' = used_blocks s - {(p, pm_size_to_index count)} \<and>
    pages_of (free_blocks s') = blk p (pm_size_to_index count) \<union> pages_of (free_blocks s)"
proof -
  define t where "t = s\<lparr>USED_MEMORY := USED_MEMORY s - count * PAGE_SIZE\<rparr>"
  have u: "pg_used (PAGES s p)" "pg_index (PAGES s p) = pm_size_to_index count" using assms(2) by (auto simp: used_blocks_def)
  have "pfree (p * 4096) count s = Some (pm_freelist_insert (pm_size_to_index count) p t)"
    using from_phys_eq [OF assms] u by (simp add: pfree_def t_def)
  moreover have "pm_full t" "used_blocks t = used_blocks s" "free_blocks t = free_blocks s" using assms(1) by (simp_all add: t_def)
  ultimately show ?thesis using freelist_insert_full [of t p "pm_size_to_index count"] assms(2) by auto
qed

section \<open>Adding memory\<close>

lemma find_SomeD: "List.find P xs = Some x \<Longrightarrow> P x \<and> x \<in> set xs"
  by (induction xs) (auto split: if_splits)

lemma largest_block_ok:
  assumes "0 < n"
  shows "largest_block p n < 14" and "2 ^ largest_block p n \<le> n" and "2 ^ largest_block p n dvd p"
proof -
  define P where "P = (\<lambda>j. p * 4096 mod (index_to_size j * 4096) = 0 \<and> n \<ge> index_to_size j)"
  have st: "set (rev [0 ..< PM_FREELIST_COUNT]) = {..< 14}" by (auto simp: PM_FREELIST_COUNT_def)
  have "P 0" using assms by (simp add: P_def index_to_size_def)
  then have "\<exists>j \<in> set (rev [0 ..< PM_FREELIST_COUNT]). P j" unfolding st by auto
  then have "List.find P (rev [0 ..< PM_FREELIST_COUNT]) \<noteq> None" unfolding find_None_iff by blast
  then obtain j where j: "List.find P (rev [0 ..< PM_FREELIST_COUNT]) = Some j" by blast
  then have lb: "largest_block p n = j" unfolding largest_block_def P_def [symmetric] by (simp only: option.case)
  have "P j" "j < 14" using find_SomeD [OF j] unfolding st by auto
  moreover have "p * 4096 mod (2 ^ j * 4096) = p mod 2 ^ j * 4096" by (simp only: mult_mod_left)
  ultimately have "p mod 2 ^ j * 4096 = 0" "2 ^ j \<le> n" by (simp_all only: P_def index_to_size_def)
  then show "largest_block p n < 14" "2 ^ largest_block p n \<le> n" "2 ^ largest_block p n dvd p"
    unfolding lb using \<open>j < 14\<close> by auto
qed

declare add_blocks.simps [simp del]

text \<open>A run of pages beyond all blocks, cut into blocks.\<close>

lemma add_blocks_wf:
  assumes "pm_wf al s U" and "\<And>q. p \<le> q \<and> q < p + n \<Longrightarrow> reg s q = r \<and> \<not> pg_used (PAGES s q) \<and> q \<notin> pages_of (free_blocks s \<union> U)"
    and "p + n = r_end r" and "r_first r \<le> p" and "0 < p" and "al \<longrightarrow> 2 ^ 13 dvd r_first r"
  shows "pm_wf al (add_blocks p n s) U \<and> (\<forall>q. pg_used (PAGES (add_blocks p n s) q) = pg_used (PAGES s q)) \<and>
    (\<forall>q. \<not> (p \<le> q \<and> q < p + n) \<longrightarrow> PAGES (add_blocks p n s) q = PAGES s q) \<and> reg (add_blocks p n s) = reg s \<and>
    P_REGIONS (add_blocks p n s) = P_REGIONS s \<and>
    pages_of (free_blocks (add_blocks p n s)) = {p ..< p + n} \<union> pages_of (free_blocks s)"
  using assms
proof (induction p n s rule: add_blocks.induct)
  case (1 p n s)
  show ?case
  proof (cases "n = 0")
    case True
    then show ?thesis using "1.prems"(1) by (simp add: add_blocks.simps)
  next
    case False
    define j where "j = largest_block p n"
    define t where "t = upd_page p (\<lambda>g. g\<lparr>pg_index := j, pg_in_list := True\<rparr>) (pm_push j p s)"
    have j: "j < 14" "2 ^ j \<le> n" "2 ^ j dvd p" using largest_block_ok [of n p] False by (auto simp: j_def)
    have e: "add_blocks p n s = add_blocks (p + 2 ^ j) (n - 2 ^ j) t"
      using False by (subst add_blocks.simps) (simp add: j_def [symmetric] t_def index_to_size_def Let_def)
    have rs: "reg t = reg s" and fb: "free_blocks t = insert (p, j) (free_blocks s)" and pr: "P_REGIONS t = P_REGIONS s"
      by (simp_all add: t_def)
    have us: "pg_used (PAGES t q) = pg_used (PAGES s q)" for q by (simp add: t_def)
    have oth: "PAGES t q = PAGES s q" if "q \<noteq> p" for q using that by (simp add: t_def)
    have sub: "q \<in> {p ..< p + n}" if "q \<in> blk p j" for q using that j(2) by (simp add: blk_def)
    have new: "q \<notin> pages_of (free_blocks s \<union> U)" "reg s q = r" if "q \<in> blk p j" for q
      using "1.prems"(2) [of q] sub [OF that] by auto
    have p0: "(p, k) \<notin> free_blocks s" "\<not> pg_used (PAGES s p)" for k
      using "1.prems"(2) [of p] False by (auto simp: pages_of_def)
    have ok: "blk_ok al (reg s) p j"
    proof -
      have rp: "reg s p = r" using new(2) [of p] by simp
      have "p + 2 ^ j \<le> r_end r" using j(2) "1.prems"(3) by linarith
      moreover have "\<forall>q \<in> blk p j. reg s q = r" using new(2) by blast
      moreover have "2 ^ j dvd p - r_first r" if al
      proof -
        have "(2 :: nat) ^ j dvd 2 ^ 13" using j(1) by (intro le_imp_power_dvd) simp
        then have "2 ^ j dvd r_first r" using "1.prems"(6) that dvd_trans by blast
        then show ?thesis using j(3) by (rule dvd_diff_nat [rotated])
      qed
      ultimately show ?thesis unfolding blk_ok_def rp using j(1) "1.prems"(4,5) by blast
    qed
    have dj: "disj (insert (p, j) (free_blocks s \<union> U))"
    proof (rule disjI)
      fix a k b l x
      assume a: "(a, k) \<in> insert (p, j) (free_blocks s \<union> U)" "(b, l) \<in> insert (p, j) (free_blocks s \<union> U)" "x \<in> blk a k" "x \<in> blk b l"
      have no: "False" if "(c, m) \<in> free_blocks s \<union> U" "x \<in> blk c m" "x \<in> blk p j" for c m
        using new(1) [OF that(3)] that(1,2) by (auto simp: pages_of_def)
      show "a = b \<and> k = l" using a no disjD [OF pm_wfD(2) [OF "1.prems"(1)], of a k b l x] by blast
    qed
    have wt: "pm_wf al t U"
    proof (rule pm_wfI)
      show "distinct (FREELISTS t k)" for k
        using pm_wfD(1) [OF "1.prems"(1), of k] p0(1) [of k] by (auto simp: t_def pm_push_def free_blocks_def)
      show "disj (free_blocks t \<union> U)" using dj unfolding fb by simp
      show "free_blocks t \<inter> U = {}" using pm_wfD(3) [OF "1.prems"(1)] new(1) [of p] unfolding fb by (auto simp: pages_of_def)
      show "\<not> pg_used (PAGES t q) \<and> pg_in_list (PAGES t q) \<and> pg_index (PAGES t q) = k" if "(q, k) \<in> free_blocks t" for q k
        using that p0 pm_wfD(4) [OF "1.prems"(1), of q k] unfolding fb by (cases "q = p") (auto simp: t_def)
      show "blk_ok al (reg t) q k" if "(q, k) \<in> free_blocks t \<union> U" for q k
        using that ok pm_wfD(5,6) [OF "1.prems"(1)] unfolding fb rs by blast
    qed
    have prem: "reg t q = r \<and> \<not> pg_used (PAGES t q) \<and> q \<notin> pages_of (free_blocks t \<union> U)"
      if "p + 2 ^ j \<le> q \<and> q < p + 2 ^ j + (n - 2 ^ j)" for q
      using "1.prems"(2) [of q] that j(2) unfolding rs us fb by (simp add: pages_of_insert blk_def)
    have IH: "pm_wf al (add_blocks (p + 2 ^ j) (n - 2 ^ j) t) U \<and>
      (\<forall>q. pg_used (PAGES (add_blocks (p + 2 ^ j) (n - 2 ^ j) t) q) = pg_used (PAGES t q)) \<and>
      (\<forall>q. \<not> (p + 2 ^ j \<le> q \<and> q < p + 2 ^ j + (n - 2 ^ j)) \<longrightarrow> PAGES (add_blocks (p + 2 ^ j) (n - 2 ^ j) t) q = PAGES t q) \<and>
      reg (add_blocks (p + 2 ^ j) (n - 2 ^ j) t) = reg t \<and> P_REGIONS (add_blocks (p + 2 ^ j) (n - 2 ^ j) t) = P_REGIONS t \<and>
      pages_of (free_blocks (add_blocks (p + 2 ^ j) (n - 2 ^ j) t)) = {p + 2 ^ j ..< p + 2 ^ j + (n - 2 ^ j)} \<union> pages_of (free_blocks t)"
      using "1.IH" [OF False j_def t_def] wt prem "1.prems"(3-6) j(2) unfolding index_to_size_def by simp
    have "{p + 2 ^ j ..< p + 2 ^ j + (n - 2 ^ j)} \<union> pages_of (free_blocks t) = {p ..< p + n} \<union> pages_of (free_blocks s)"
      using j(2) unfolding fb pages_of_insert by (auto simp: blk_def)
    moreover have "PAGES (add_blocks (p + 2 ^ j) (n - 2 ^ j) t) q = PAGES s q" if "\<not> (p \<le> q \<and> q < p + n)" for q
    proof -
      have "\<not> (p + 2 ^ j \<le> q \<and> q < p + 2 ^ j + (n - 2 ^ j))" "q \<noteq> p" using that j(2) False by auto
      then show ?thesis using IH oth by metis
    qed
    ultimately show ?thesis unfolding e using IH us rs pr by metis
  qed
qed

definition in_region :: "pregion \<Rightarrow> nat \<Rightarrow> bool" where
  "in_region r q \<longleftrightarrow> r_base r div 4096 \<le> q \<and> q < r_end r"

text \<open>No region that is in use reaches into the pages from \<open>a\<close> to \<open>b\<close>.\<close>

definition fresh_range :: "pmem \<Rightarrow> nat \<Rightarrow> nat \<Rightarrow> bool" where
  "fresh_range s a b \<longleftrightarrow> (\<forall>p q. in_region (reg s p) p \<and> in_region (reg s p) q \<longrightarrow> \<not> (a \<le> q \<and> q < b))"

lemma blk_in_region:
  assumes "blk_ok al R p i" and "q \<in> blk p i"
  shows "in_region (R p) p" and "in_region (R p) q" and "R q = R p"
proof -
  have r: "r_first (R p) \<le> p" "p + 2 ^ i \<le> r_end (R p)" and e: "\<forall>q \<in> blk p i. R q = R p" using assms(1) unfolding blk_ok_def by blast+
  have q: "p \<le> q" "q < p + 2 ^ i" using assms(2) by (simp_all add: blk_def)
  have "r_base (R p) div 4096 \<le> p" using r(1) by (simp add: r_first_def)
  then show "in_region (R p) p" "in_region (R p) q" unfolding in_region_def
    using r(2) q blk_ok_range(2) [OF assms(1)] by linarith+
  show "R q = R p" by (rule bspec [OF e assms(2)])
qed

lemma init_pages_wf:
  assumes wf: "pm_wf al s U" and fr: "fresh_range s (r_base r div 4096) (r_end r)" and us: "\<forall>q. pg_used (PAGES s q) \<longrightarrow> q \<in> pages_of U"
  shows "pm_wf al (init_pages r s) U" and "\<And>q. pg_used (PAGES (init_pages r s) q) = pg_used (PAGES s q)"
    and "\<And>q. in_region r q \<Longrightarrow> reg (init_pages r s) q = r \<and> q \<notin> pages_of (free_blocks s \<union> U)"
    and "\<And>q. \<not> in_region r q \<Longrightarrow> PAGES (init_pages r s) q = PAGES s q"
proof -
  have pg: "PAGES (init_pages r s) q = (if in_region r q then \<lparr>pg_region = r, pg_used = False, pg_in_list = False,
      pg_index = (if q < r_base r div 4096 + r_res_count r then 0 else PM_FREELIST_COUNT)\<rparr> else PAGES s q)" for q
    by (simp add: init_pages_def in_region_def r_end_def)
  have fb: "free_blocks (init_pages r s) = free_blocks s" "FREELISTS (init_pages r s) = FREELISTS s"
    by (simp_all add: free_blocks_def init_pages_def)
  have no: "\<not> in_region r q" if "(p, i) \<in> free_blocks s \<union> U" "q \<in> blk p i" for p i q
  proof -
    have "blk_ok al (reg s) p i" using pm_wfD(5,6) [OF wf] that(1) by blast
    from blk_in_region [OF this that(2)] show ?thesis using fr by (auto simp: fresh_range_def in_region_def)
  qed
  show nin: "reg (init_pages r s) q = r \<and> q \<notin> pages_of (free_blocks s \<union> U)" if "in_region r q" for q
  proof
    show "reg (init_pages r s) q = r" using that by (simp add: reg_def pg)
    show "q \<notin> pages_of (free_blocks s \<union> U)" using that no unfolding pages_of_def by blast
  qed
  show "PAGES (init_pages r s) q = PAGES s q" if "\<not> in_region r q" for q using that by (simp add: pg)
  show "pg_used (PAGES (init_pages r s) q) = pg_used (PAGES s q)" for q
  proof (cases "in_region r q")
    case True
    then have "q \<notin> pages_of U" using nin by (auto simp: pages_of_def)
    then show ?thesis using True us by (auto simp: pg)
  qed (simp add: pg)
  show "pm_wf al (init_pages r s) U"
  proof (rule pm_wfI)
    show "distinct (FREELISTS (init_pages r s) i)" for i unfolding fb by (rule pm_wfD(1) [OF wf])
    show "disj (free_blocks (init_pages r s) \<union> U)" unfolding fb by (rule pm_wfD(2) [OF wf])
    show "free_blocks (init_pages r s) \<inter> U = {}" unfolding fb by (rule pm_wfD(3) [OF wf])
    show "\<not> pg_used (PAGES (init_pages r s) p) \<and> pg_in_list (PAGES (init_pages r s) p) \<and> pg_index (PAGES (init_pages r s) p) = i"
      if "(p, i) \<in> free_blocks (init_pages r s)" for p i
      using pm_wfD(4) [OF wf, of p i] no [of p i p] that unfolding fb by (simp add: pg)
    show "blk_ok al (reg (init_pages r s)) p i" if pi: "(p, i) \<in> free_blocks (init_pages r s) \<union> U" for p i
    proof -
      have ok: "blk_ok al (reg s) p i" using pm_wfD(5,6) [OF wf] pi unfolding fb by blast
      have e: "reg (init_pages r s) q = reg s q" if "q \<in> blk p i" for q using no [of p i q] pi that unfolding fb by (simp add: reg_def pg)
      have e1: "reg (init_pages r s) p = reg s p" by (rule e) simp
      have "\<forall>q \<in> blk p i. reg (init_pages r s) q = reg s p" using e ok unfolding blk_ok_def by metis
      then show ?thesis using ok unfolding blk_ok_def e1 by blast
    qed
  qed
qed

lemma insert_region_set: "set (insert_region r rs) = insert r (set rs)"
proof (cases "List.find (\<lambda>x. r_base x > r_base r) rs")
  case None
  then show ?thesis by (simp add: insert_region_def)
next
  case (Some x)
  then have x: "x \<in> set rs" using find_SomeD [OF Some] by blast
  then have "dropWhile (\<lambda>y. y \<noteq> x) rs = x # tl (dropWhile (\<lambda>y. y \<noteq> x) rs)"
    by (induction rs) auto
  then have "set rs = set (takeWhile (\<lambda>y. y \<noteq> x) rs) \<union> insert x (set (tl (dropWhile (\<lambda>y. y \<noteq> x) rs)))"
    by (metis list.simps(15) set_append takeWhile_dropWhile_id)
  then show ?thesis using Some by (auto simp: insert_region_def)
qed

definition new_region :: "nat \<Rightarrow> nat \<Rightarrow> nat \<Rightarrow> nat \<Rightarrow> pregion" where
  "new_region sizeof_PRegion sizeof_Page phys size' =
     \<lparr>r_base = phys, r_page_count = size' div 4096,
      r_res_count = (sizeof_PRegion + (size' div 4096 - 1) * sizeof_Page + 4095) div 4096\<rparr>"

lemma region_fits:
  fixes phys :: nat
  assumes "0 < A" and "A \<le> 4096" and "B \<le> 4096" and "size' div 4096 \<noteq> 0"
  defines "r \<equiv> new_region A B phys size'"
  shows "0 < r_res_count r" and "r_res_count r \<le> r_page_count r"
proof -
  obtain n where n: "size' div 4096 = Suc n" using assms(4) not0_implies_Suc by blast
  have "n * B \<le> n * 4096" using assms(3) by (rule mult_le_mono2)
  then have "A + n * B + 4095 < (Suc n + 1) * 4096" using assms(2) unfolding add_mult_distrib mult_Suc by linarith
  then have "(A + n * B + 4095) div 4096 < Suc n + 1" by (rule less_mult_imp_div_less)
  moreover have "1 \<le> (A + n * B + 4095) div 4096" using assms(1) by simp
  ultimately show "0 < r_res_count r" "r_res_count r \<le> r_page_count r" by (simp_all add: r_def new_region_def n)
qed

lemma pmalloc_add_mem_eq:
  "pmalloc_add_mem A B phys size' s =
     (if size' div 4096 = 0 \<or> A + (size' div 4096 - 1) * B \<ge> size' then s
      else let r = new_region A B phys size';
               t = add_blocks (r_first r) (r_page_count r - r_res_count r)
                     (init_pages r (s\<lparr>TOTAL_MEMORY := TOTAL_MEMORY s + of_nat size',
                        RESERVED_MEMORY := RESERVED_MEMORY s + of_nat (r_res_count r * 4096)\<rparr>))
           in t\<lparr>P_REGIONS := insert_region r (P_REGIONS t)\<rparr>)"
  by (simp add: pmalloc_add_mem_def new_region_def r_first_def Let_def)

lemma other_fields [simp]:
  "free_blocks (s\<lparr>TOTAL_MEMORY := x, RESERVED_MEMORY := y\<rparr>) = free_blocks s"
  "used_blocks (s\<lparr>TOTAL_MEMORY := x, RESERVED_MEMORY := y\<rparr>) = used_blocks s"
  "reg (s\<lparr>TOTAL_MEMORY := x, RESERVED_MEMORY := y\<rparr>) = reg s"
  "pm_wf al (s\<lparr>TOTAL_MEMORY := x, RESERVED_MEMORY := y\<rparr>) U = pm_wf al s U"
  "fresh_range (s\<lparr>TOTAL_MEMORY := x, RESERVED_MEMORY := y\<rparr>) a b = fresh_range s a b"
  "free_blocks (s\<lparr>P_REGIONS := z\<rparr>) = free_blocks s" "used_blocks (s\<lparr>P_REGIONS := z\<rparr>) = used_blocks s"
  "reg (s\<lparr>P_REGIONS := z\<rparr>) = reg s" "pm_wf al (s\<lparr>P_REGIONS := z\<rparr>) U = pm_wf al s U"
  by (simp_all add: free_blocks_def used_blocks_def reg_def [abs_def] pm_wf_def fresh_range_def)

text \<open>A region whose pages are new to the allocator.\<close>

lemma add_mem_wf:
  fixes A B phys size' :: nat and s :: pmem
  defines "r \<equiv> new_region A B phys size'" and "s' \<equiv> pmalloc_add_mem A B phys size' s"
  assumes inv: "pm_inv al s" and AB: "0 < A" "A \<le> 4096" "B \<le> 4096" and go: "\<not> (size' div 4096 = 0 \<or> A + (size' div 4096 - 1) * B \<ge> size')"
    and fr: "fresh_range s (phys div 4096) (phys div 4096 + size' div 4096)" and al: "al \<longrightarrow> 2 ^ 13 dvd r_first r"
  shows "pm_inv al s'" and "used_blocks s' = used_blocks s" and "\<And>q. in_region r q \<Longrightarrow> reg s' q = r"
    and "\<And>q. \<not> in_region r q \<Longrightarrow> reg s' q = reg s q" and "P_REGIONS s' = insert_region r (P_REGIONS s)"
    and "pages_of (free_blocks s') = {r_first r ..< r_end r} \<union> pages_of (free_blocks s)"
proof -
  define s1 where "s1 = s\<lparr>TOTAL_MEMORY := TOTAL_MEMORY s + of_nat size', RESERVED_MEMORY := RESERVED_MEMORY s + of_nat (r_res_count r * 4096)\<rparr>"
  define s2 where "s2 = init_pages r s1"
  define n where "n = r_page_count r - r_res_count r"
  define t where "t = add_blocks (r_first r) n s2"
  have e: "s' = t\<lparr>P_REGIONS := insert_region r (P_REGIONS t)\<rparr>"
    using go unfolding s'_def pmalloc_add_mem_eq by (simp add: Let_def r_def [symmetric] t_def s2_def s1_def n_def)
  have fits: "0 < r_res_count r" "r_res_count r \<le> r_page_count r" using region_fits [OF AB] go by (simp_all add: r_def)
  have re: "r_first r + n = r_end r" "0 < r_first r" using fits by (simp_all add: n_def r_first_def r_end_def)
  have ub1: "used_blocks s1 = used_blocks s" and wf1: "pm_wf al s1 (used_blocks s)" and PG1: "PAGES s1 = PAGES s"
    using inv by (simp_all add: s1_def pm_inv_def)
  have fr1: "fresh_range s1 (r_base r div 4096) (r_end r)" using fr by (simp add: s1_def r_def new_region_def r_end_def)
  have us1: "\<forall>q. pg_used (PAGES s1 q) \<longrightarrow> q \<in> pages_of (used_blocks s)"
  proof (intro allI impI)
    fix q assume that: "pg_used (PAGES s1 q)"
    have "(q, pg_index (PAGES s q)) \<in> used_blocks s" using that by (simp add: used_blocks_def PG1)
    then show "q \<in> pages_of (used_blocks s)" unfolding pages_of_def using blk_head by blast
  qed
  note I = init_pages_wf [OF wf1 fr1 us1, folded s2_def]
  have fb1: "free_blocks s1 = free_blocks s" "free_blocks s2 = free_blocks s" by (simp_all add: s1_def s2_def init_pages_def free_blocks_def)
  have prem: "reg s2 q = r \<and> \<not> pg_used (PAGES s2 q) \<and> q \<notin> pages_of (free_blocks s2 \<union> used_blocks s)"
    if "r_first r \<le> q \<and> q < r_first r + n" for q
  proof -
    have "in_region r q" using that re by (simp add: in_region_def r_first_def)
    from I(3) [OF this] have R: "reg s2 q = r" "q \<notin> pages_of (free_blocks s \<union> used_blocks s)" unfolding fb1 by simp_all
    then have "q \<notin> pages_of (used_blocks s)" by (simp add: pages_of_def)
    then have "\<not> pg_used (PAGES s1 q)" using us1 by blast
    then show ?thesis using R I(2) [of q] unfolding fb1 by simp
  qed
  have T: "pm_wf al t (used_blocks s)" "\<And>q. pg_used (PAGES t q) = pg_used (PAGES s2 q)"
    "\<And>q. \<not> (r_first r \<le> q \<and> q < r_first r + n) \<Longrightarrow> PAGES t q = PAGES s2 q" "reg t = reg s2" "P_REGIONS t = P_REGIONS s2"
    "pages_of (free_blocks t) = {r_first r ..< r_first r + n} \<union> pages_of (free_blocks s2)"
    using add_blocks_wf [OF I(1) _ re(1) order_refl re(2) al, folded t_def] prem by blast+
  have used: "pg_used (PAGES t q) = pg_used (PAGES s q)" for q using T(2) I(2) by (simp add: PG1)
  have same: "PAGES t q = PAGES s q" if "pg_used (PAGES s q)" for q
  proof -
    have "q \<in> pages_of (used_blocks s)" using us1 that by (simp add: PG1)
    then have "q \<in> pages_of (free_blocks s1 \<union> used_blocks s)" unfolding pages_of_def by blast
    then have "\<not> in_region r q" using I(3) [of q] by blast
    moreover from this have "\<not> (r_first r \<le> q \<and> q < r_first r + n)" using re by (simp add: in_region_def r_first_def)
    ultimately show ?thesis using T(3) [of q] I(4) [of q] by (simp add: PG1)
  qed
  have ub: "used_blocks t = used_blocks s"
  proof (rule set_eqI, clarify)
    fix q i show "((q, i) \<in> used_blocks t) = ((q, i) \<in> used_blocks s)" using used [of q] same [of q] by (auto simp: used_blocks_def)
  qed
  then show "used_blocks s' = used_blocks s" by (simp add: e)
  have PGe: "PAGES s' = PAGES t" by (simp add: e)
  have "\<not> pg_in_list (PAGES t q)" if "pg_used (PAGES t q)" for q
    using that inv used [of q] same [of q] by (simp add: pm_inv_def)
  then show "pm_inv al s'" using T(1) unfolding pm_inv_def PGe by (simp add: e ub)
  show "reg s' q = r" if "in_region r q" for q using I(3) [OF that] by (simp add: e T(4))
  show "reg s' q = reg s q" if "\<not> in_region r q" for q
    using I(4) [OF that] T(4) by (simp add: e reg_def PG1)
  show "P_REGIONS s' = insert_region r (P_REGIONS s)" by (simp add: e T(5) s2_def init_pages_def s1_def)
  show "pages_of (free_blocks s') = {r_first r ..< r_end r} \<union> pages_of (free_blocks s)"
    using T(6) re(1) by (simp add: e fb1)
qed

lemma add_mem_full:
  fixes A B phys size' :: nat
  assumes full: "pm_full s" and AB: "0 < A" "A \<le> 4096" "B \<le> 4096" and ph: "phys mod 4096 = 0"
    and fr: "fresh_range s (phys div 4096) (phys div 4096 + size' div 4096)" and al: "2 ^ 13 dvd r_first (new_region A B phys size')"
  shows "pm_full (pmalloc_add_mem A B phys size' s) \<and> used_blocks (pmalloc_add_mem A B phys size' s) = used_blocks s"
proof (cases "size' div 4096 = 0 \<or> A + (size' div 4096 - 1) * B \<ge> size'")
  case True
  then show ?thesis using full by (auto simp: pmalloc_add_mem_eq)
next
  case False
  define r where "r = new_region A B phys size'"
  define s' where "s' = pmalloc_add_mem A B phys size' s"
  have inv: "pm_inv True s" and cov: "covered s (used_blocks s)" and regs: "regions_ok (reg s)"
    and rb: "\<forall>r \<in> set (P_REGIONS s). r_base r mod 4096 = 0"
    and rin: "\<forall>q. r_first (reg s q) \<le> q \<and> q < r_end (reg s q) \<longrightarrow> reg s q \<in> set (P_REGIONS s)"
    using full unfolding pm_full_def by blast+
  have "True \<longrightarrow> 2 ^ 13 dvd r_first (new_region A B phys size')" using al by blast
  note W = add_mem_wf [OF inv AB False fr this, folded r_def s'_def]
  have range: "in_region r q \<longleftrightarrow> phys div 4096 \<le> q \<and> q < phys div 4096 + size' div 4096" for q
    by (simp add: in_region_def r_def new_region_def r_end_def)
  have first: "r_base x div 4096 \<le> r_first x" for x by (simp add: r_first_def)
  have out: "\<not> in_region r q" if "in_region (reg s p) p" "in_region (reg s p) q" for p q
    using fr that unfolding fresh_range_def range by blast
  have "pm_inv True s'" "used_blocks s' = used_blocks s" by (rule W(1), rule W(2))
  moreover have "covered s' (used_blocks s')"
  proof (unfold covered_def, intro allI impI, elim conjE)
    fix q assume q: "r_first (reg s' q) \<le> q" "q < r_end (reg s' q)"
    show "q \<in> pages_of (free_blocks s' \<union> used_blocks s')"
    proof (cases "in_region r q")
      case True
      then have "q \<in> {r_first r ..< r_end r}" using q W(3) by simp
      then show ?thesis using W(6) by (auto simp: pages_of_def)
    next
      case False
      then have "q \<in> pages_of (free_blocks s \<union> used_blocks s)" using q W(4) cov by (simp add: covered_def)
      then show ?thesis using W(2,6) by (auto simp: pages_of_def)
    qed
  qed
  moreover have "regions_ok (reg s')"
  proof (unfold regions_ok_def, intro allI impI)
    fix p q assume "r_base (reg s' p) div 4096 \<le> p \<and> p < r_end (reg s' p) \<and> r_base (reg s' p) div 4096 \<le> q \<and> q < r_end (reg s' p)"
    then have pq: "in_region (reg s' p) p" "in_region (reg s' p) q" by (simp_all add: in_region_def)
    show "reg s' q = reg s' p"
    proof (cases "in_region r p")
      case True
      then show ?thesis using pq(2) W(3) by simp
    next
      case False
      then have a: "in_region (reg s p) p" "in_region (reg s p) q" using pq W(4) by simp_all
      then have "reg s q = reg s p" using regs unfolding regions_ok_def in_region_def by blast
      then show ?thesis using W(4) [OF False] W(4) [OF out [OF a]] by simp
    qed
  qed
  moreover have "\<forall>r \<in> set (P_REGIONS s'). r_base r mod 4096 = 0"
    using rb ph unfolding W(5) insert_region_set by (simp add: r_def new_region_def)
  moreover have "reg s' q \<in> set (P_REGIONS s')" if "r_first (reg s' q) \<le> q \<and> q < r_end (reg s' q)" for q
    using that rin W(3,4) unfolding W(5) insert_region_set by (cases "in_region r q") auto
  ultimately show ?thesis unfolding pm_full_def s'_def [symmetric] by blast
qed

lemma pmem_new_full: "pm_full pmem_new" "used_blocks pmem_new = {}"
  by (simp_all add: pm_full_def pm_inv_def pm_wf_def pmem_new_def free_blocks_def used_blocks_def disj_def covered_def
      regions_ok_def reg_def r_first_def r_end_def)

section \<open>Runs of the allocator\<close>

text \<open>The states the kernel can reach, with the allocations its callers hold: regions are added whose
  pages are new and whose first free page lies at a multiple of the largest block, blocks of 1 to 8192
  pages are allocated, and a block is freed by the address and the count it was allocated with.\<close>

inductive pm_reach :: "nat \<Rightarrow> nat \<Rightarrow> pmem \<Rightarrow> (nat \<times> usize) set \<Rightarrow> bool" for A B where
  boot: "pm_reach A B pmem_new {}"
| add: "pm_reach A B s L \<Longrightarrow> phys mod 4096 = 0 \<Longrightarrow> fresh_range s (phys div 4096) (phys div 4096 + size' div 4096) \<Longrightarrow>
    2 ^ 13 dvd r_first (new_region A B phys size') \<Longrightarrow> pm_reach A B (pmalloc_add_mem A B phys size' s) L"
| alloc: "pm_reach A B s L \<Longrightarrow> count \<noteq> 0 \<Longrightarrow> unat count \<le> 8192 \<Longrightarrow> pmalloc count s = Some (a, s') \<Longrightarrow>
    pm_reach A B s' (if a = 0 then L else insert (a, count) L)"
| free: "pm_reach A B s L \<Longrightarrow> (a, count) \<in> L \<Longrightarrow> pfree a count s = Some s' \<Longrightarrow> pm_reach A B s' (L - {(a, count)})"

definition held_block :: "nat \<times> usize \<Rightarrow> nat \<times> nat" where
  "held_block = (\<lambda>(a, count). (a div 4096, pm_size_to_index count))"

lemma pm_reach_inv:
  assumes "pm_reach A B s L" and "0 < A" "A \<le> 4096" "B \<le> 4096"
  shows "pm_full s \<and> used_blocks s = held_block ` L \<and> inj_on held_block L \<and> (\<forall>(a, c) \<in> L. a mod 4096 = 0 \<and> c \<noteq> 0)"
  using assms(1)
proof (induction rule: pm_reach.induct)
  case boot
  then show ?case using pmem_new_full by simp
next
  case (add s L phys size')
  then show ?case using add_mem_full [of s A B phys size'] assms(2-4) by simp
next
  case (alloc s L count a s')
  then have inv: "pm_inv True s" by (simp add: pm_full_def)
  from pmalloc_cases [OF inv alloc.hyps(2,3)] show ?case
  proof (elim disjE exE conjE)
    assume "pmalloc count s = Some (0, s)"
    then show ?thesis using alloc by simp
  next
    fix p t assume p: "pmalloc count s = Some (p * 4096, t)" "0 < p" and t: "taken True (p, pm_size_to_index count) s t"
    then have e: "a = p * 4096" "s' = t" using alloc.hyps(4) by simp_all
    have h: "held_block (a, count) = (p, pm_size_to_index count)" by (simp add: held_block_def e)
    have "held_block (a, count) \<notin> held_block ` L" using t alloc.IH unfolding h taken_def by simp
    then have "inj_on held_block (insert (a, count) L)" using alloc.IH by (auto simp: inj_on_insert)
    moreover have "used_blocks s' = held_block ` insert (a, count) L" using t alloc.IH h unfolding e taken_def by simp
    moreover have "pm_full s'" using taken_full [of s, OF _ t] alloc.IH unfolding e by blast
    ultimately show ?thesis using alloc.IH alloc.hyps(2) p(2) e by simp
  qed
next
  case (free s L a count s')
  define p where "p = a div 4096"
  have a: "a = p * 4096" using free by (auto simp: p_def)
  have "held_block (a, count) \<in> held_block ` L" using free.hyps(2) by (rule imageI)
  then have u: "(p, pm_size_to_index count) \<in> used_blocks s" using free.IH by (simp add: held_block_def p_def)
  from pfree_full [OF conjunct1 [OF free.IH] u]
  have "pm_full s'" "used_blocks s' = used_blocks s - {held_block (a, count)}"
    using free.hyps(3) by (auto simp: a held_block_def)
  moreover have "held_block ` (L - {(a, count)}) = held_block ` L - {held_block (a, count)}"
    using free.IH free.hyps(2) by (subst inj_on_image_set_diff [of held_block L]) auto
  ultimately show ?case using free.IH by (auto intro: inj_on_diff)
qed

lemma held_disjoint:
  assumes "pm_reach A B s L" and "0 < A" and "A \<le> 4096" and "B \<le> 4096" and "(a, c) \<in> L" and "(b, d) \<in> L" and "(b, d) \<noteq> (a, c)"
  shows "{a ..< a + unat c * 4096} \<inter> {b ..< b + unat d * 4096} = {}"
proof (rule ccontr)
  note I = pm_reach_inv [OF assms(1-4)]
  have wf: "pm_wf True s (used_blocks s)" using I unfolding pm_full_def pm_inv_def by blast
  have cover: "x div 4096 \<in> blk (fst (held_block (e, f))) (snd (held_block (e, f)))"
    if "(e, f) \<in> L" "x \<in> {e ..< e + unat f * 4096}" for e f x
  proof -
    have "e mod 4096 = 0" "f \<noteq> 0" using I that(1) by auto
    then obtain p where p: "e = p * 4096" by (metis mod_0_imp_dvd dvd_div_mult_self)
    have "unat f \<le> 2 ^ pm_size_to_index f" by (rule pm_size_to_index_bounds(1) [OF \<open>f \<noteq> 0\<close>])
    moreover have "x div 4096 < p + unat f"
      using that(2) by (intro less_mult_imp_div_less) (simp add: p algebra_simps)
    moreover have "p \<le> x div 4096" using that(2) by (simp add: p less_eq_div_iff_mult_less_eq)
    ultimately show ?thesis by (simp add: held_block_def p blk_def)
  qed
  assume "\<not> ?thesis"
  then obtain x where x: "x \<in> {a ..< a + unat c * 4096}" "x \<in> {b ..< b + unat d * 4096}" by blast
  have in_u: "(fst (held_block (e, f)), snd (held_block (e, f))) \<in> free_blocks s \<union> used_blocks s" if "(e, f) \<in> L" for e f
    using I that by simp
  have "held_block (a, c) = held_block (b, d)"
    using disjD [OF pm_wfD(2) [OF wf] in_u [OF assms(5)] in_u [OF assms(6)] cover [OF assms(5) x(1)] cover [OF assms(6) x(2)]]
    by (simp add: prod_eq_iff)
  then show False using I assms(5-7) inj_onD by metis
qed

text \<open>C7 In every run the allocations the kernel holds are pairwise disjoint ranges of memory, and each
  of them can be freed: the assertions of pfree hold, and exactly that allocation is given back.\<close>

theorem held_memory_safe:
  assumes "pm_reach A B s L" and "0 < A" and "A \<le> 4096" and "B \<le> 4096" and "(a, c) \<in> L"
  shows "(\<forall>b d. (b, d) \<in> L \<and> (b, d) \<noteq> (a, c) \<longrightarrow> {a ..< a + unat c * 4096} \<inter> {b ..< b + unat d * 4096} = {}) \<and>
    (\<exists>s'. pfree a c s = Some s' \<and> pm_reach A B s' (L - {(a, c)}))"
proof (intro conjI allI impI, elim conjE)
  fix b d assume b: "(b, d) \<in> L" "(b, d) \<noteq> (a, c)"
  then show "{a ..< a + unat c * 4096} \<inter> {b ..< b + unat d * 4096} = {}" by (rule held_disjoint [OF assms])
next
  note I = pm_reach_inv [OF assms(1-4)]
  have u: "(a div 4096, pm_size_to_index c) \<in> used_blocks s" and a: "a mod 4096 = 0"
    using I assms(5) by (auto simp: held_block_def image_iff intro!: bexI [of _ "(a, c)"])
  obtain s' where "pfree (a div 4096 * 4096) c s = Some s'" using pfree_full [OF conjunct1 [OF I] u] by blast
  then have "pfree a c s = Some s'" using a by auto
  then show "\<exists>s'. pfree a c s = Some s' \<and> pm_reach A B s' (L - {(a, c)})"
    using pm_reach.free [OF assms(1,5)] by blast
qed


lemma fresh_new: "fresh_range pmem_new a b"
  by (simp add: fresh_range_def in_region_def pmem_new_def reg_def r_end_def)

lemma example_region: "pm_reach 88 48 (pmalloc_add_mem 88 48 33550336 65536 pmem_new) {}"
  by (rule pm_reach.add [OF pm_reach.boot _ fresh_new]) (simp_all add: new_region_def r_first_def)

lemma example_alloc: "map_option fst (pmalloc 3 (pmalloc_add_mem 88 48 33550336 65536 pmem_new)) = Some 33587200"
  by code_simp

theorem held_memory_safe_witness:
  "\<exists>s s'. pm_reach 88 48 s {(33587200, 3)} \<and> pfree 33587200 3 s = Some s' \<and> pm_reach 88 48 s' {}"
proof -
  obtain s where s: "pmalloc 3 (pmalloc_add_mem 88 48 33550336 65536 pmem_new) = Some (33587200, s)"
    using example_alloc by auto
  have r: "pm_reach 88 48 s {(33587200, 3)}" using pm_reach.alloc [OF example_region _ _ s] by simp
  show ?thesis using r held_memory_safe [OF r, of 33587200 3] by auto
qed


section \<open>A region that is not aligned\<close>

datatype pm_op = Alloc usize | Free nat usize

fun pm_run :: "pm_op list \<Rightarrow> pmem \<Rightarrow> nat list option" where
  "pm_run [] s = Some []"
| "pm_run (Alloc count # ops) s =
     (case pmalloc count s of None \<Rightarrow> None | Some (a, s') \<Rightarrow> map_option (\<lambda>as. a # as) (pm_run ops s'))"
| "pm_run (Free a count # ops) s = (case pfree a count s of None \<Rightarrow> None | Some s' \<Rightarrow> pm_run ops s')"


end
