(* ===== verification/Ring.thy ===== *)
theory Ring
  imports Prelude
begin

text \<open>
  Circular buffers as the kernel writes them, an array with positions that wrap, and the contract
  of a bounded first-in first-out queue that its clients rely on.
\<close>

section \<open>Slices of a circular array\<close>

definition ring_slice :: "'a list \<Rightarrow> nat \<Rightarrow> nat \<Rightarrow> 'a list" where
  "ring_slice xs r n = map (\<lambda>i. xs ! ((r + i) mod length xs)) [0 ..< n]"

lemma length_ring_slice [simp]: "length (ring_slice xs r n) = n"
  by (simp add: ring_slice_def)

lemma ring_slice_0 [simp]: "ring_slice xs r 0 = []"
  by (simp add: ring_slice_def)

lemma ring_slice_nth [simp]: "i < n \<Longrightarrow> ring_slice xs r n ! i = xs ! ((r + i) mod length xs)"
  by (simp add: ring_slice_def)

lemma ring_slice_mod [simp]: "ring_slice xs (r mod length xs) n = ring_slice xs r n"
  by (simp add: ring_slice_def mod_add_left_eq)

lemma ring_slice_Suc: "ring_slice xs r (Suc n) = xs ! (r mod length xs) # ring_slice xs (Suc r) n"
  by (rule nth_equalityI) (auto simp: nth_Cons split: nat.splits)

lemma ring_slice_add: "ring_slice xs r (m + n) = ring_slice xs r m @ ring_slice xs (r + m) n"
  by (rule nth_equalityI) (auto simp: nth_append ac_simps)

lemma ring_slice_linear: "r + n \<le> length xs \<Longrightarrow> ring_slice xs r n = take n (drop r xs)"
  by (rule nth_equalityI) auto

lemma ring_mod_inj:
  fixes i j n r :: nat
  assumes "(r + i) mod n = (r + j) mod n" and "i < n" and "j < n"
  shows "i = j"
proof -
  have aux: "a = b" if "(r + a) mod n = (r + b) mod n" "a \<le> b" "b < n" for a b :: nat
  proof -
    have "n dvd (r + b) - (r + a)" using that mod_eq_dvd_iff_nat [of "r + a" "r + b" n] by simp
    then show ?thesis using that nat_dvd_not_less [of "b - a" n] by fastforce
  qed
  show ?thesis using aux [of i j] aux [of j i] assms by (cases "i \<le> j") auto
qed

text \<open>Copying a run of elements into the free part behind the slice extends the slice.\<close>

definition blit :: "'a list \<Rightarrow> nat \<Rightarrow> 'a list \<Rightarrow> 'a list" where
  "blit xs w vs = take w xs @ vs @ drop (w + length vs) xs"

lemma length_blit [simp]: "w + length vs \<le> length xs \<Longrightarrow> length (blit xs w vs) = length xs"
  by (simp add: blit_def)

lemma blit_nth:
  "w + length vs \<le> length xs \<Longrightarrow> i < length xs \<Longrightarrow>
   blit xs w vs ! i = (if w \<le> i \<and> i < w + length vs then vs ! (i - w) else xs ! i)"
  by (auto simp: blit_def nth_append)

lemma ring_slice_blit:
  assumes "w = (r + n) mod length xs" and "w + length vs \<le> length xs" and "n + length vs \<le> length xs"
  shows "ring_slice (blit xs w vs) r (n + length vs) = ring_slice xs r n @ vs"
proof (cases "vs = []")
  case True
  then show ?thesis by (simp add: blit_def)
next
  case False
  then have pos: "0 < length xs" using assms(2) by (cases xs) auto
  have run: "(r + (n + k)) mod length xs = w + k" if "k < length vs" for k
    using assms(1,2) that by (metis (no_types, lifting) add.assoc add_less_cancel_left less_le_trans mod_add_left_eq mod_less)
  show ?thesis
  proof (rule nth_equalityI)
    fix i assume "i < length (ring_slice (blit xs w vs) r (n + length vs))"
    then have i: "i < n + length vs" by simp
    show "ring_slice (blit xs w vs) r (n + length vs) ! i = (ring_slice xs r n @ vs) ! i"
    proof (cases "i < n")
      case True
      have "\<not> (w \<le> (r + i) mod length xs \<and> (r + i) mod length xs < w + length vs)"
      proof
        assume a: "w \<le> (r + i) mod length xs \<and> (r + i) mod length xs < w + length vs"
        define k where "k = (r + i) mod length xs - w"
        have k: "k < length vs" "(r + i) mod length xs = w + k" using a by (auto simp: k_def)
        then have "(r + i) mod length xs = (r + (n + k)) mod length xs" using run by simp
        then have "i = n + k" using ring_mod_inj assms(3) k(1) True by (metis add_less_cancel_left less_le_trans trans_less_add1)
        then show False using True by simp
      qed
      then show ?thesis using True assms(2) pos i by (auto simp: blit_nth nth_append)
    next
      case False
      then obtain k where "i = n + k" "k < length vs" using i by (metis add_less_cancel_left le_Suc_ex not_less)
      then show ?thesis using run [of k] assms(2) pos by (simp add: blit_nth nth_append)
    qed
  qed (use assms in simp)
qed

lemma ring_slice_push:
  assumes "w = (r + n) mod length xs" and "n < length xs"
  shows "ring_slice (xs[w := v]) r (Suc n) = ring_slice xs r n @ [v]"
proof -
  have "0 < length xs" using assms(2) by linarith
  then have "w < length xs" unfolding assms(1) by (rule mod_less_divisor)
  then have "xs[w := v] = blit xs w [v]" by (simp add: blit_def upd_conv_take_nth_drop)
  then show ?thesis using ring_slice_blit [of w r n xs "[v]"] assms \<open>w < length xs\<close> by simp
qed

section \<open>The contract of a bounded queue\<close>

datatype 'a qcmd = QPush 'a | QPop

fun qrun :: "('a \<Rightarrow> 'q \<Rightarrow> 'q) \<Rightarrow> ('q \<Rightarrow> 'a option \<times> 'q) \<Rightarrow> 'a qcmd list \<Rightarrow> 'q \<Rightarrow> 'a option list \<times> 'q" where
  "qrun push pop [] q = ([], q)"
| "qrun push pop (QPush x # cs) q = qrun push pop cs (push x q)"
| "qrun push pop (QPop # cs) q = (let (r, q) = pop q; (rs, q) = qrun push pop cs q in (r # rs, q))"

definition lpush :: "nat \<Rightarrow> 'a \<Rightarrow> 'a list \<Rightarrow> 'a list" where
  "lpush cap x xs = (if length xs < cap then xs @ [x] else xs)"

fun lpop :: "'a list \<Rightarrow> 'a option \<times> 'a list" where
  "lpop [] = (None, [])"
| "lpop (x # xs) = (Some x, xs)"

locale bounded_fifo =
  fixes invar :: "'q \<Rightarrow> bool" and elems :: "'q \<Rightarrow> 'a list" and cap :: nat
    and push :: "'a \<Rightarrow> 'q \<Rightarrow> 'q" and pop :: "'q \<Rightarrow> 'a option \<times> 'q"
  assumes push_law: "invar q \<Longrightarrow> invar (push x q) \<and> elems (push x q) = lpush cap x (elems q)"
    and pop_law: "invar q \<Longrightarrow> pop q = (r, q') \<Longrightarrow> invar q' \<and> (r, elems q') = lpop (elems q)"
begin

lemma run_simulates:
  "invar q \<Longrightarrow> invar (snd (qrun push pop cs q)) \<and>
    (fst (qrun push pop cs q), elems (snd (qrun push pop cs q))) = qrun (lpush cap) lpop cs (elems q)"
proof (induction cs arbitrary: q)
  case (Cons c cs)
  show ?case
  proof (cases c)
    case (QPush x)
    then show ?thesis using Cons push_law by auto
  next
    case QPop
    obtain r q' where p: "pop q = (r, q')" by fastforce
    then have l: "invar q'" "lpop (elems q) = (r, elems q')" using pop_law [OF Cons.prems p] by auto
    then show ?thesis using Cons.IH [OF l(1)] QPop p
      by (cases "qrun push pop cs q'"; cases "qrun (lpush cap) lpop cs (elems q')") (auto simp: l(2))
  qed
qed simp

lemma pushes: "invar q \<Longrightarrow> invar (fold push xs q) \<and> elems (fold push xs q) = fold (lpush cap) xs (elems q)"
  by (induction xs arbitrary: q) (auto simp: push_law)

end

lemma lpush_fold: "length ys + length xs \<le> cap \<Longrightarrow> fold (lpush cap) xs ys = ys @ xs"
  by (induction xs arbitrary: ys) (auto simp: lpush_def)

lemma lpush_fold_take: "length ys \<le> cap \<Longrightarrow> fold (lpush cap) xs ys = take cap (ys @ xs)"
proof (induction xs arbitrary: ys)
  case (Cons x xs)
  show ?case
  proof (cases "length ys < cap")
    case True
    then have "cap - length ys = Suc (cap - Suc (length ys))" by simp
    then show ?thesis using Cons True by (simp add: lpush_def)
  next
    case False
    then show ?thesis using Cons by (simp add: lpush_def)
  qed
qed simp

end
