(* ===== verification/Events.thy ===== *)
theory Events
  imports Prelude
begin

text \<open>
  The events of \<open>src/src/dev/event.cpp\<close>, on which threads of the kernel wait: a count of pending
  signals and a list of the threads that wait.

  A waitable lives on the stack of the waiting thread and is named by the number of the thread; its
  flag \<open>in_list\<close> is kept with the event it waits for, and is \<open>False\<close> where the waitable is gone. The
  operations are the critical sections of the source. What happens while a thread is blocked or
  asleep is an argument, a function on the state of the events; the threads that a signal makes
  runnable are returned. Counts are natural numbers.
\<close>

section \<open>State and operations\<close>

record kevent =
  waiters :: "nat list"
  in_list :: "nat \<Rightarrow> bool"
  signaled_count :: nat

definition kevent_new :: kevent where
  "kevent_new = \<lparr>waiters = [], in_list = (\<lambda>_. False), signaled_count = 0\<rparr>"

definition ev_reset :: "kevent \<Rightarrow> kevent" where
  "ev_reset e = e\<lparr>signaled_count := 0\<rparr>"

definition is_being_waited :: "kevent \<Rightarrow> bool" where
  "is_being_waited e \<longleftrightarrow> waiters e \<noteq> []"

definition is_pending :: "kevent \<Rightarrow> bool" where
  "is_pending e \<longleftrightarrow> signaled_count e > 0"

text \<open>The critical section of \<open>wait\<close>: either the thread takes a signal and leaves, or it is queued and
  blocks.\<close>

definition ev_wait_section :: "bool \<Rightarrow> nat \<Rightarrow> kevent \<Rightarrow> bool \<times> kevent" where
  "ev_wait_section consume t e =
     (if signaled_count e \<noteq> 0
      then let e = (if in_list e t then e\<lparr>waiters := remove1 t (waiters e), in_list := (in_list e)(t := False)\<rparr> else e)
           in (True, if consume then e\<lparr>signaled_count := signaled_count e - 1\<rparr> else e)
      else (False, if \<not> in_list e t then e\<lparr>waiters := waiters e @ [t], in_list := (in_list e)(t := True)\<rparr> else e))"

text \<open>The loop around it, for what the rest of the system does in each of the times the thread is
  blocked; \<open>None\<close> if it is blocked still.\<close>

fun ev_wait :: "bool \<Rightarrow> nat \<Rightarrow> (kevent \<Rightarrow> kevent) list \<Rightarrow> kevent \<Rightarrow> kevent option" where
  "ev_wait consume t blocks e =
     (case ev_wait_section consume t e of
        (True, e) \<Rightarrow> Some e
      | (False, e) \<Rightarrow> (case blocks of [] \<Rightarrow> None | b # bs \<Rightarrow> ev_wait consume t bs (b e)))"

definition wait_with_timeout :: "nat \<Rightarrow> (kevent \<Rightarrow> kevent) \<Rightarrow> kevent \<Rightarrow> bool \<times> kevent" where
  "wait_with_timeout t sleep e =
     (if signaled_count e \<noteq> 0 then (True, e\<lparr>signaled_count := signaled_count e - 1\<rparr>)
      else let e = sleep (e\<lparr>waiters := waiters e @ [t], in_list := (in_list e)(t := True)\<rparr>);
               e = (if in_list e t then e\<lparr>waiters := remove1 t (waiters e), in_list := (in_list e)(t := False)\<rparr> else e)
           in if signaled_count e \<noteq> 0 then (True, e\<lparr>signaled_count := signaled_count e - 1\<rparr>) else (False, e))"

text \<open>\<open>wait_any\<close> queues its waitables without setting their flag, so that the removals that depend on
  the flag are never done.\<close>

definition any_unlink :: "nat \<Rightarrow> kevent \<Rightarrow> kevent" where
  "any_unlink t e = (if in_list e t then e\<lparr>waiters := remove1 t (waiters e)\<rparr> else e)"

fun any_first :: "nat \<Rightarrow> kevent list \<Rightarrow> kevent list \<Rightarrow> nat option \<times> kevent list" where
  "any_first t pre [] = (None, pre)"
| "any_first t pre (e # es) =
     (if signaled_count e \<noteq> 0
      then (Some (length pre + 1), map (any_unlink t) pre @ e\<lparr>signaled_count := signaled_count e - 1\<rparr> # es)
      else any_first t (pre @ [e\<lparr>waiters := waiters e @ [t]\<rparr>]) es)"

fun any_second :: "nat \<Rightarrow> kevent list \<Rightarrow> kevent list \<Rightarrow> nat \<times> kevent list" where
  "any_second t pre [] = (0, pre)"
| "any_second t pre (e # es) =
     (let e = any_unlink t e
      in if signaled_count e \<noteq> 0
         then (length pre + 1, pre @ e\<lparr>signaled_count := signaled_count e - 1\<rparr> # map (any_unlink t) es)
         else any_second t (pre @ [e]) es)"

definition wait_any :: "nat \<Rightarrow> (kevent list \<Rightarrow> kevent list) \<Rightarrow> kevent list \<Rightarrow> nat \<times> kevent list" where
  "wait_any t block es =
     (case any_first t [] (map (\<lambda>e. e\<lparr>in_list := (in_list e)(t := False)\<rparr>) es) of
        (Some i, es) \<Rightarrow> (i, es)
      | (None, es) \<Rightarrow> any_second t [] (block es))"

definition ev_pop :: "kevent \<Rightarrow> nat list \<times> kevent" where
  "ev_pop e = (case waiters e of [] \<Rightarrow> ([], e) | t # ts \<Rightarrow> ([t], e\<lparr>waiters := ts, in_list := (in_list e)(t := False)\<rparr>))"

definition signal_one :: "kevent \<Rightarrow> nat list \<times> kevent" where
  "signal_one e = ev_pop (e\<lparr>signaled_count := signaled_count e + 1\<rparr>)"

definition signal_one_if_not_pending :: "kevent \<Rightarrow> nat list \<times> kevent" where
  "signal_one_if_not_pending e =
     (if signaled_count e \<noteq> 0 then ([], e) else ev_pop (e\<lparr>signaled_count := signaled_count e + 1\<rparr>))"

definition signal_all :: "kevent \<Rightarrow> nat list \<times> kevent" where
  "signal_all e = (waiters e, e\<lparr>signaled_count := signaled_count e + 1, waiters := [],
     in_list := (\<lambda>t. if t \<in> set (waiters e) then False else in_list e t)\<rparr>)"

text \<open>The loop of \<open>signal_count\<close> leaves before it removes the last waitable that it wakes; a count of 0
  wraps around and wakes all.\<close>

fun signal_count_loop :: "nat list \<Rightarrow> usize \<Rightarrow> kevent \<Rightarrow> nat list \<times> kevent" where
  "signal_count_loop [] count e = ([], e)"
| "signal_count_loop (t # ts) count e =
     (if count - 1 = 0 then ([t], e)
      else let (woken, e) = signal_count_loop ts (count - 1) (e\<lparr>waiters := remove1 t (waiters e), in_list := (in_list e)(t := False)\<rparr>)
           in (t # woken, e))"

definition signal_count :: "usize \<Rightarrow> kevent \<Rightarrow> nat list \<times> kevent" where
  "signal_count count e = signal_count_loop (waiters e) count (e\<lparr>signaled_count := signaled_count e + unat count\<rparr>)"

section \<open>Callbacks\<close>

text \<open>The callbacks of a producer, with whether the vector that holds them has storage. The first
  element of an empty vector with storage is a callback that has been moved away; calling it is the
  result \<open>None\<close>. The other results are the callbacks that are called.\<close>

record 'c producer =
  callbacks :: "'c list"
  cb_storage :: bool

definition add_callback :: "'c \<Rightarrow> 'c producer \<Rightarrow> nat \<times> 'c producer" where
  "add_callback c p = (length (callbacks p), p\<lparr>callbacks := callbacks p @ [c], cb_storage := True\<rparr>)"

definition remove_callback :: "nat \<Rightarrow> 'c producer \<Rightarrow> 'c producer option" where
  "remove_callback index p =
     (if index < length (callbacks p)
      then Some (p\<lparr>callbacks := take index (callbacks p) @ drop (Suc index) (callbacks p)\<rparr>) else None)"

definition cb_signal_one :: "'c producer \<Rightarrow> 'c list option" where
  "cb_signal_one p = (case callbacks p of c # _ \<Rightarrow> Some [c] | [] \<Rightarrow> if cb_storage p then None else Some [])"

definition cb_signal_all :: "'c producer \<Rightarrow> 'c list" where
  "cb_signal_all p = callbacks p"

section \<open>Well-formed events\<close>

definition ev_wf :: "kevent \<Rightarrow> bool" where
  "ev_wf e \<longleftrightarrow> distinct (waiters e) \<and> (\<forall>t. in_list e t \<longleftrightarrow> t \<in> set (waiters e))"

text \<open>The events as threads use them: a thread that is not queued starts to wait or runs again after
  it was woken, and signals come from anywhere.\<close>

datatype ev_op = Try bool nat | Sig_One | Sig_If_Not_Pending | Sig_All | Sig_Count usize

fun ev_op_step :: "ev_op \<Rightarrow> kevent \<Rightarrow> kevent" where
  "ev_op_step (Try consume t) e = snd (ev_wait_section consume t e)"
| "ev_op_step Sig_One e = snd (signal_one e)"
| "ev_op_step Sig_If_Not_Pending e = snd (signal_one_if_not_pending e)"
| "ev_op_step Sig_All e = snd (signal_all e)"
| "ev_op_step (Sig_Count n) e = snd (signal_count n e)"

fun ev_given :: "ev_op \<Rightarrow> kevent \<Rightarrow> nat" where
  "ev_given (Try consume t) e = 0"
| "ev_given Sig_If_Not_Pending e = (if is_pending e then 0 else 1)"
| "ev_given (Sig_Count n) e = unat n"
| "ev_given _ e = 1"

fun ev_taken :: "ev_op \<Rightarrow> kevent \<Rightarrow> nat" where
  "ev_taken (Try consume t) e = (if consume \<and> fst (ev_wait_section consume t e) then 1 else 0)"
| "ev_taken _ e = 0"

fun ev_trace :: "ev_op list \<Rightarrow> kevent \<Rightarrow> nat \<times> nat \<times> kevent" where
  "ev_trace [] e = (0, 0, e)"
| "ev_trace (p # ps) e = (let (g, k, e') = ev_trace ps (ev_op_step p e) in (ev_given p e + g, ev_taken p e + k, e'))"

lemma ev_wf_unqueue: "ev_wf e \<Longrightarrow> ev_wf (e\<lparr>waiters := remove1 t (waiters e), in_list := (in_list e)(t := False)\<rparr>)"
  by (auto simp: ev_wf_def)

lemma ev_wf_queue: "ev_wf e \<Longrightarrow> \<not> in_list e t \<Longrightarrow> ev_wf (e\<lparr>waiters := waiters e @ [t], in_list := (in_list e)(t := True)\<rparr>)"
  by (auto simp: ev_wf_def)

lemma ev_wf_count [simp]: "ev_wf (e\<lparr>signaled_count := n\<rparr>) = ev_wf e"
  by (simp add: ev_wf_def)

lemma ev_pop_wf: "ev_wf e \<Longrightarrow> ev_wf (snd (ev_pop e)) \<and> signaled_count (snd (ev_pop e)) = signaled_count e"
  by (auto simp: ev_pop_def ev_wf_def split: list.splits)

lemma signal_count_loop_wf:
  "ev_wf e \<Longrightarrow> ev_wf (snd (signal_count_loop ts n e)) \<and> signaled_count (snd (signal_count_loop ts n e)) = signaled_count e"
proof (induction ts n e rule: signal_count_loop.induct)
  case (2 t ts n e)
  then show ?case using ev_wf_unqueue [of e t] by (auto simp: split_beta Let_def)
qed simp

lemma ev_wait_section_wf:
  "ev_wf e \<Longrightarrow> ev_wf (snd (ev_wait_section c t e)) \<and>
    signaled_count (snd (ev_wait_section c t e)) + (if c \<and> fst (ev_wait_section c t e) then 1 else 0) = signaled_count e"
  using ev_wf_unqueue [of e t] ev_wf_queue [of e t] by (auto simp: ev_wait_section_def Let_def)

lemma ev_op_step_wf:
  assumes "ev_wf e"
  shows "ev_wf (ev_op_step p e) \<and> signaled_count (ev_op_step p e) + ev_taken p e = signaled_count e + ev_given p e"
proof (cases p)
  case (Try c t)
  then show ?thesis using ev_wait_section_wf [OF assms, of c t] by simp
next
  case Sig_All
  then show ?thesis using assms by (auto simp: signal_all_def ev_wf_def)
next
  case (Sig_Count n)
  then show ?thesis using signal_count_loop_wf [of "e\<lparr>signaled_count := signaled_count e + unat n\<rparr>"] assms by (simp add: signal_count_def)
qed (use assms ev_pop_wf [of "e\<lparr>signaled_count := signaled_count e + 1\<rparr>"] in
    \<open>auto simp: signal_one_def signal_one_if_not_pending_def is_pending_def\<close>)





end
