(* ===== verification/Pipe.thy ===== *)
theory Pipe
  imports Ring Events "HOL-Library.Monad_Syntax"
begin

text \<open>
  Ring buffers and pipes, \<open>src/src/std/ring_buffer.hpp\<close> and \<open>src/src/fs/pipe.cpp\<close>.

  The loops of \<open>RingBuffer\<close> take the lock once per round, so a round is one step: \<open>read_sec\<close> and
  \<open>write_sec\<close> are the critical sections that the variants of reading and writing share. The calls that
  do not block are given as whole loops first (\<open>rb_read\<close>, \<open>rb_write\<close>), and all calls as threads whose
  steps interleave (\<open>thread_step\<close>). Positions and sizes are natural numbers.
\<close>

section \<open>The ring buffer\<close>

record ring =
  rb_data :: "u8 list"
  read_ptr :: nat
  write_ptr :: nat
  buffer_size :: nat
  read_event :: kevent
  write_event :: kevent

definition rb_new :: "nat \<Rightarrow> ring" where
  "rb_new max_size = \<lparr>rb_data = replicate max_size 0, read_ptr = 0, write_ptr = 0, buffer_size = 0,
     read_event = kevent_new, write_event = kevent_new\<rparr>"

definition read_sec :: "nat \<Rightarrow> ring \<Rightarrow> u8 list \<times> ring" where
  "read_sec size' rb =
     (let remaining_at_end = length (rb_data rb) - read_ptr rb;
          to_read = min (min (buffer_size rb) size') remaining_at_end;
          ptr = read_ptr rb + to_read
      in (take to_read (drop (read_ptr rb) (rb_data rb)),
          rb\<lparr>read_ptr := (if ptr = length (rb_data rb) then 0 else ptr), buffer_size := buffer_size rb - to_read\<rparr>))"

definition write_sec :: "u8 list \<Rightarrow> ring \<Rightarrow> nat \<times> ring" where
  "write_sec data rb =
     (let remaining_at_end = length (rb_data rb) - write_ptr rb;
          to_write = min (min (length (rb_data rb) - buffer_size rb) (length data)) remaining_at_end;
          ptr = write_ptr rb + to_write
      in (to_write,
          rb\<lparr>read_event := (if buffer_size rb = 0 then snd (signal_one (read_event rb)) else read_event rb),
             rb_data := blit (rb_data rb) (write_ptr rb) (take to_write data),
             write_ptr := (if ptr = length (rb_data rb) then 0 else ptr), buffer_size := buffer_size rb + to_write\<rparr>))"

partial_function (option) rb_read :: "nat \<Rightarrow> ring \<Rightarrow> (u8 list \<times> ring) option" where
  "rb_read size' rb =
     (let (data, rb) = read_sec size' rb; size' = size' - length data
      in if size' \<noteq> 0 \<and> buffer_size rb = 0 then Some (data, rb)
         else if size' = 0 then Some (data, rb)
         else do { (more, rb) \<leftarrow> rb_read size' rb; Some (data @ more, rb) })"

partial_function (option) rb_write :: "u8 list \<Rightarrow> ring \<Rightarrow> (nat \<times> ring) option" where
  "rb_write data rb =
     (let (n, rb) = write_sec data rb; data = drop n data
      in if data \<noteq> [] \<and> buffer_size rb = length (rb_data rb) then Some (n, rb)
         else if data = [] then Some (n, rb)
         else do { (more, rb) \<leftarrow> rb_write data rb; Some (n + more, rb) })"

text \<open>\<open>read_some\<close> waits for data or an interrupt; \<open>wait_any\<close> gives the index that the wait returns and
  the buffer as other threads have left it. The results are the bytes and whether it was interrupted.\<close>

partial_function (option) read_some_loop ::
    "(ring \<Rightarrow> nat \<times> ring) \<Rightarrow> nat \<Rightarrow> nat \<Rightarrow> nat \<Rightarrow> ring \<Rightarrow> (u8 list \<times> bool \<times> ring) option" where
  "read_some_loop wait min' max' size' rb =
     (let (data, rb) = read_sec size' rb; size' = size' - length data
      in if size' \<noteq> 0 \<and> buffer_size rb = 0
         then if max' - size' \<ge> min' then Some (data, False, rb)
              else let (index, rb) = wait (rb\<lparr>write_event := snd (signal_one (write_event rb))\<rparr>)
                   in if index = 0 then None
                      else if index = 2 then Some (data, True, rb)
                      else do { (more, i, rb) \<leftarrow> read_some_loop wait min' max' size' rb; Some (data @ more, i, rb) }
         else if size' = 0 then Some (data, False, rb)
         else do { (more, i, rb) \<leftarrow> read_some_loop wait min' max' size' rb; Some (data @ more, i, rb) })"

definition read_some :: "(ring \<Rightarrow> nat \<times> ring) \<Rightarrow> nat \<Rightarrow> nat \<Rightarrow> ring \<Rightarrow> (u8 list \<times> bool \<times> ring) option" where
  "read_some wait min' max' rb = read_some_loop wait min' max' max' rb"

definition rb_size :: "ring \<Rightarrow> nat" where
  "rb_size rb = buffer_size rb"

section \<open>Threads that read and write\<close>

datatype phase = Copy | Signal | Wait | Done

text \<open>A reader with whether it blocks, the bytes it still wants and those it has got; a writer with the
  bytes it has left.\<close>

datatype thread = Reader bool nat "u8 list" phase | Writer bool "u8 list" phase

record pipe_sys =
  pring :: ring
  thr :: "nat \<Rightarrow> thread"
  sent :: "u8 list"
  received :: "u8 list"

definition wait_step :: "nat \<Rightarrow> kevent \<Rightarrow> (phase \<times> kevent) option" where
  "wait_step t e =
     (if in_list e t then None else case ev_wait_section True t e of (ok, e) \<Rightarrow> Some (if ok then Copy else Wait, e))"

fun reader_step :: "nat \<Rightarrow> bool \<Rightarrow> nat \<Rightarrow> u8 list \<Rightarrow> phase \<Rightarrow> pipe_sys \<Rightarrow> pipe_sys option" where
  "reader_step t block left got Copy s =
     (case read_sec left (pring s) of (bs, rb) \<Rightarrow>
        let left = left - length bs;
            ph = (if left \<noteq> 0 \<and> buffer_size rb = 0 then (if block then Signal else Done) else if left = 0 then Done else Copy)
        in Some (s\<lparr>pring := rb, thr := (thr s)(t := Reader block left (got @ bs) ph), received := received s @ bs\<rparr>))"
| "reader_step t block left got Signal s =
     Some (s\<lparr>pring := (pring s)\<lparr>write_event := snd (signal_one (write_event (pring s)))\<rparr>, thr := (thr s)(t := Reader block left got Wait)\<rparr>)"
| "reader_step t block left got Wait s =
     (case wait_step t (read_event (pring s)) of None \<Rightarrow> None
      | Some (ph, e) \<Rightarrow> Some (s\<lparr>pring := (pring s)\<lparr>read_event := e\<rparr>, thr := (thr s)(t := Reader block left got ph)\<rparr>))"
| "reader_step t block left got Done s = None"

fun writer_step :: "nat \<Rightarrow> bool \<Rightarrow> u8 list \<Rightarrow> phase \<Rightarrow> pipe_sys \<Rightarrow> pipe_sys option" where
  "writer_step t block rest Copy s =
     (case write_sec rest (pring s) of (n, rb) \<Rightarrow>
        let ph = (if drop n rest \<noteq> [] \<and> buffer_size rb = length (rb_data rb) then (if block then Wait else Done)
                  else if drop n rest = [] then Done else Copy)
        in Some (s\<lparr>pring := rb, thr := (thr s)(t := Writer block (drop n rest) ph), sent := sent s @ take n rest\<rparr>))"
| "writer_step t block rest Wait s =
     (case wait_step t (write_event (pring s)) of None \<Rightarrow> None
      | Some (ph, e) \<Rightarrow> Some (s\<lparr>pring := (pring s)\<lparr>write_event := e\<rparr>, thr := (thr s)(t := Writer block rest ph)\<rparr>))"
| "writer_step t block rest _ s = None"

definition thread_step :: "nat \<Rightarrow> pipe_sys \<Rightarrow> pipe_sys option" where
  "thread_step t s = (case thr s t of Reader b left got ph \<Rightarrow> reader_step t b left got ph s | Writer b rest ph \<Rightarrow> writer_step t b rest ph s)"

fun pipe_run :: "nat list \<Rightarrow> pipe_sys \<Rightarrow> pipe_sys option" where
  "pipe_run [] s = Some s"
| "pipe_run (t # ts) s = (case thread_step t s of None \<Rightarrow> None | Some s \<Rightarrow> pipe_run ts s)"

definition pipe_start :: "nat \<Rightarrow> (nat \<Rightarrow> thread) \<Rightarrow> pipe_sys" where
  "pipe_start max_size ths = \<lparr>pring = rb_new max_size, thr = ths, sent = [], received = []\<rparr>"

section \<open>Pipes\<close>

datatype fs_status = Success | Unsupported | OutOfBounds | TryAgain

record pipe_end =
  non_block :: bool
  reading :: bool

definition pipe_create :: "nat \<Rightarrow> bool \<Rightarrow> bool \<Rightarrow> ring \<times> pipe_end \<times> pipe_end" where
  "pipe_create max_size read_flags write_flags =
     (rb_new max_size, \<lparr>non_block = read_flags, reading = True\<rparr>, \<lparr>non_block = write_flags, reading = False\<rparr>)"

text \<open>A call on an end of a pipe either returns with a status and a size, or goes on as a thread that may
  block and returns success when it is done.\<close>

datatype pipe_call = Returns fs_status nat "u8 list" ring | Blocks thread

definition pipe_read :: "pipe_end \<Rightarrow> nat \<Rightarrow> nat \<Rightarrow> ring \<Rightarrow> pipe_call option" where
  "pipe_read p size' offset rb =
     (if \<not> reading p \<or> offset \<noteq> 0 then Some (Returns Unsupported size' [] rb)
      else if non_block p
      then do { (data, rb) \<leftarrow> rb_read size' rb;
                Some (Returns (if length data = 0 then TryAgain else Success) (length data) data rb) }
      else Some (Blocks (Reader True size' [] Copy)))"

definition pipe_write :: "pipe_end \<Rightarrow> u8 list \<Rightarrow> nat \<Rightarrow> ring \<Rightarrow> pipe_call option" where
  "pipe_write p data offset rb =
     (if reading p \<or> offset \<noteq> 0 then Some (Returns Unsupported (length data) [] rb)
      else if non_block p
      then do { (n, rb) \<leftarrow> rb_write data rb; Some (Returns (if n = 0 then TryAgain else Success) n [] rb) }
      else Some (Blocks (Writer True data Copy)))"

definition pipe_stat :: "ring \<Rightarrow> fs_status \<times> nat" where
  "pipe_stat rb = (Success, rb_size rb)"

section \<open>The contents of the ring\<close>

definition contents :: "ring \<Rightarrow> u8 list" where
  "contents rb = ring_slice (rb_data rb) (read_ptr rb) (buffer_size rb)"

definition rb_ok :: "ring \<Rightarrow> bool" where
  "rb_ok rb \<longleftrightarrow> buffer_size rb \<le> length (rb_data rb) \<and> write_ptr rb = (read_ptr rb + buffer_size rb) mod length (rb_data rb) \<and>
     (read_ptr rb < length (rb_data rb) \<or> length (rb_data rb) = 0 \<and> read_ptr rb = 0)"

lemma length_contents [simp]: "length (contents rb) = buffer_size rb"
  by (simp add: contents_def)

lemma contents_Nil [simp]: "contents rb = [] \<longleftrightarrow> buffer_size rb = 0"
  by (metis length_contents length_0_conv)

lemma rb_ok_new: "rb_ok (rb_new n)" "contents (rb_new n) = []" "length (rb_data (rb_new n)) = n"
  by (auto simp: rb_ok_def rb_new_def contents_def)

lemma read_sec_ok:
  assumes ok: "rb_ok rb" and sec: "read_sec n rb = (bs, rb')"
  shows "rb_ok rb'" and "contents rb = bs @ contents rb'" and "length bs \<le> n" and "rb_data rb' = rb_data rb"
    and "read_event rb' = read_event rb" and "write_event rb' = write_event rb" and "n \<noteq> 0 \<Longrightarrow> buffer_size rb \<noteq> 0 \<Longrightarrow> bs \<noteq> []"
proof -
  define L where "L = length (rb_data rb)"
  define k where "k = min (min (buffer_size rb) n) (L - read_ptr rb)"
  have k: "k \<le> buffer_size rb" "k \<le> n" "read_ptr rb + k \<le> L" using ok by (auto simp: k_def L_def rb_ok_def)
  have bs: "bs = take k (drop (read_ptr rb) (rb_data rb))" and d: "rb_data rb' = rb_data rb"
    and b': "buffer_size rb' = buffer_size rb - k" and r': "read_ptr rb' = (if read_ptr rb + k = L then 0 else read_ptr rb + k)"
    and w': "write_ptr rb' = write_ptr rb" and ev: "read_event rb' = read_event rb" "write_event rb' = write_event rb"
    using sec unfolding read_sec_def Let_def L_def [symmetric] k_def [symmetric] by auto
  have lbs: "length bs = k" using k(3) by (simp add: bs L_def)
  have rm: "read_ptr rb' = (read_ptr rb + k) mod L" using k(3) ok by (auto simp: r' rb_ok_def L_def)
  show "rb_data rb' = rb_data rb" "read_event rb' = read_event rb" "write_event rb' = write_event rb" "length bs \<le> n"
    using d ev lbs k(2) by simp_all
  have "contents rb = ring_slice (rb_data rb) (read_ptr rb) (k + (buffer_size rb - k))" using k(1) by (simp add: contents_def)
  also have "\<dots> = bs @ contents rb'"
    using k(3) unfolding ring_slice_add by (simp add: bs ring_slice_linear L_def contents_def d b' rm)
  finally show "contents rb = bs @ contents rb'" .
  have "(read_ptr rb' + buffer_size rb') mod L = (read_ptr rb + buffer_size rb) mod L"
    unfolding rm b' mod_add_left_eq using k(1) by simp
  moreover have "read_ptr rb' < L \<or> L = 0 \<and> read_ptr rb' = 0" using ok k(3) by (auto simp: r' rb_ok_def L_def)
  moreover have "buffer_size rb' \<le> L" "write_ptr rb = (read_ptr rb + buffer_size rb) mod L" using ok by (auto simp: b' rb_ok_def L_def)
  ultimately show "rb_ok rb'" unfolding rb_ok_def d w' L_def [symmetric] by simp
  show "bs \<noteq> []" if "n \<noteq> 0" "buffer_size rb \<noteq> 0"
  proof -
    have "k \<noteq> 0" using that ok by (auto simp: k_def L_def rb_ok_def)
    then show ?thesis using lbs by auto
  qed
qed

lemma write_sec_ok:
  assumes ok: "rb_ok rb" and sec: "write_sec vs rb = (n, rb')"
  shows "rb_ok rb'" and "contents rb' = contents rb @ take n vs" and "n \<le> length vs" and "length (rb_data rb') = length (rb_data rb)"
    and "read_event rb' = (if buffer_size rb = 0 then snd (signal_one (read_event rb)) else read_event rb)"
    and "write_event rb' = write_event rb" and "vs \<noteq> [] \<Longrightarrow> buffer_size rb \<noteq> length (rb_data rb) \<Longrightarrow> n \<noteq> 0"
    and "buffer_size rb' = buffer_size rb + n"
proof -
  define L where "L = length (rb_data rb)"
  define k where "k = min (min (L - buffer_size rb) (length vs)) (L - write_ptr rb)"
  have wm: "write_ptr rb = (read_ptr rb + buffer_size rb) mod L" and bL: "buffer_size rb \<le> L"
    and r0: "L = 0 \<Longrightarrow> read_ptr rb = 0" and rL: "read_ptr rb < L \<or> L = 0 \<and> read_ptr rb = 0"
    using ok by (auto simp: rb_ok_def L_def)
  have wl: "write_ptr rb < L \<or> L = 0 \<and> write_ptr rb = 0"
  proof (cases "L = 0")
    case True
    then show ?thesis using wm bL r0 by simp
  next
    case False
    then have "0 < L" by simp
    then show ?thesis unfolding wm using mod_less_divisor by blast
  qed
  then have k: "k \<le> length vs" "buffer_size rb + k \<le> L" "write_ptr rb + k \<le> L" using bL unfolding k_def by linarith+
  have n: "n = k" and d': "rb_data rb' = blit (rb_data rb) (write_ptr rb) (take k vs)"
    and w': "write_ptr rb' = (if write_ptr rb + k = L then 0 else write_ptr rb + k)"
    and b': "buffer_size rb' = buffer_size rb + k" and r': "read_ptr rb' = read_ptr rb"
    and ev: "read_event rb' = (if buffer_size rb = 0 then snd (signal_one (read_event rb)) else read_event rb)" "write_event rb' = write_event rb"
    using sec unfolding write_sec_def Let_def L_def [symmetric] k_def [symmetric] by auto
  have ld: "length (blit (rb_data rb) (write_ptr rb) (take k vs)) = L" using k(1,3) unfolding L_def by simp
  show "n \<le> length vs" unfolding n by (rule k(1))
  show "length (rb_data rb') = length (rb_data rb)" "write_event rb' = write_event rb" "buffer_size rb' = buffer_size rb + n"
    "read_event rb' = (if buffer_size rb = 0 then snd (signal_one (read_event rb)) else read_event rb)"
    using ld ev by (simp_all add: d' b' n L_def)
  have "ring_slice (blit (rb_data rb) (write_ptr rb) (take k vs)) (read_ptr rb) (buffer_size rb + length (take k vs)) =
      ring_slice (rb_data rb) (read_ptr rb) (buffer_size rb) @ take k vs"
    by (rule ring_slice_blit) (use k wm in \<open>simp_all only: L_def [symmetric] length_take min.absorb2\<close>)
  then show "contents rb' = contents rb @ take n vs" unfolding contents_def d' b' r' n using k(1) by simp
  have "write_ptr rb' = (write_ptr rb + k) mod L" using k(3) wl by (auto simp: w')
  also have "\<dots> = (read_ptr rb + buffer_size rb + k) mod L" unfolding wm by (rule mod_add_left_eq)
  finally have "write_ptr rb' = (read_ptr rb' + buffer_size rb') mod L" by (simp add: b' r' add.assoc)
  moreover have "length (rb_data rb') = L" "buffer_size rb' \<le> L" "read_ptr rb' = read_ptr rb" using ld k(2) by (simp_all add: d' b' r')
  ultimately show "rb_ok rb'" unfolding rb_ok_def using rL by simp
  show "n \<noteq> 0" if "vs \<noteq> []" "buffer_size rb \<noteq> length (rb_data rb)"
  proof -
    have "0 < length vs" using that(1) by simp
    moreover have "0 < L - buffer_size rb" "0 < L - write_ptr rb" using that(2) bL wl unfolding L_def [symmetric] by linarith+
    ultimately show ?thesis unfolding n k_def by linarith
  qed
qed

section \<open>Calls that do not block\<close>

lemma rb_read_total:
  assumes "rb_ok rb"
  shows "\<exists>rb'. rb_read n rb = Some (take n (contents rb), rb') \<and> rb_ok rb' \<and> contents rb' = drop n (contents rb) \<and>
    rb_data rb' = rb_data rb"
  using assms
proof (induction n arbitrary: rb rule: less_induct)
  case (less n)
  obtain bs rb1 where sec: "read_sec n rb = (bs, rb1)" by fastforce
  note R = read_sec_ok [OF less.prems sec]
  show ?case
  proof (cases "n - length bs \<noteq> 0 \<and> buffer_size rb1 \<noteq> 0")
    case True
    then have "contents rb \<noteq> []" using R(2) by simp
    then have "buffer_size rb \<noteq> 0" by simp
    then have "bs \<noteq> []" using R(7) True by auto
    then have lt: "n - length bs < n" using True by (simp add: diff_less)
    obtain rb2 where I: "rb_read (n - length bs) rb1 = Some (take (n - length bs) (contents rb1), rb2)" "rb_ok rb2"
      "contents rb2 = drop (n - length bs) (contents rb1)" "rb_data rb2 = rb_data rb1" using less.IH [OF lt R(1)] by blast
    have "rb_read n rb = Some (bs @ take (n - length bs) (contents rb1), rb2)"
      by (subst rb_read.simps) (use sec True I(1) in simp)
    then show ?thesis using I R(2,3,4) by (simp add: R(2))
  next
    case False
    then have e: "rb_read n rb = Some (bs, rb1)" by (subst rb_read.simps) (use sec in \<open>auto simp: Let_def\<close>)
    have "n = length bs \<or> contents rb1 = []" using False R(3) by auto
    then show ?thesis using e R(1-4) by auto
  qed
qed

lemma rb_write_total:
  assumes "rb_ok rb"
  shows "\<exists>rb'. rb_write vs rb = Some (min (length vs) (length (rb_data rb) - buffer_size rb), rb') \<and> rb_ok rb' \<and>
    contents rb' = contents rb @ take (min (length vs) (length (rb_data rb) - buffer_size rb)) vs \<and>
    length (rb_data rb') = length (rb_data rb)"
  using assms
proof (induction "length vs" arbitrary: vs rb rule: less_induct)
  case less
  obtain k rb1 where sec: "write_sec vs rb = (k, rb1)" by fastforce
  note W = write_sec_ok [OF less.prems sec]
  show ?case
  proof (cases "drop k vs \<noteq> [] \<and> buffer_size rb1 \<noteq> length (rb_data rb1)")
    case True
    have k: "k \<noteq> 0"
    proof
      assume "k = 0"
      then show False using True W(4,7,8) by auto
    qed
    then have lt: "length (drop k vs) < length vs" using True by (cases vs) auto
    define m where "m = min (length (drop k vs)) (length (rb_data rb1) - buffer_size rb1)"
    obtain rb2 where I: "rb_write (drop k vs) rb1 = Some (m, rb2)" "rb_ok rb2" "contents rb2 = contents rb1 @ take m (drop k vs)"
      "length (rb_data rb2) = length (rb_data rb1)" using less.hyps [OF lt W(1), folded m_def] by blast
    have "rb_write vs rb = Some (k + m, rb2)" by (subst rb_write.simps) (use sec True I(1) in simp)
    moreover have "min (length vs) (length (rb_data rb) - buffer_size rb) = k + m" using W(3,4,8) W(1) by (auto simp: m_def rb_ok_def)
    ultimately show ?thesis using I W(2,4) by (simp add: take_add)
  next
    case False
    then have e: "rb_write vs rb = Some (k, rb1)" by (subst rb_write.simps) (use sec in \<open>auto simp: Let_def\<close>)
    have "min (length vs) (length (rb_data rb) - buffer_size rb) = k"
      using False W(1,3,4,8) by (auto simp: rb_ok_def)
    then show ?thesis using e W(1,2,4) by simp
  qed
qed

text \<open>C34 The loops of \<open>read\<close> and \<open>write\<close> end on every buffer: a write stores as many bytes as there is room
  for behind those in the buffer and returns their number, and a read returns the oldest bytes, as
  many as there are up to the number wanted, and removes them.\<close>

theorem rb_calls_return:
  assumes "rb_ok rb"
  shows "(\<exists>rb'. rb_write vs rb = Some (min (length vs) (length (rb_data rb) - length (contents rb)), rb') \<and> rb_ok rb' \<and>
      contents rb' = contents rb @ take (length (rb_data rb) - length (contents rb)) vs) \<and>
    (\<exists>rb'. rb_read n rb = Some (take n (contents rb), rb') \<and> rb_ok rb' \<and> contents rb' = drop n (contents rb))"
  using rb_write_total [OF assms, of vs] rb_read_total [OF assms, of n] by (auto simp: min_def)

theorem rb_calls_return_witness:
  "\<exists>rb rb'. rb_write [1, 2, 3] (rb_new 2) = Some (2, rb) \<and> rb_read 5 rb = Some ([1, 2], rb')"
proof -
  obtain rb where rb: "rb_write [1, 2, 3] (rb_new 2) = Some (2, rb)" "rb_ok rb" "contents rb = [1, 2]"
    using rb_calls_return [OF rb_ok_new(1) [of 2], of "[1, 2, 3]" 0] by (auto simp: rb_ok_new)
  then show ?thesis using rb_calls_return [OF rb(2), of "[]" 5] by auto
qed

section \<open>Every interleaving moves the bytes in order\<close>

definition stream_ok :: "nat \<Rightarrow> pipe_sys \<Rightarrow> bool" where
  "stream_ok cap s \<longleftrightarrow> rb_ok (pring s) \<and> length (rb_data (pring s)) = cap \<and> sent s = received s @ contents (pring s)"

lemma contents_event [simp]:
  "contents (rb\<lparr>read_event := e\<rparr>) = contents rb" "contents (rb\<lparr>write_event := e\<rparr>) = contents rb"
  "rb_ok (rb\<lparr>read_event := e\<rparr>) = rb_ok rb" "rb_ok (rb\<lparr>write_event := e\<rparr>) = rb_ok rb"
  by (simp_all add: contents_def rb_ok_def)

lemma stream_step:
  assumes "stream_ok cap s" and "thread_step t s = Some s'"
  shows "stream_ok cap s'"
proof (cases "thr s t")
  case (Reader b left got ph)
  then have st: "reader_step t b left got ph s = Some s'" using assms(2) by (simp add: thread_step_def)
  show ?thesis
  proof (cases ph)
    case Copy
    obtain bs rb where sec: "read_sec left (pring s) = (bs, rb)" by fastforce
    have "rb_ok (pring s)" using assms(1) by (simp add: stream_ok_def)
    from read_sec_ok [OF this sec] show ?thesis
      using st Copy sec assms(1) by (auto simp: stream_ok_def Let_def)
  qed (use st assms(1) in \<open>auto simp: stream_ok_def split: option.splits\<close>)
next
  case (Writer b rest ph)
  then have st: "writer_step t b rest ph s = Some s'" using assms(2) by (simp add: thread_step_def)
  show ?thesis
  proof (cases ph)
    case Copy
    obtain n rb where sec: "write_sec rest (pring s) = (n, rb)" by fastforce
    have "rb_ok (pring s)" using assms(1) by (simp add: stream_ok_def)
    from write_sec_ok [OF this sec] show ?thesis
      using st Copy sec assms(1) by (auto simp: stream_ok_def Let_def)
  qed (use st assms(1) in \<open>auto simp: stream_ok_def split: option.splits\<close>)
qed

lemma stream_run: "stream_ok cap s \<Longrightarrow> pipe_run ts s = Some s' \<Longrightarrow> stream_ok cap s'"
  by (induction ts arbitrary: s) (auto split: option.splits dest: stream_step)

text \<open>C33 However reading and writing threads interleave, with calls that block or not, the bytes received
  are in order the first of the bytes sent, and the rest, never more than the buffer has room for,
  is in the buffer.\<close>

theorem pipe_is_a_stream:
  assumes "pipe_run ts (pipe_start max_size ths) = Some s"
  shows "sent s = received s @ contents (pring s) \<and> length (contents (pring s)) \<le> max_size \<and> rb_ok (pring s)"
proof -
  have "stream_ok max_size (pipe_start max_size ths)" using rb_ok_new [of max_size] by (auto simp: stream_ok_def pipe_start_def simp del: contents_Nil)
  then have "stream_ok max_size s" using assms by (rule stream_run)
  then show ?thesis by (auto simp: stream_ok_def rb_ok_def)
qed

theorem pipe_is_a_stream_witness:
  "\<exists>s. pipe_run [0, 1] (pipe_start 2 (\<lambda>t. if t = 0 then Writer False [5, 6, 7] Copy else Reader False 1 [] Copy)) = Some s \<and>
     sent s = [5] @ contents (pring s)"
proof -
  obtain s where s: "pipe_run [0, 1] (pipe_start 2 (\<lambda>t. if t = 0 then Writer False [5, 6, 7] Copy else Reader False 1 [] Copy)) = Some s"
    "received s = [5]"
    by (simp add: thread_step_def pipe_start_def rb_new_def write_sec_def read_sec_def blit_def kevent_new_def signal_one_def ev_pop_def Let_def)
  show ?thesis using pipe_is_a_stream [OF s(1)] s by auto
qed

section \<open>A transfer that blocks\<close>

text \<open>One thread, number 0, writes \<open>data\<close> and another, number 1, reads as many bytes, both with the
  calls that block.\<close>

definition transfer :: "u8 list \<Rightarrow> nat \<Rightarrow> thread" where
  "transfer data t = (if t = 0 then Writer True data Copy else if t = 1 then Reader True (length data) [] Copy else Reader False 0 [] Done)"

definition ev_only :: "nat \<Rightarrow> kevent \<Rightarrow> bool" where
  "ev_only t e \<longleftrightarrow> waiters e = (if in_list e t then [t] else []) \<and> (in_list e t \<longrightarrow> signaled_count e = 0)"

text \<open>No wake-up is lost: a reader that waits while there is data has a signal pending, and so has a
  writer that waits while a waiting reader has found the buffer empty.\<close>

definition xfer_inv :: "u8 list \<Rightarrow> u8 list \<Rightarrow> phase \<Rightarrow> nat \<Rightarrow> u8 list \<Rightarrow> phase \<Rightarrow> pipe_sys \<Rightarrow> bool" where
  "xfer_inv data rest wp left got rp s \<longleftrightarrow>
     thr s = (transfer data)(0 := Writer True rest wp, 1 := Reader True left got rp) \<and>
     rb_ok (pring s) \<and> 0 < length (rb_data (pring s)) \<and>
     data = got @ contents (pring s) @ rest \<and> left + length got = length data \<and>
     wp \<noteq> Signal \<and> (wp = Wait \<longrightarrow> rest \<noteq> []) \<and> (wp = Done \<longrightarrow> rest = []) \<and>
     (rp = Signal \<or> rp = Wait \<longrightarrow> left \<noteq> 0) \<and> (rp = Done \<longrightarrow> left = 0) \<and>
     ev_only 1 (read_event (pring s)) \<and> (in_list (read_event (pring s)) 1 \<longrightarrow> rp = Wait) \<and>
     ev_only 0 (write_event (pring s)) \<and> (in_list (write_event (pring s)) 0 \<longrightarrow> wp = Wait) \<and>
     (rp = Signal \<or> rp = Wait \<longrightarrow> buffer_size (pring s) \<noteq> 0 \<longrightarrow> signaled_count (read_event (pring s)) \<noteq> 0) \<and>
     (wp = Wait \<longrightarrow> rp = Wait \<longrightarrow> buffer_size (pring s) = 0 \<longrightarrow> signaled_count (write_event (pring s)) \<noteq> 0)"

fun reader_weight :: "phase \<Rightarrow> bool \<Rightarrow> nat" where
  "reader_weight Copy queued = 9"
| "reader_weight Signal queued = 8"
| "reader_weight Wait queued = (if queued then 0 else 1)"
| "reader_weight Done queued = 0"

fun writer_weight :: "phase \<Rightarrow> bool \<Rightarrow> bool \<Rightarrow> nat" where
  "writer_weight Copy fin queued = (if fin then 15 else 3)"
| "writer_weight Wait fin queued = (if queued then 0 else 1)"
| "writer_weight _ fin queued = 0"

definition xfer_weight :: "u8 list \<Rightarrow> phase \<Rightarrow> nat \<Rightarrow> phase \<Rightarrow> pipe_sys \<Rightarrow> nat" where
  "xfer_weight rest wp left rp s =
     100 * (length rest + left) + 10 * signaled_count (read_event (pring s)) + 5 * signaled_count (write_event (pring s)) +
     reader_weight rp (in_list (read_event (pring s)) 1) + writer_weight wp (rest = []) (in_list (write_event (pring s)) 0)"

lemma signal_only:
  "ev_only t e \<Longrightarrow> ev_only t (snd (signal_one e)) \<and> \<not> in_list (snd (signal_one e)) t \<and> signaled_count (snd (signal_one e)) = Suc (signaled_count e)"
  by (auto simp: ev_only_def signal_one_def ev_pop_def split: if_splits)

lemma wait_only:
  assumes "ev_only t e" and "wait_step t e = Some (ph, e')"
  shows "ev_only t e' \<and> \<not> in_list e t \<and>
    (if signaled_count e = 0 then ph = Wait \<and> in_list e' t \<and> signaled_count e' = 0
     else ph = Copy \<and> \<not> in_list e' t \<and> Suc (signaled_count e') = signaled_count e)"
  using assms by (auto simp: ev_only_def wait_step_def ev_wait_section_def split: if_splits)

lemma wait_stuck: "wait_step t e = None \<longleftrightarrow> in_list e t"
  by (auto simp: wait_step_def split: prod.splits)

lemma xfer_invD:
  assumes "xfer_inv data rest wp left got rp s"
  shows "thr s = (transfer data)(0 := Writer True rest wp, 1 := Reader True left got rp)" and "rb_ok (pring s)"
    and "0 < length (rb_data (pring s))" and "data = got @ contents (pring s) @ rest" and "left + length got = length data"
    and "wp \<noteq> Signal" and "wp = Wait \<Longrightarrow> rest \<noteq> []" and "wp = Done \<Longrightarrow> rest = []"
    and "rp = Signal \<or> rp = Wait \<Longrightarrow> left \<noteq> 0" and "rp = Done \<Longrightarrow> left = 0"
    and "ev_only 1 (read_event (pring s))" and "in_list (read_event (pring s)) 1 \<Longrightarrow> rp = Wait"
    and "ev_only 0 (write_event (pring s))" and "in_list (write_event (pring s)) 0 \<Longrightarrow> wp = Wait"
    and "rp = Signal \<or> rp = Wait \<Longrightarrow> buffer_size (pring s) \<noteq> 0 \<Longrightarrow> signaled_count (read_event (pring s)) \<noteq> 0"
    and "wp = Wait \<Longrightarrow> rp = Wait \<Longrightarrow> buffer_size (pring s) = 0 \<Longrightarrow> signaled_count (write_event (pring s)) \<noteq> 0"
  using assms unfolding xfer_inv_def by blast+

lemma xfer_invI:
  assumes "thr s = (transfer data)(0 := Writer True rest wp, 1 := Reader True left got rp)" and "rb_ok (pring s)"
    and "0 < length (rb_data (pring s))" and "data = got @ contents (pring s) @ rest" and "left + length got = length data"
    and "wp \<noteq> Signal" and "wp = Wait \<Longrightarrow> rest \<noteq> []" and "wp = Done \<Longrightarrow> rest = []"
    and "rp = Signal \<or> rp = Wait \<Longrightarrow> left \<noteq> 0" and "rp = Done \<Longrightarrow> left = 0"
    and "ev_only 1 (read_event (pring s))" and "in_list (read_event (pring s)) 1 \<Longrightarrow> rp = Wait"
    and "ev_only 0 (write_event (pring s))" and "in_list (write_event (pring s)) 0 \<Longrightarrow> wp = Wait"
    and "rp = Signal \<or> rp = Wait \<Longrightarrow> buffer_size (pring s) \<noteq> 0 \<Longrightarrow> signaled_count (read_event (pring s)) \<noteq> 0"
    and "wp = Wait \<Longrightarrow> rp = Wait \<Longrightarrow> buffer_size (pring s) = 0 \<Longrightarrow> signaled_count (write_event (pring s)) \<noteq> 0"
  shows "xfer_inv data rest wp left got rp s"
  unfolding xfer_inv_def by (intro conjI impI; fact assms | rule assms; assumption)

lemma reader_copies:
  assumes inv: "xfer_inv data rest wp left got Copy s" and st: "reader_step 1 True left got Copy s = Some s'"
  shows "\<exists>left' got' rp'. xfer_inv data rest wp left' got' rp' s' \<and> xfer_weight rest wp left' rp' s' < xfer_weight rest wp left Copy s"
proof -
  note I = xfer_invD [OF inv]
  obtain bs rb where sec: "read_sec left (pring s) = (bs, rb)" by fastforce
  note R = read_sec_ok [OF I(2) sec]
  define ph where "ph = (if left - length bs \<noteq> 0 \<and> buffer_size rb = 0 then Signal else if left - length bs = 0 then Done else Copy)"
  have s': "pring s' = rb" "thr s' = (thr s)(1 := Reader True (left - length bs) (got @ bs) ph)"
    using st sec by (auto simp: ph_def Let_def)
  have bz: "buffer_size (pring s) = length bs + buffer_size rb" using arg_cong [OF R(2), of length] by simp
  have ni: "\<not> in_list (read_event (pring s)) 1" using I(12) by auto
  have "xfer_inv data rest wp (left - length bs) (got @ bs) ph s'"
  proof (rule xfer_invI)
    show "thr s' = (transfer data)(0 := Writer True rest wp, 1 := Reader True (left - length bs) (got @ bs) ph)"
      unfolding s' I(1) by simp
    show "rb_ok (pring s')" unfolding s' by (rule R(1))
    show "0 < length (rb_data (pring s'))" unfolding s' R(4) by (rule I(3))
    show "data = (got @ bs) @ contents (pring s') @ rest" unfolding s' using I(4) R(2) by simp
    show "left - length bs + length (got @ bs) = length data" using I(5) R(3) by simp
    show "wp \<noteq> Signal" "wp = Wait \<Longrightarrow> rest \<noteq> []" "wp = Done \<Longrightarrow> rest = []" by (rule I(6), rule I(7), assumption, rule I(8), assumption)
    show "ph = Signal \<or> ph = Wait \<Longrightarrow> left - length bs \<noteq> 0" "ph = Done \<Longrightarrow> left - length bs = 0" by (auto simp: ph_def split: if_splits)
    show "ev_only 1 (read_event (pring s'))" "ev_only 0 (write_event (pring s'))" unfolding s' R(5,6) by (rule I(11), rule I(13))
    show "in_list (read_event (pring s')) 1 \<Longrightarrow> ph = Wait" using ni unfolding s' R(5) by simp
    show "in_list (write_event (pring s')) 0 \<Longrightarrow> wp = Wait" unfolding s' R(6) by (rule I(14))
    show "ph = Signal \<or> ph = Wait \<Longrightarrow> buffer_size (pring s') \<noteq> 0 \<Longrightarrow> signaled_count (read_event (pring s')) \<noteq> 0"
      unfolding s' by (auto simp: ph_def split: if_splits)
    show "wp = Wait \<Longrightarrow> ph = Wait \<Longrightarrow> buffer_size (pring s') = 0 \<Longrightarrow> signaled_count (write_event (pring s')) \<noteq> 0"
      by (auto simp: ph_def split: if_splits)
  qed
  moreover have "xfer_weight rest wp (left - length bs) ph s' < xfer_weight rest wp left Copy s"
  proof (cases "bs = []")
    case True
    then have "left = 0 \<or> buffer_size rb = 0" using R(7) bz by auto
    then show ?thesis using True unfolding xfer_weight_def s' R(5,6) by (auto simp: ph_def)
  next
    case False
    then have "left - length bs < left" using R(3) by (cases bs) auto
    moreover have "reader_weight ph q \<le> 9" for q by (simp add: ph_def)
    ultimately show ?thesis unfolding xfer_weight_def s' R(5,6) by (simp add: add_less_le_mono)
  qed
  ultimately show ?thesis by blast
qed

lemma reader_signals:
  assumes inv: "xfer_inv data rest wp left got Signal s" and st: "reader_step 1 True left got Signal s = Some s'"
  shows "xfer_inv data rest wp left got Wait s' \<and> xfer_weight rest wp left Wait s' < xfer_weight rest wp left Signal s"
proof
  note I = xfer_invD [OF inv]
  have s': "pring s' = (pring s)\<lparr>write_event := snd (signal_one (write_event (pring s)))\<rparr>" "thr s' = (thr s)(1 := Reader True left got Wait)"
    using st by auto
  note S = signal_only [OF I(13)]
  have ni: "\<not> in_list (read_event (pring s)) 1" using I(12) by auto
  show "xfer_inv data rest wp left got Wait s'"
  proof (rule xfer_invI)
    show "thr s' = (transfer data)(0 := Writer True rest wp, 1 := Reader True left got Wait)" unfolding s' I(1) by simp
    show "data = got @ contents (pring s') @ rest" unfolding s' using I(4) by simp
    show "wp = Wait \<Longrightarrow> rest \<noteq> []" by (rule I(7))
    show "wp = Done \<Longrightarrow> rest = []" by (rule I(8))
  qed (use I(2,3,5,6,9,11,15) S ni in \<open>simp_all add: s'\<close>)
  show "xfer_weight rest wp left Wait s' < xfer_weight rest wp left Signal s"
    using S ni by (cases wp) (simp_all add: xfer_weight_def s')
qed

lemma reader_waits:
  assumes inv: "xfer_inv data rest wp left got Wait s" and st: "reader_step 1 True left got Wait s = Some s'"
  shows "\<exists>rp'. xfer_inv data rest wp left got rp' s' \<and> xfer_weight rest wp left rp' s' < xfer_weight rest wp left Wait s"
proof -
  note I = xfer_invD [OF inv]
  obtain ph e where w: "wait_step 1 (read_event (pring s)) = Some (ph, e)"
    and s': "pring s' = (pring s)\<lparr>read_event := e\<rparr>" "thr s' = (thr s)(1 := Reader True left got ph)"
    using st by (auto split: option.splits)
  note W = wait_only [OF I(11) w]
  have "xfer_inv data rest wp left got ph s'"
  proof (rule xfer_invI)
    show "thr s' = (transfer data)(0 := Writer True rest wp, 1 := Reader True left got ph)" unfolding s' I(1) by simp
    show "data = got @ contents (pring s') @ rest" unfolding s' using I(4) by simp
    show "wp = Wait \<Longrightarrow> rest \<noteq> []" by (rule I(7))
    show "wp = Done \<Longrightarrow> rest = []" by (rule I(8))
    show "in_list (write_event (pring s')) 0 \<Longrightarrow> wp = Wait" using I(14) by (simp add: s')
    show "ph = Done \<Longrightarrow> left = 0" using W by (auto split: if_splits)
  qed (use I(2,3,5,6,9,13,15,16) W in \<open>auto simp add: s' split: if_splits\<close>)
  moreover have "xfer_weight rest wp left ph s' < xfer_weight rest wp left Wait s"
    using W by (auto simp: xfer_weight_def s' split: if_splits)
  ultimately show ?thesis by blast
qed

lemma weight_mono:
  fixes a b c c' d l r r' w w' :: nat
  assumes "a < b" and "w \<le> 15" and "c \<le> c' + 1" and "r \<le> r' + 1"
  shows "100 * (a + l) + 10 * c + 5 * d + r + w < 100 * (b + l) + 10 * c' + 5 * d + r' + w'"
  using assms by (simp add: algebra_simps)

lemma writer_copies:
  assumes inv: "xfer_inv data rest Copy left got rp s" and st: "writer_step 0 True rest Copy s = Some s'"
  shows "\<exists>rest' wp'. xfer_inv data rest' wp' left got rp s' \<and> xfer_weight rest' wp' left rp s' < xfer_weight rest Copy left rp s"
proof -
  note I = xfer_invD [OF inv]
  obtain n rb where sec: "write_sec rest (pring s) = (n, rb)" by fastforce
  note W = write_sec_ok [OF I(2) sec]
  define ph where "ph = (if drop n rest \<noteq> [] \<and> buffer_size rb = length (rb_data rb) then Wait else if drop n rest = [] then Done else Copy)"
  have s': "pring s' = rb" "thr s' = (thr s)(0 := Writer True (drop n rest) ph)" using st sec by (auto simp: ph_def Let_def)
  have ni: "\<not> in_list (write_event (pring s)) 0" using I(14) by auto
  have ev: "ev_only 1 (read_event rb)" and nr: "in_list (read_event rb) 1 \<Longrightarrow> rp = Wait"
    and rc: "signaled_count (read_event rb) = signaled_count (read_event (pring s)) + (if buffer_size (pring s) = 0 then 1 else 0)"
    using signal_only [OF I(11)] I(11,12) unfolding W(5) by (auto split: if_splits)
  have "xfer_inv data (drop n rest) ph left got rp s'"
  proof (rule xfer_invI)
    show "thr s' = (transfer data)(0 := Writer True (drop n rest) ph, 1 := Reader True left got rp)"
      unfolding s' I(1) by (simp add: fun_upd_twist)
    show "data = got @ contents (pring s') @ drop n rest" unfolding s' W(2) using I(4) by simp
    show "in_list (read_event (pring s')) 1 \<Longrightarrow> rp = Wait" unfolding s' by (rule nr)
    show "rp = Signal \<or> rp = Wait \<Longrightarrow> buffer_size (pring s') \<noteq> 0 \<Longrightarrow> signaled_count (read_event (pring s')) \<noteq> 0"
      using I(15) unfolding s' rc by auto
    show "ph = Wait \<Longrightarrow> rp = Wait \<Longrightarrow> buffer_size (pring s') = 0 \<Longrightarrow> signaled_count (write_event (pring s')) \<noteq> 0"
      using I(3) W(4) unfolding s' by (auto simp: ph_def split: if_splits)
    show "rp = Done \<Longrightarrow> left = 0" by (rule I(10))
    show "rp = Signal \<or> rp = Wait \<Longrightarrow> left \<noteq> 0" by (rule I(9))
  qed (use I(3,5,6,13) W(1,4,6) ev ni in \<open>auto simp add: s' ph_def split: if_splits\<close>)
  moreover have "xfer_weight (drop n rest) ph left rp s' < xfer_weight rest Copy left rp s"
  proof (cases "rest = []")
    case True
    then have "n = 0" "ph = Done" using W(3) by (simp_all add: ph_def)
    moreover have "reader_weight rp (in_list (read_event rb) 1) \<le> reader_weight rp (in_list (read_event (pring s)) 1) + 1"
      by (cases rp) simp_all
    ultimately show ?thesis using True rc unfolding xfer_weight_def s' W(6) by (auto split: if_splits)
  next
    case False
    have rw: "reader_weight rp (in_list (read_event rb) 1) \<le> reader_weight rp (in_list (read_event (pring s)) 1) + 1"
      by (cases rp) simp_all
    show ?thesis
    proof (cases "n = 0")
      case True
      then have full: "buffer_size (pring s) = length (rb_data (pring s))" using W(7) False by blast
      then have "ph = Wait" "buffer_size (pring s) \<noteq> 0" using True False W(4,8) I(3) by (auto simp: ph_def)
      then have "read_event rb = read_event (pring s)" using W(5) by simp
      then show ?thesis using True \<open>ph = Wait\<close> False unfolding xfer_weight_def s' W(6) by simp
    next
      case n0: False
      have "length (drop n rest) < length rest" using n0 False by (cases rest) auto
      moreover have "writer_weight ph (drop n rest = []) (in_list (write_event (pring s)) 0) \<le> 15" by (cases ph) auto
      moreover have "signaled_count (read_event rb) \<le> signaled_count (read_event (pring s)) + 1" using rc by simp
      ultimately show ?thesis using rw unfolding xfer_weight_def s' W(6) by (intro weight_mono)
    qed
  qed
  ultimately show ?thesis by blast
qed

lemma writer_waits:
  assumes inv: "xfer_inv data rest Wait left got rp s" and st: "writer_step 0 True rest Wait s = Some s'"
  shows "\<exists>wp'. xfer_inv data rest wp' left got rp s' \<and> xfer_weight rest wp' left rp s' < xfer_weight rest Wait left rp s"
proof -
  note I = xfer_invD [OF inv]
  obtain ph e where w: "wait_step 0 (write_event (pring s)) = Some (ph, e)"
    and s': "pring s' = (pring s)\<lparr>write_event := e\<rparr>" "thr s' = (thr s)(0 := Writer True rest ph)"
    using st by (auto split: option.splits)
  note W = wait_only [OF I(13) w]
  have r: "rest \<noteq> []" using I(7) by blast
  have "xfer_inv data rest ph left got rp s'"
  proof (rule xfer_invI)
    show "thr s' = (transfer data)(0 := Writer True rest ph, 1 := Reader True left got rp)"
      unfolding s' I(1) by (simp add: fun_upd_twist)
    show "data = got @ contents (pring s') @ rest" unfolding s' using I(4) by simp
    show "in_list (read_event (pring s')) 1 \<Longrightarrow> rp = Wait" using I(12) by (simp add: s')
    show "rp = Done \<Longrightarrow> left = 0" by (rule I(10))
    show "rp = Signal \<or> rp = Wait \<Longrightarrow> left \<noteq> 0" by (rule I(9))
  qed (use I(2,3,5,11,15,16) W r in \<open>auto simp add: s' split: if_splits\<close>)
  moreover have "xfer_weight rest ph left rp s' < xfer_weight rest Wait left rp s"
    using W r by (auto simp: xfer_weight_def s' split: if_splits)
  ultimately show ?thesis by blast
qed

lemma xfer_step:
  assumes inv: "xfer_inv data rest wp left got rp s" and st: "thread_step t s = Some s'"
  shows "\<exists>rest' wp' left' got' rp'. xfer_inv data rest' wp' left' got' rp' s' \<and>
    xfer_weight rest' wp' left' rp' s' < xfer_weight rest wp left rp s"
proof -
  have th: "thr s = (transfer data)(0 := Writer True rest wp, 1 := Reader True left got rp)" by (rule xfer_invD(1) [OF inv])
  consider "t = 0" | "t = 1" | "t > 1" by linarith
  then show ?thesis
  proof cases
    case 1
    then have "writer_step 0 True rest wp s = Some s'" using st by (simp add: thread_step_def th)
    then show ?thesis
    proof (cases wp)
      case Copy
      then show ?thesis using writer_copies [of data rest left got rp s s'] inv \<open>writer_step 0 True rest wp s = Some s'\<close> by blast
    next
      case Wait
      then show ?thesis using writer_waits [of data rest left got rp s s'] inv \<open>writer_step 0 True rest wp s = Some s'\<close> by blast
    qed simp_all
  next
    case 2
    then have "reader_step 1 True left got rp s = Some s'" using st by (simp add: thread_step_def th)
    then show ?thesis
    proof (cases rp)
      case Copy
      then show ?thesis using reader_copies [of data rest wp left got s s'] inv \<open>reader_step 1 True left got rp s = Some s'\<close> by blast
    next
      case Signal
      then show ?thesis using reader_signals [of data rest wp left got s s'] inv \<open>reader_step 1 True left got rp s = Some s'\<close> by blast
    next
      case Wait
      then show ?thesis using reader_waits [of data rest wp left got s s'] inv \<open>reader_step 1 True left got rp s = Some s'\<close> by blast
    qed simp_all
  next
    case 3
    then show ?thesis using st by (simp add: thread_step_def th transfer_def)
  qed
qed

lemma xfer_run:
  "xfer_inv data rest wp left got rp s \<Longrightarrow> pipe_run ts s = Some s' \<Longrightarrow>
   \<exists>rest' wp' left' got' rp'. xfer_inv data rest' wp' left' got' rp' s' \<and>
     length ts + xfer_weight rest' wp' left' rp' s' \<le> xfer_weight rest wp left rp s"
proof (induction ts arbitrary: rest wp left got rp s)
  case Nil
  then show ?case by fastforce
next
  case (Cons t ts)
  then obtain s1 where s1: "thread_step t s = Some s1" "pipe_run ts s1 = Some s'" by (auto split: option.splits)
  obtain r w l g p where a: "xfer_inv data r w l g p s1" "xfer_weight r w l p s1 < xfer_weight rest wp left rp s"
    using xfer_step [OF Cons.prems(1) s1(1)] by blast
  then obtain r' w' l' g' p' where "xfer_inv data r' w' l' g' p' s'" "length ts + xfer_weight r' w' l' p' s' \<le> xfer_weight r w l p s1"
    using Cons.IH [OF a(1) s1(2)] by blast
  then show ?case using a(2) by fastforce
qed

lemma xfer_stuck:
  assumes inv: "xfer_inv data rest wp left got rp s" and "thread_step 0 s = None" and "thread_step 1 s = None"
  shows "thr s 0 = Writer True [] Done \<and> thr s 1 = Reader True 0 data Done"
proof -
  note I = xfer_invD [OF inv]
  have w: "wp = Done \<or> wp = Wait \<and> in_list (write_event (pring s)) 0"
    using assms(2) I(6) by (cases wp) (auto simp: thread_step_def I(1) wait_stuck Let_def split: prod.splits option.splits)
  have r: "rp = Done \<or> rp = Wait \<and> in_list (read_event (pring s)) 1"
    using assms(3) by (cases rp) (auto simp: thread_step_def I(1) wait_stuck Let_def split: prod.splits option.splits)
  have len: "left + length got = length got + buffer_size (pring s) + length rest" using I(5) arg_cong [OF I(4), of length] by simp
  have rz: "buffer_size (pring s) = 0" if "rp = Wait"
  proof -
    have "signaled_count (read_event (pring s)) = 0" using r that I(11) by (auto simp: ev_only_def)
    then show ?thesis using I(15) that by blast
  qed
  have wz: "signaled_count (write_event (pring s)) = 0" if "wp = Wait" using w that I(13) by (auto simp: ev_only_def)
  have "rp = Done"
  proof (rule ccontr)
    assume "rp \<noteq> Done"
    then have rp: "rp = Wait" using r by blast
    have "wp = Done" using w wz I(16) [OF _ rp rz [OF rp]] by auto
    then show False using I(8) I(9) rp rz [OF rp] len by simp
  qed
  moreover from this have "left = 0" using I(10) by blast
  moreover from this have "rest = []" "contents (pring s) = []" using len by simp_all
  moreover from this have "wp = Done" using w I(7) by blast
  ultimately show ?thesis using I(4) by (simp add: I(1))
qed

text \<open>C32 A blocking write and a blocking read of as many bytes, on a buffer of any size but 0, always come
  to an end: no schedule runs for more than 200 steps per byte and a constant, and when neither thread
  can go on both calls have returned and the reader has the bytes that were written.\<close>

theorem pipe_transfer_completes:
  assumes "0 < max_size" and "pipe_run ts (pipe_start max_size (transfer data)) = Some s"
  shows "length ts \<le> 200 * length data + 24 \<and>
    ((\<forall>t. thread_step t s = None) \<longrightarrow> thr s 0 = Writer True [] Done \<and> thr s 1 = Reader True 0 data Done)"
proof -
  have "xfer_inv data data Copy (length data) [] Copy (pipe_start max_size (transfer data))"
    using assms(1) rb_ok_new [of max_size]
    by (intro xfer_invI) (auto simp: pipe_start_def ev_only_def rb_new_def kevent_new_def transfer_def fun_eq_iff contents_def)
  moreover have "xfer_weight data Copy (length data) Copy (pipe_start max_size (transfer data)) \<le> 200 * length data + 24"
    by (simp add: xfer_weight_def pipe_start_def rb_new_def kevent_new_def)
  ultimately obtain r w l g p where f: "xfer_inv data r w l g p s" "length ts + xfer_weight r w l p s \<le> 200 * length data + 24"
    using xfer_run [OF _ assms(2)] le_trans by blast
  then show ?thesis using xfer_stuck by fastforce
qed

theorem pipe_transfer_completes_witness:
  "\<exists>s. pipe_run [0, 1] (pipe_start 2 (transfer [8, 9])) = Some s \<and> thr s 1 = Reader True 0 [8, 9] Done"
proof -
  obtain s where s: "pipe_run [0, 1] (pipe_start 2 (transfer [8, 9])) = Some s" "thread_step 0 s = None" "thread_step 1 s = None"
    "\<And>t. thr s t = (if t = 0 then Writer True [] Done else if t = 1 then Reader True 0 [8, 9] Done else Reader False 0 [] Done)"
    by (simp add: thread_step_def transfer_def pipe_start_def rb_new_def write_sec_def read_sec_def blit_def kevent_new_def
        signal_one_def ev_pop_def Let_def)
  have "\<forall>t. thread_step t s = None" by (simp add: thread_step_def s(4))
  then show ?thesis using pipe_transfer_completes [OF _ s(1)] s(1) by simp
qed


end
