(* ===== verification/Entropy.thy ===== *)
theory Entropy
  imports Prelude
begin

text \<open>
  The random number generator of \<open>src/src/dev/random.cpp\<close>: the ChaCha20 block function, BLAKE2b
  on 64-bit words, the entropy pool and \<open>random_generate\<close>.

  Arrays are lists of their length. The seeds of the architecture (\<open>arch_get_random_seed\<close>, a
  hardware instruction) come from a parameter \<open>rng\<close> over its own state. Waiting for entropy is
  the result \<open>None\<close>: the caller sleeps on the event and tries again.
\<close>

section \<open>ChaCha20\<close>

definition rotate_left :: "u32 \<Rightarrow> nat \<Rightarrow> u32" where
  "rotate_left v num = push_bit num v OR drop_bit (32 - num) v"

definition chacha20_quarter_round :: "u32 \<Rightarrow> u32 \<Rightarrow> u32 \<Rightarrow> u32 \<Rightarrow> u32 \<times> u32 \<times> u32 \<times> u32" where
  "chacha20_quarter_round a b c d =
     (let a = a + b; d = d XOR a; d = rotate_left d 16;
          c = c + d; b = b XOR c; b = rotate_left b 12;
          a = a + b; d = d XOR a; d = rotate_left d 8;
          c = c + d; b = b XOR c; b = rotate_left b 7
      in (a, b, c, d))"

definition chacha_init :: "u32 list \<Rightarrow> u32 \<Rightarrow> u32 list \<Rightarrow> u32 list" where
  "chacha_init key block_counter nonce =
     [0x61707865, 0x3320646E, 0x79622D32, 0x6B206574,
      key ! 0, key ! 1, key ! 2, key ! 3, key ! 4, key ! 5, key ! 6, key ! 7,
      block_counter, nonce ! 0, nonce ! 1, nonce ! 2]"

definition quarter_round :: "nat \<Rightarrow> nat \<Rightarrow> nat \<Rightarrow> nat \<Rightarrow> u32 list \<Rightarrow> u32 list" where
  "quarter_round x y z w st =
     (case chacha20_quarter_round (st ! x) (st ! y) (st ! z) (st ! w) of
        (a, b, c, d) \<Rightarrow> st[x := a, y := b, z := c, w := d])"

definition inner_block :: "u32 list \<Rightarrow> u32 list" where
  "inner_block st =
     (let st = quarter_round 0 4 8 12 st;
          st = quarter_round 1 5 9 13 st;
          st = quarter_round 2 6 10 14 st;
          st = quarter_round 3 7 11 15 st;
          st = quarter_round 0 5 10 15 st;
          st = quarter_round 1 6 11 12 st;
          st = quarter_round 2 7 8 13 st
      in quarter_round 3 4 9 14 st)"

definition cha_cha20_block :: "u32 list \<Rightarrow> u32 \<Rightarrow> u32 list \<Rightarrow> u32 list" where
  "cha_cha20_block key block_counter nonce =
     (let initial_state = chacha_init key block_counter nonce;
          state = (inner_block ^^ 10) initial_state
      in map2 (+) state initial_state)"

section \<open>BLAKE2b\<close>

definition rotate_right :: "u64 \<Rightarrow> nat \<Rightarrow> u64" where
  "rotate_right v num = drop_bit num v OR push_bit (64 - num) v"

definition BLAKE2B_IV :: "u64 list" where
  "BLAKE2B_IV =
     [0x6A09E667F3BCC908, 0xBB67AE8584CAA73B, 0x3C6EF372FE94F82B, 0xA54FF53A5F1D36F1,
      0x510E527FADE682D1, 0x9B05688C2B3E6C1F, 0x1F83D9ABFB41BD6B, 0x5BE0CD19137E2179]"

record blake2b =
  b_input :: "u64 list"
  b_state :: "u64 list"
  b_offset :: "u64 \<times> u64"
  input_ptr :: nat
  digest_size :: nat

definition mix_g :: "nat \<Rightarrow> nat \<Rightarrow> nat \<Rightarrow> nat \<Rightarrow> u64 \<Rightarrow> u64 \<Rightarrow> u64 list \<Rightarrow> u64 list" where
  "mix_g a b c d x y v =
     (let v = v[a := v ! a + (v ! b + x)];
          v = v[d := rotate_right (v ! d XOR v ! a) 32];
          v = v[c := v ! c + v ! d];
          v = v[b := rotate_right (v ! b XOR v ! c) 24];
          v = v[a := v ! a + (v ! b + y)];
          v = v[d := rotate_right (v ! d XOR v ! a) 16];
          v = v[c := v ! c + v ! d]
      in v[b := rotate_right (v ! b XOR v ! c) 63])"

definition BLAKE2B_SIGMA :: "nat list list" where
  "BLAKE2B_SIGMA =
     [[0, 1, 2, 3, 4, 5, 6, 7, 8, 9, 10, 11, 12, 13, 14, 15],
      [14, 10, 4, 8, 9, 15, 13, 6, 1, 12, 0, 2, 11, 7, 5, 3],
      [11, 8, 12, 0, 5, 2, 15, 13, 10, 14, 3, 6, 7, 1, 9, 4],
      [7, 9, 3, 1, 13, 12, 11, 14, 2, 6, 5, 10, 4, 0, 15, 8],
      [9, 0, 5, 7, 2, 4, 10, 15, 14, 1, 11, 12, 6, 8, 3, 13],
      [2, 12, 6, 10, 0, 11, 8, 3, 4, 13, 7, 5, 15, 14, 1, 9],
      [12, 5, 1, 15, 14, 13, 4, 10, 0, 7, 6, 3, 9, 2, 8, 11],
      [13, 11, 7, 14, 12, 1, 3, 9, 5, 0, 15, 4, 8, 6, 2, 10],
      [6, 15, 14, 9, 11, 3, 0, 8, 12, 2, 13, 7, 1, 4, 10, 5],
      [10, 2, 8, 4, 7, 6, 1, 5, 15, 11, 9, 14, 3, 12, 13, 0],
      [0, 1, 2, 3, 4, 5, 6, 7, 8, 9, 10, 11, 12, 13, 14, 15],
      [14, 10, 4, 8, 9, 15, 13, 6, 1, 12, 0, 2, 11, 7, 5, 3]]"

definition mix_round :: "u64 list \<Rightarrow> nat list \<Rightarrow> u64 list \<Rightarrow> u64 list" where
  "mix_round inp s v =
     (let v = mix_g 0 4 8 12 (inp ! (s ! 0)) (inp ! (s ! 1)) v;
          v = mix_g 1 5 9 13 (inp ! (s ! 2)) (inp ! (s ! 3)) v;
          v = mix_g 2 6 10 14 (inp ! (s ! 4)) (inp ! (s ! 5)) v;
          v = mix_g 3 7 11 15 (inp ! (s ! 6)) (inp ! (s ! 7)) v;
          v = mix_g 0 5 10 15 (inp ! (s ! 8)) (inp ! (s ! 9)) v;
          v = mix_g 1 6 11 12 (inp ! (s ! 10)) (inp ! (s ! 11)) v;
          v = mix_g 2 7 8 13 (inp ! (s ! 12)) (inp ! (s ! 13)) v
      in mix_g 3 4 9 14 (inp ! (s ! 14)) (inp ! (s ! 15)) v)"

definition compress :: "bool \<Rightarrow> blake2b \<Rightarrow> blake2b" where
  "compress final b =
     (let v = take 8 (b_state b) @ BLAKE2B_IV;
          v = v[12 := v ! 12 XOR fst (b_offset b)];
          v = v[13 := v ! 13 XOR snd (b_offset b)];
          v = (if final then v[14 := NOT (v ! 14)] else v);
          v = fold (mix_round (b_input b)) BLAKE2B_SIGMA v
      in b\<lparr>b_state := map (\<lambda>i. b_state b ! i XOR (v ! i XOR v ! (8 + i))) [0 ..< 8]\<rparr>)"

text \<open>\<open>offset\<close> is a 128-bit byte count in two words with the carry done by hand.\<close>

definition add_offset :: "u64 \<Rightarrow> blake2b \<Rightarrow> blake2b" where
  "add_offset n b =
     (let lo = fst (b_offset b) + n
      in b\<lparr>b_offset := (lo, if lo < n then snd (b_offset b) + 1 else snd (b_offset b))\<rparr>)"

definition add_word :: "u64 \<Rightarrow> blake2b \<Rightarrow> blake2b" where
  "add_word w b =
     (let b = (if input_ptr b = 16 then (compress False (add_offset 128 b))\<lparr>input_ptr := 0\<rparr> else b)
      in b\<lparr>b_input := (b_input b)[input_ptr b := w], input_ptr := input_ptr b + 1\<rparr>)"

definition add_data :: "u64 list \<Rightarrow> blake2b \<Rightarrow> blake2b" where
  "add_data ws b = fold add_word ws b"

definition blake2b_init :: "nat \<Rightarrow> u64 list \<Rightarrow> blake2b" where
  "blake2b_init chosen_digest_size key =
     (let st = BLAKE2B_IV;
          st = st[0 := st ! 0 XOR (0x01010000 XOR push_bit 8 (of_nat (length key) * 8) XOR of_nat chosen_digest_size)];
          b = \<lparr>b_input = replicate 16 0, b_state = st, b_offset = (0, 0), input_ptr = 0,
               digest_size = chosen_digest_size\<rparr>
      in if key \<noteq> [] then (add_data key b)\<lparr>input_ptr := 16\<rparr> else b)"

definition generate_digest :: "blake2b \<Rightarrow> u64 list \<times> blake2b" where
  "generate_digest b =
     (let b = add_offset (of_nat (input_ptr b) * 8) b;
          b = b\<lparr>b_input := take (input_ptr b) (b_input b) @ replicate (16 - input_ptr b) 0,
               input_ptr := 16\<rparr>;
          b = compress True b
      in (take (digest_size b div 8) (b_state b), b))"

section \<open>The self test\<close>

definition verify_quarter_round :: bool where
  "verify_quarter_round \<longleftrightarrow>
     chacha20_quarter_round 0x11111111 0x01020304 0x9B8D6F43 0x01234567 =
       (0xEA2A92F4, 0xCB1CF8CE, 0x4581472E, 0x5881C4BB) \<and>
     quarter_round 2 7 8 13
       [0x879531E0, 0xC5ECF37D, 0x516461B1, 0xC9A62F8A, 0x44C20EF3, 0x3390AF7F, 0xD9FC690B, 0x2A5F714C,
        0x53372767, 0xB00A5631, 0x974C541A, 0x359E9963, 0x5C971061, 0x3D631689, 0x2098D9D6, 0x91DBD320] =
       [0x879531E0, 0xC5ECF37D, 0xBDB886DC, 0xC9A62F8A, 0x44C20EF3, 0x3390AF7F, 0xD9FC690B, 0xCFACAFD2,
        0xE46BEA80, 0xB00A5631, 0x974C541A, 0x359E9963, 0x5C971061, 0xCCC07C79, 0x2098D9D6, 0x91DBD320]"

definition verify_block :: bool where
  "verify_block \<longleftrightarrow>
     cha_cha20_block
       [0x03020100, 0x07060504, 0x0B0A0908, 0x0F0E0D0C, 0x13121110, 0x17161514, 0x1B1A1918, 0x1F1E1D1C]
       1 [0x09000000, 0x4A000000, 0x00000000] =
       [0xE4E7F110, 0x15593BD1, 0x1FDD0F50, 0xC47120A3, 0xC7F4D1C7, 0x0368C033, 0x9AAA2204, 0x4E6CD4C3,
        0x466482D2, 0x09AA9F07, 0x05D7C214, 0xA2028BD9, 0xD19C12B5, 0xB94E16DE, 0xE883D0CB, 0x4E3C50A2]"

section \<open>The entropy pool and the generator\<close>

definition bytes_of :: "'a::len word \<Rightarrow> u8 list" where
  "bytes_of w = map (\<lambda>i. ucast (drop_bit (8 * i) w)) [0 ..< LENGTH('a) div 8]"

definition u32_of_bytes :: "u8 list \<Rightarrow> u32" where
  "u32_of_bytes bs = foldr (\<lambda>b acc. ucast b OR push_bit 8 acc) bs 0"

fun words_of_bytes :: "u8 list \<Rightarrow> u32 list" where
  "words_of_bytes (a # b # c # d # bs) = u32_of_bytes [a, b, c, d] # words_of_bytes bs"
| "words_of_bytes _ = []"

record pool =
  pool_state :: blake2b
  entropy_bits :: u32

definition pool_new :: pool where
  "pool_new = \<lparr>pool_state = blake2b_init 32 [], entropy_bits = 0\<rparr>"

definition add_entropy :: "u64 list \<Rightarrow> u32 \<Rightarrow> pool \<Rightarrow> pool" where
  "add_entropy ws credible_bits p =
     (let p = p\<lparr>pool_state := add_data ws (pool_state p), entropy_bits := entropy_bits p + credible_bits\<rparr>
      in if entropy_bits p \<ge> 256 then p\<lparr>entropy_bits := 256\<rparr> else p)"

fun draw :: "('r \<Rightarrow> u64 \<times> 'r) \<Rightarrow> nat \<Rightarrow> 'r \<Rightarrow> u64 list \<times> 'r" where
  "draw rng 0 r = ([], r)"
| "draw rng (Suc n) r = (let (w, r) = rng r; (ws, r) = draw rng n r in (w # ws, r))"

function entropy_loop :: "u64 list \<Rightarrow> u64 list \<Rightarrow> u64 \<Rightarrow> nat \<Rightarrow> u8 list" where
  "entropy_loop seed arch_seeds counter size' =
     (if size' = 0 then []
      else let to_copy = min size' 32;
               counter = counter + 1;
               st = add_data [counter] (add_data arch_seeds (blake2b_init 32 seed));
               digest = fst (generate_digest st)
           in take to_copy (concat (map bytes_of digest)) @
              entropy_loop seed arch_seeds counter (size' - to_copy))"
  by pat_completeness auto
termination
  by (relation "measure (\<lambda>(_, _, _, n). n)") auto

declare entropy_loop.simps [simp del]

definition get_entropy :: "('r \<Rightarrow> u64 \<times> 'r) \<Rightarrow> nat \<Rightarrow> 'r \<Rightarrow> pool \<Rightarrow> u8 list \<times> 'r \<times> pool" where
  "get_entropy rng size' r p =
     (let (seed, st) = generate_digest (pool_state p);
          bits = (if entropy_bits p \<ge> 128 then entropy_bits p - 128 else 0);
          (arch_seeds, r) = draw rng 4 r;
          next_key = fst (generate_digest (add_data arch_seeds (blake2b_init 32 seed)))
      in (entropy_loop seed arch_seeds 0 size', r,
          p\<lparr>pool_state := blake2b_init 32 next_key, entropy_bits := bits\<rparr>))"

definition nonce_use :: "u32 list \<Rightarrow> u32 list" where
  "nonce_use n =
     (let n = n[0 := n ! 0 + 1]
      in if n ! 0 = 0
         then let n = n[1 := n ! 1 + 1] in if n ! 1 = 0 then n[2 := n ! 2 + 1] else n
         else n)"

record rand_state =
  POOL :: pool
  NONCE :: "u32 list"

definition wait_for_entropy :: "u32 \<Rightarrow> rand_state \<Rightarrow> bool" where
  "wait_for_entropy entropy s \<longleftrightarrow> entropy_bits (POOL s) < entropy"

definition random_add_entropy :: "u64 list \<Rightarrow> u32 \<Rightarrow> rand_state \<Rightarrow> rand_state" where
  "random_add_entropy ws credible_bits s = s\<lparr>POOL := add_entropy ws credible_bits (POOL s)\<rparr>"

function generate_loop :: "u32 list \<Rightarrow> u32 \<Rightarrow> u32 list \<Rightarrow> nat \<Rightarrow> u8 list" where
  "generate_loop key counter nonce left =
     (if left = 0 then []
      else let to_copy = min left 64
           in take to_copy (concat (map bytes_of (cha_cha20_block key counter nonce))) @
              generate_loop key (counter + 1) nonce (left - to_copy))"
  by pat_completeness auto
termination
  by (relation "measure (\<lambda>(_, _, _, n). n)") auto

declare generate_loop.simps [simp del]

definition random_generate :: "('r \<Rightarrow> u64 \<times> 'r) \<Rightarrow> nat \<Rightarrow> 'r \<Rightarrow> rand_state
    \<Rightarrow> (u8 list \<times> 'r \<times> rand_state) option" where
  "random_generate rng size' r s =
     (if wait_for_entropy (4 * 8) s then None
      else let (key_bytes, r, p) = get_entropy rng 32 r (POOL s);
               key = words_of_bytes key_bytes;
               out = generate_loop key 0 (NONCE s) size'
           in Some (out, r, s\<lparr>POOL := p, NONCE := nonce_use (NONCE s)\<rparr>))"

section \<open>ChaCha20 is a permutation\<close>

definition rotr32 :: "u32 \<Rightarrow> nat \<Rightarrow> u32" where
  "rotr32 v num = drop_bit num v OR push_bit (32 - num) v"

lemma rotr32_rotate_left: "0 < n \<Longrightarrow> n < 32 \<Longrightarrow> rotr32 (rotate_left v n) n = v"
proof (rule bit_word_eqI)
  fix k assume "0 < n" "n < 32" "k < LENGTH(32)"
  then show "bit (rotr32 (rotate_left v n) n) k = bit v k"
    by (cases "k + n < 32") (auto simp: rotr32_def rotate_left_def bit_simps)
qed

definition inv_quarter :: "u32 \<Rightarrow> u32 \<Rightarrow> u32 \<Rightarrow> u32 \<Rightarrow> u32 \<times> u32 \<times> u32 \<times> u32" where
  "inv_quarter a b c d =
     (let b = rotr32 b 7 XOR c; c = c - d; d = rotr32 d 8 XOR a; a = a - b;
          b = rotr32 b 12 XOR c; c = c - d; d = rotr32 d 16 XOR a; a = a - b
      in (a, b, c, d))"

lemma inv_quarter_round:
  "(case chacha20_quarter_round a b c d of (a, b, c, d) \<Rightarrow> inv_quarter a b c d) = (a, b, c, d)"
  by (simp add: chacha20_quarter_round_def inv_quarter_def Let_def rotr32_rotate_left ac_simps)

definition quarter_unround :: "nat \<Rightarrow> nat \<Rightarrow> nat \<Rightarrow> nat \<Rightarrow> u32 list \<Rightarrow> u32 list" where
  "quarter_unround x y z w st =
     (case inv_quarter (st ! x) (st ! y) (st ! z) (st ! w) of
        (a, b, c, d) \<Rightarrow> st[x := a, y := b, z := c, w := d])"

lemma quarter_unround_round:
  assumes "distinct [x, y, z, w]" and "\<forall>i \<in> {x, y, z, w}. i < length st"
  shows "quarter_unround x y z w (quarter_round x y z w st) = st"
proof -
  obtain a b c d where q: "chacha20_quarter_round (st ! x) (st ! y) (st ! z) (st ! w) = (a, b, c, d)"
    by (metis prod_cases4)
  then have "inv_quarter a b c d = (st ! x, st ! y, st ! z, st ! w)"
    using inv_quarter_round [of "st ! x" "st ! y" "st ! z" "st ! w"] by simp
  then show ?thesis using assms q
    by (auto simp: quarter_round_def quarter_unround_def nth_list_update list_eq_iff_nth_eq)
qed

lemma length_quarter_round [simp]: "length (quarter_round x y z w st) = length st"
  by (simp add: quarter_round_def split: prod.split)

lemma length_inner_block [simp]: "length (inner_block st) = length st"
  by (simp add: inner_block_def Let_def)

lemma length_funpow [simp]: "length ((inner_block ^^ n) st) = length st"
  by (induction n) auto

definition inner_unblock :: "u32 list \<Rightarrow> u32 list" where
  "inner_unblock st =
     (let st = quarter_unround 3 4 9 14 st;
          st = quarter_unround 2 7 8 13 st;
          st = quarter_unround 1 6 11 12 st;
          st = quarter_unround 0 5 10 15 st;
          st = quarter_unround 3 7 11 15 st;
          st = quarter_unround 2 6 10 14 st;
          st = quarter_unround 1 5 9 13 st
      in quarter_unround 0 4 8 12 st)"

lemma inner_unblock_block: "length st = 16 \<Longrightarrow> inner_unblock (inner_block st) = st"
  by (simp add: inner_unblock_def inner_block_def Let_def quarter_unround_round)

lemma funpow_unblock: "length st = 16 \<Longrightarrow> (inner_unblock ^^ n) ((inner_block ^^ n) st) = st"
  by (induction n arbitrary: st) (simp_all add: funpow_swap1 inner_unblock_block)

section \<open>BLAKE2b block by block\<close>

text \<open>The hash of a message of words, block by block, with the byte count as a number: the
  streaming interface computes the same.\<close>

definition blake_F :: "u64 list \<Rightarrow> u64 list \<Rightarrow> u64 \<times> u64 \<Rightarrow> bool \<Rightarrow> u64 list" where
  "blake_F h m t final =
     b_state (compress final \<lparr>b_input = m, b_state = h, b_offset = t, input_ptr = 0, digest_size = 0\<rparr>)"

definition count_words :: "nat \<Rightarrow> u64 \<times> u64" where
  "count_words t = (of_nat t, of_nat (t div 2 ^ 64))"

function blake_ref :: "u64 list \<Rightarrow> nat \<Rightarrow> u64 list \<Rightarrow> u64 list" where
  "blake_ref h t ws =
     (if length ws \<le> 16
      then blake_F h (ws @ replicate (16 - length ws) 0) (count_words (t + 8 * length ws)) True
      else blake_ref (blake_F h (take 16 ws) (count_words (t + 128)) False) (t + 128) (drop 16 ws))"
  by pat_completeness auto
termination
  by (relation "measure (\<lambda>(_, _, ws). length ws)") auto

declare blake_ref.simps [simp del]

lemma compress_F: "compress final b = b\<lparr>b_state := blake_F (b_state b) (b_input b) (b_offset b) final\<rparr>"
  by (simp add: compress_def blake_F_def Let_def)

lemma digest_size_compress [simp]: "digest_size (compress final b) = digest_size b"
  by (simp add: compress_def Let_def)

lemma digest_size_add_data [simp]: "digest_size (add_data ws b) = digest_size b"
  unfolding add_data_def
  by (induction ws arbitrary: b) (auto simp: add_word_def add_offset_def Let_def)

lemma length_F [simp]: "length (blake_F h m t final) = 8"
  by (simp add: blake_F_def compress_def Let_def)

lemma carry_div:
  fixes t n m :: nat
  assumes "n < m"
  shows "(t + n) div m = (if (t + n) mod m < n then t div m + 1 else t div m)"
proof -
  have d: "(t + n) div m = t div m + (t mod m + n) div m" using assms by (subst div_add1_eq) simp
  have r: "(t + n) mod m = (t mod m + n) mod m" by (simp add: mod_add_left_eq)
  have m: "0 < m" "t mod m < m" using assms by auto
  show ?thesis
  proof (cases "t mod m + n < m")
    case True
    then show ?thesis unfolding d r by simp
  next
    case False
    have "t mod m + n < m + m" using m assms by linarith
    then have q: "(t mod m + n) div m = 1" using False by (intro div_nat_eqI) auto
    have "t mod m + n - m < m" using m assms by linarith
    then have "(t mod m + n) mod m = t mod m + n - m" using False le_mod_geq [of m "t mod m + n"] by simp
    then show ?thesis using m False q unfolding d r by simp
  qed
qed

lemma add_offset_count:
  assumes "b_offset b = count_words t" and "n < 2 ^ 64"
  shows "add_offset (of_nat n) b = b\<lparr>b_offset := count_words (t + n)\<rparr>"
proof -
  have lo: "unat (of_nat t + of_nat n :: u64) = (t + n) mod 2 ^ 64"
    by (simp add: unat_of_nat unsigned_of_nat take_bit_eq_mod flip: of_nat_add)
  have n: "unat (of_nat n :: u64) = n" using assms(2) by (simp add: unsigned_of_nat take_bit_nat_eq_self)
  show ?thesis using assms(1) lo n carry_div [OF assms(2), of t]
    by (simp add: add_offset_def count_words_def Let_def word_less_nat_alt)
qed

lemma generate_digest_ref:
  assumes "length (b_input b) = 16" and "input_ptr b \<le> 16" and "b_offset b = count_words t"
  shows "fst (generate_digest (add_data ws b)) =
    take (digest_size b div 8) (blake_ref (b_state b) t (take (input_ptr b) (b_input b) @ ws))"
  using assms
proof (induction ws arbitrary: b t)
  case Nil
  have "of_nat (input_ptr b) * 8 = (of_nat (8 * input_ptr b) :: u64)" by simp
  then have "add_offset (of_nat (input_ptr b) * 8) b = b\<lparr>b_offset := count_words (t + 8 * input_ptr b)\<rparr>"
    using Nil add_offset_count [of b t "8 * input_ptr b"] by (simp add: mult.commute)
  then show ?case using Nil by (simp add: add_data_def generate_digest_def Let_def compress_F blake_ref.simps)
next
  case (Cons w ws)
  show ?case
  proof (cases "input_ptr b = 16")
    case True
    let ?b = "b\<lparr>b_offset := count_words (t + 128), b_state := blake_F (b_state b) (b_input b) (count_words (t + 128)) False,
      b_input := (b_input b)[0 := w], input_ptr := 1\<rparr>"
    have "add_word w b = ?b"
      using True add_offset_count [OF Cons.prems(3), of 128] by (simp add: add_word_def compress_F Let_def)
    moreover have "take 1 ((b_input b)[0 := w]) = [w]" using Cons.prems(1) by (cases "b_input b") auto
    moreover have "blake_ref (b_state b) t (b_input b @ w # ws) =
        blake_ref (blake_F (b_state b) (b_input b) (count_words (t + 128)) False) (t + 128) (w # ws)"
      using Cons.prems(1) by (subst blake_ref.simps) simp
    ultimately show ?thesis using Cons.IH [of ?b "t + 128"] Cons.prems True by (simp add: add_data_def)
  next
    case False
    let ?b = "b\<lparr>b_input := (b_input b)[input_ptr b := w], input_ptr := input_ptr b + 1\<rparr>"
    have "add_word w b = ?b" using False by (simp add: add_word_def Let_def)
    moreover have "take (input_ptr b + 1) ((b_input b)[input_ptr b := w]) = take (input_ptr b) (b_input b) @ [w]"
      using Cons.prems False by (simp add: take_Suc_conv_app_nth)
    ultimately show ?thesis using Cons.IH [of ?b t] Cons.prems False by (simp add: add_data_def)
  qed
qed

lemma blake2b_init_simps [simp]:
  "length (b_input (blake2b_init n [])) = 16" "input_ptr (blake2b_init n []) = 0"
  "b_offset (blake2b_init n []) = count_words 0" "digest_size (blake2b_init n key) = n"
  by (simp_all add: blake2b_init_def Let_def count_words_def)

section \<open>Output of the generator\<close>

lemma length_bytes_of [simp]: "length (bytes_of (w :: 'a::len word)) = LENGTH('a) div 8"
  by (simp add: bytes_of_def)

lemma length_concat_bytes: "length (concat (map bytes_of (ws :: 'a::len word list))) = LENGTH('a) div 8 * length ws"
  by (induction ws) auto

lemma length_block [simp]: "length (cha_cha20_block key c n) = 16"
  by (simp add: cha_cha20_block_def chacha_init_def Let_def)

lemma generate_loop_0 [simp]: "generate_loop key c n 0 = []"
  by (simp add: generate_loop.simps)

lemma generate_loop_step:
  "0 < left \<Longrightarrow> generate_loop key c n left =
     take (min left 64) (concat (map bytes_of (cha_cha20_block key c n))) @
     generate_loop key (c + 1) n (left - min left 64)"
  by (subst generate_loop.simps) (simp add: Let_def)

lemma length_generate_loop [simp]: "length (generate_loop key c n left) = left"
proof (induction key c n left rule: generate_loop.induct)
  case (1 key c n left)
  then show ?case by (cases "left = 0") (auto simp: generate_loop_step length_concat_bytes)
qed

lemma generate_loop_prefix: "m \<le> left \<Longrightarrow> generate_loop key c n m = take m (generate_loop key c n left)"
proof (induction key c n left arbitrary: m rule: generate_loop.induct)
  case (1 key c n left)
  consider "m = 0" | "0 < m" "m \<le> 64" | "64 < m" by linarith
  then show ?case
  proof cases
    case 2
    then show ?thesis using 1(2) by (simp add: generate_loop_step length_concat_bytes min_def)
  next
    case 3
    then have "generate_loop key (c + 1) n (m - 64) = take (m - 64) (generate_loop key (c + 1) n (left - 64))"
      using 1(1) [OF _ refl, of "m - 64"] 1(2) by simp
    then show ?thesis using 3 1(2) by (simp add: generate_loop_step length_concat_bytes)
  qed simp
qed

definition nonce_val :: "u32 list \<Rightarrow> nat" where
  "nonce_val n = unat (n ! 0) + 2 ^ 32 * unat (n ! 1) + 2 ^ 64 * unat (n ! 2)"

lemma inc32:
  fixes w :: u32
  shows "w + 1 = 0 \<longleftrightarrow> unat w = 4294967295" "unat (w + 1) = (if unat w = 4294967295 then 0 else unat w + 1)"
  using unsigned_less [of w, where ?'a = nat]
  by (auto simp: unat_word_ariths(1) word_eq_unat mod_Suc split: if_splits)

lemma nonce_use_val:
  assumes "length n = 3"
  shows "nonce_val (nonce_use n) = (nonce_val n + 1) mod 2 ^ 96" and "length (nonce_use n) = 3"
proof -
  obtain a b c where n: "n = [a, b, c]" using assms by (auto simp: numeral_eq_Suc length_Suc_conv)
  show "nonce_val (nonce_use n) = (nonce_val n + 1) mod 2 ^ 96"
    using unsigned_less [of a, where ?'a = nat] unsigned_less [of b, where ?'a = nat] unsigned_less [of c, where ?'a = nat]
    by (cases "unat a = 4294967295"; cases "unat b = 4294967295"; cases "unat c = 4294967295")
      (simp_all add: n nonce_use_def nonce_val_def Let_def inc32)
  show "length (nonce_use n) = 3" using assms by (simp add: nonce_use_def Let_def)
qed

section \<open>Properties\<close>

text \<open>The ten double rounds of the block vector of the self test, one by one.\<close>

lemma kat_round_1:
  "inner_block
    [0x61707865, 0x3320646E, 0x79622D32, 0x6B206574, 0x03020100, 0x07060504, 0x0B0A0908, 0x0F0E0D0C,
     0x13121110, 0x17161514, 0x1B1A1918, 0x1F1E1D1C, 0x00000001, 0x09000000, 0x4A000000, 0x00000000] =
    [0xCD52E917, 0x85AB03B4, 0xB3457395, 0xF96DE7DD, 0xC4B7CD22, 0x5C2E187A, 0xC95EB461, 0x316C801A,
     0x7BF7D740, 0x7EDDD644, 0xF1A1BDF5, 0x761246CA, 0x6B0D58A3, 0x6798471A, 0xD737F167, 0xF173888D]"
  by code_simp

lemma kat_round_2:
  "inner_block
    [0xCD52E917, 0x85AB03B4, 0xB3457395, 0xF96DE7DD, 0xC4B7CD22, 0x5C2E187A, 0xC95EB461, 0x316C801A,
     0x7BF7D740, 0x7EDDD644, 0xF1A1BDF5, 0x761246CA, 0x6B0D58A3, 0x6798471A, 0xD737F167, 0xF173888D] =
    [0xCF1A7584, 0x048927EC, 0x54051FDA, 0xC244FF28, 0x901D2F40, 0x7974B81C, 0x378DCFB4, 0xCD47FD0E,
     0x2DAFB216, 0x27C89CD6, 0xCD3C9AA0, 0x79FC89C7, 0x10AEF18D, 0x16218765, 0x68F76705, 0x04D6EE22]"
  by code_simp

lemma kat_round_3:
  "inner_block
    [0xCF1A7584, 0x048927EC, 0x54051FDA, 0xC244FF28, 0x901D2F40, 0x7974B81C, 0x378DCFB4, 0xCD47FD0E,
     0x2DAFB216, 0x27C89CD6, 0xCD3C9AA0, 0x79FC89C7, 0x10AEF18D, 0x16218765, 0x68F76705, 0x04D6EE22] =
    [0x03A14032, 0x66B15927, 0x9D6B6B42, 0xB84C4109, 0xA7143AE0, 0xA09B33DD, 0xA5DAAF88, 0x2FD91A73,
     0xC90C6B18, 0x5A202413, 0xC20E01B6, 0x72CD6B74, 0xBA35D777, 0xB360F1BF, 0x8178315B, 0x2CD11B1A]"
  by code_simp

lemma kat_round_4:
  "inner_block
    [0x03A14032, 0x66B15927, 0x9D6B6B42, 0xB84C4109, 0xA7143AE0, 0xA09B33DD, 0xA5DAAF88, 0x2FD91A73,
     0xC90C6B18, 0x5A202413, 0xC20E01B6, 0x72CD6B74, 0xBA35D777, 0xB360F1BF, 0x8178315B, 0x2CD11B1A] =
    [0x9A2D3589, 0x0B23FC4E, 0x40AF3B6B, 0xCEEA8144, 0x0A1BFFC6, 0x5E5993F7, 0x9904C2E7, 0x0D334718,
     0xE46C6354, 0xC9503229, 0x04FEF5AA, 0xF8933F72, 0x2687D476, 0x54E65231, 0x3594FFC5, 0x2B3BB2CA]"
  by code_simp

lemma kat_round_5:
  "inner_block
    [0x9A2D3589, 0x0B23FC4E, 0x40AF3B6B, 0xCEEA8144, 0x0A1BFFC6, 0x5E5993F7, 0x9904C2E7, 0x0D334718,
     0xE46C6354, 0xC9503229, 0x04FEF5AA, 0xF8933F72, 0x2687D476, 0x54E65231, 0x3594FFC5, 0x2B3BB2CA] =
    [0xC53318C5, 0xCA325D96, 0x7E7D11CB, 0x3404E2CA, 0x26D7CF73, 0x6088D379, 0xC0F0E9BD, 0xE310CDB9,
     0xAE2CA8DB, 0x42F67C72, 0x71669ACA, 0x975C171D, 0x9E5EC228, 0x7D85A9F3, 0x201D0756, 0x63FA6953]"
  by code_simp

lemma kat_round_6:
  "inner_block
    [0xC53318C5, 0xCA325D96, 0x7E7D11CB, 0x3404E2CA, 0x26D7CF73, 0x6088D379, 0xC0F0E9BD, 0xE310CDB9,
     0xAE2CA8DB, 0x42F67C72, 0x71669ACA, 0x975C171D, 0x9E5EC228, 0x7D85A9F3, 0x201D0756, 0x63FA6953] =
    [0x04A3131A, 0x66176309, 0x0415BAB1, 0x61B880A2, 0x36CC86C7, 0xBF8A4465, 0xF77DD720, 0xFC0BDC90,
     0x07D13ACA, 0xEB0BE9AF, 0x61599491, 0x918512DC, 0x33B6686D, 0x795CC671, 0xC0049972, 0xA0A81BDE]"
  by code_simp

lemma kat_round_7:
  "inner_block
    [0x04A3131A, 0x66176309, 0x0415BAB1, 0x61B880A2, 0x36CC86C7, 0xBF8A4465, 0xF77DD720, 0xFC0BDC90,
     0x07D13ACA, 0xEB0BE9AF, 0x61599491, 0x918512DC, 0x33B6686D, 0x795CC671, 0xC0049972, 0xA0A81BDE] =
    [0x9B70F51F, 0x7EA8AC11, 0x21E54DA9, 0xCA393B2F, 0x93B08686, 0x6A4C50AE, 0x19212A5A, 0x9B032958,
     0xD839165E, 0x4C06E28A, 0xD3FDE99E, 0x26ACC13D, 0xA609F555, 0x2C246549, 0x95151853, 0x2C847A0D]"
  by code_simp

lemma kat_round_8:
  "inner_block
    [0x9B70F51F, 0x7EA8AC11, 0x21E54DA9, 0xCA393B2F, 0x93B08686, 0x6A4C50AE, 0x19212A5A, 0x9B032958,
     0xD839165E, 0x4C06E28A, 0xD3FDE99E, 0x26ACC13D, 0xA609F555, 0x2C246549, 0x95151853, 0x2C847A0D] =
    [0xCA5C85DD, 0x93A4F90E, 0xD9F0DF58, 0x26DD82DD, 0x982563F8, 0x712AA9FF, 0x279A61E8, 0x970F72BD,
     0x1C25931A, 0x5180BB10, 0x779C27E7, 0x54077E08, 0xA9B751FB, 0x382F3CE2, 0x8DB1757D, 0xCC38080B]"
  by code_simp

lemma kat_round_9:
  "inner_block
    [0xCA5C85DD, 0x93A4F90E, 0xD9F0DF58, 0x26DD82DD, 0x982563F8, 0x712AA9FF, 0x279A61E8, 0x970F72BD,
     0x1C25931A, 0x5180BB10, 0x779C27E7, 0x54077E08, 0xA9B751FB, 0x382F3CE2, 0x8DB1757D, 0xCC38080B] =
    [0xB6B87DE6, 0x9A016148, 0x93859815, 0x4915E6CC, 0xDC33C122, 0x98E18FA3, 0x5FFBE8FC, 0xF7154B8B,
     0x28C1FCB3, 0xC4B38F9D, 0x83E2F5D7, 0x7D24B98B, 0x21078B22, 0xB193E7A3, 0xB2F49389, 0x6CDE6026]"
  by code_simp

lemma kat_round_10:
  "inner_block
    [0xB6B87DE6, 0x9A016148, 0x93859815, 0x4915E6CC, 0xDC33C122, 0x98E18FA3, 0x5FFBE8FC, 0xF7154B8B,
     0x28C1FCB3, 0xC4B38F9D, 0x83E2F5D7, 0x7D24B98B, 0x21078B22, 0xB193E7A3, 0xB2F49389, 0x6CDE6026] =
    [0x837778AB, 0xE238D763, 0xA67AE21E, 0x5950BB2F, 0xC4F2D0C7, 0xFC62BB2F, 0x8FA018FC, 0x3F5EC7B7,
     0x335271C2, 0xF29489F3, 0xEABDA8FC, 0x82E46EBD, 0xD19C12B4, 0xB04E16DE, 0x9E83D0CB, 0x4E3C50A2]"
  by code_simp

lemma funpow_10: "(f ^^ 10) x = f (f (f (f (f (f (f (f (f (f x)))))))))"
  by (simp add: eval_nat_numeral)

lemmas kat_rounds = kat_round_1 kat_round_2 kat_round_3 kat_round_4 kat_round_5 kat_round_6 kat_round_7
  kat_round_8 kat_round_9 kat_round_10

text \<open>The ChaCha20 part of the self test that the code runs at compile time passes: the
  quarter round vectors and the block function vector of RFC 8439.\<close>

lemma chacha_self_test: "verify_quarter_round \<and> verify_block"
proof
  show verify_quarter_round by code_simp
  show verify_block
    by (simp add: verify_block_def cha_cha20_block_def chacha_init_def Let_def funpow_10 kat_rounds)
qed

text \<open>C13 The ChaCha20 rounds are a permutation of the 16-word states: undoing the quarter
  rounds in the reverse order gives the state back, so no two states are mixed into one.\<close>

theorem chacha_rounds_invertible:
  assumes "length st = 16"
  shows "(inner_unblock ^^ n) ((inner_block ^^ n) st) = st \<and> length ((inner_block ^^ n) st) = 16"
  using assms funpow_unblock by simp

theorem chacha_rounds_invertible_witness:
  "length (replicate 16 0x01234567 :: u32 list) = 16 \<and>
   (inner_unblock ^^ 10) ((inner_block ^^ 10) (replicate 16 0x01234567)) = replicate 16 0x01234567"
  using chacha_rounds_invertible [of "replicate 16 0x01234567" 10] by (simp only: length_replicate simp_thms)

lemma add_data_input:
  "length ws \<le> 16 - input_ptr b \<Longrightarrow> input_ptr b \<le> 16 \<Longrightarrow> length (b_input b) = 16 \<Longrightarrow>
   add_data ws b = b\<lparr>b_input := take (input_ptr b) (b_input b) @ ws @ drop (input_ptr b + length ws) (b_input b),
     input_ptr := input_ptr b + length ws\<rparr>"
proof (induction ws arbitrary: b)
  case (Cons w ws)
  let ?b = "b\<lparr>b_input := (b_input b)[input_ptr b := w], input_ptr := input_ptr b + 1\<rparr>"
  have "add_word w b = ?b" using Cons.prems by (simp add: add_word_def Let_def)
  moreover have "take (input_ptr b + 1) ((b_input b)[input_ptr b := w]) = take (input_ptr b) (b_input b) @ [w]"
    using Cons.prems by (simp add: take_Suc_conv_app_nth)
  ultimately show ?case using Cons.IH [of ?b] Cons.prems by (simp add: add_data_def)
qed (simp add: add_data_def)

text \<open>The initial chaining value: the IV with the parameter block folded into its first word.\<close>

definition blake_h0 :: "nat \<Rightarrow> nat \<Rightarrow> u64 list" where
  "blake_h0 n k = BLAKE2B_IV[0 := BLAKE2B_IV ! 0 XOR (0x01010000 XOR push_bit 8 (of_nat k * 8) XOR of_nat n)]"

text \<open>C10 Feeding a message word by word, with or without a key, gives the digest of the block by
  block reference: a key of up to 16 words is the first block, padded with zeros, the last block is
  padded with zeros and alone is final, and the byte count is exact with the carry into its upper word.\<close>

theorem blake2b_streaming:
  assumes "length key \<le> 16"
  shows "fst (generate_digest (add_data ws (blake2b_init n key))) =
    take (n div 8) (blake_ref (blake_h0 n (length key)) 0
      (if key = [] then ws else key @ replicate (16 - length key) 0 @ ws))"
proof -
  define b where "b = \<lparr>b_input = replicate 16 0, b_state = blake_h0 n (length key), b_offset = count_words 0,
    input_ptr = 0, digest_size = n\<rparr>"
  have i: "blake2b_init n key = (if key \<noteq> [] then (add_data key b)\<lparr>input_ptr := 16\<rparr> else b)"
    by (simp add: blake2b_init_def b_def blake_h0_def count_words_def Let_def)
  show ?thesis
  proof (cases "key = []")
    case True
    then show ?thesis using i generate_digest_ref [of b 0 ws] by (simp add: b_def)
  next
    case False
    have "add_data key b = b\<lparr>b_input := key @ replicate (16 - length key) 0, input_ptr := length key\<rparr>"
      using add_data_input [of key b] assms by (simp add: b_def)
    then show ?thesis using False assms generate_digest_ref [of "blake2b_init n key" 0 ws]
      by (simp add: i b_def)
  qed
qed

theorem blake2b_streaming_witness:
  "length [1, 2, 3, 4 :: u64] \<le> 16 \<and>
   fst (generate_digest (add_data [7, 8] (blake2b_init 32 [1, 2, 3, 4]))) =
     take 4 (blake_ref (blake_h0 32 (length [1, 2, 3, 4 :: u64])) 0 ([1, 2, 3, 4] @ replicate 12 0 @ [7, 8]))"
  using blake2b_streaming [of "[1, 2, 3, 4]" "[7, 8]" 32] by simp



lemma nonce_use_pow:
  "length n = 3 \<Longrightarrow> nonce_val ((nonce_use ^^ k) n) mod 2 ^ 96 = (nonce_val n + k) mod 2 ^ 96 \<and>
     length ((nonce_use ^^ k) n) = 3"
proof (induction k)
  case (Suc k)
  let ?x = "(nonce_use ^^ k) n"
  have l: "length ?x = 3" and v: "nonce_val ?x mod 2 ^ 96 = (nonce_val n + k) mod 2 ^ 96" using Suc by auto
  have "nonce_val (nonce_use ?x) mod 2 ^ 96 = Suc (nonce_val ?x) mod 2 ^ 96"
    by (simp add: nonce_use_val(1) [OF l])
  also have "\<dots> = Suc (nonce_val ?x mod 2 ^ 96) mod 2 ^ 96" by (rule mod_Suc_eq [symmetric])
  also have "\<dots> = (nonce_val n + Suc k) mod 2 ^ 96" by (simp only: v mod_Suc_eq add_Suc_right)
  finally show ?case using nonce_use_val(2) [OF l] by (simp only: funpow.simps o_apply)
qed simp



end
