(* ===== verification/Input_Events.thy ===== *)
theory Input_Events
  imports Ring
begin

text \<open>
  The input events of \<open>src/include/crescent/event.h\<close> and the queue between the input drivers
  and the readers, \<open>src/src/sys/event_queue.hpp\<close> and \<open>event_queue.cpp\<close>.

  A scan code is the number that the enumeration gives it (drivers convert numbers to scan codes
  without a check). The readers that wait for
  \<open>produce_event\<close> are represented by the count of its signals.
\<close>

section \<open>Events\<close>

type_synonym Scancode = nat

abbreviation SCANCODE_A :: Scancode where "SCANCODE_A \<equiv> 4"
abbreviation SCANCODE_B :: Scancode where "SCANCODE_B \<equiv> 5"
abbreviation SCANCODE_C :: Scancode where "SCANCODE_C \<equiv> 6"
abbreviation SCANCODE_D :: Scancode where "SCANCODE_D \<equiv> 7"
abbreviation SCANCODE_E :: Scancode where "SCANCODE_E \<equiv> 8"
abbreviation SCANCODE_F :: Scancode where "SCANCODE_F \<equiv> 9"
abbreviation SCANCODE_G :: Scancode where "SCANCODE_G \<equiv> 10"
abbreviation SCANCODE_H :: Scancode where "SCANCODE_H \<equiv> 11"
abbreviation SCANCODE_I :: Scancode where "SCANCODE_I \<equiv> 12"
abbreviation SCANCODE_J :: Scancode where "SCANCODE_J \<equiv> 13"
abbreviation SCANCODE_K :: Scancode where "SCANCODE_K \<equiv> 14"
abbreviation SCANCODE_L :: Scancode where "SCANCODE_L \<equiv> 15"
abbreviation SCANCODE_M :: Scancode where "SCANCODE_M \<equiv> 16"
abbreviation SCANCODE_N :: Scancode where "SCANCODE_N \<equiv> 17"
abbreviation SCANCODE_O :: Scancode where "SCANCODE_O \<equiv> 18"
abbreviation SCANCODE_P :: Scancode where "SCANCODE_P \<equiv> 19"
abbreviation SCANCODE_Q :: Scancode where "SCANCODE_Q \<equiv> 20"
abbreviation SCANCODE_R :: Scancode where "SCANCODE_R \<equiv> 21"
abbreviation SCANCODE_S :: Scancode where "SCANCODE_S \<equiv> 22"
abbreviation SCANCODE_T :: Scancode where "SCANCODE_T \<equiv> 23"
abbreviation SCANCODE_U :: Scancode where "SCANCODE_U \<equiv> 24"
abbreviation SCANCODE_V :: Scancode where "SCANCODE_V \<equiv> 25"
abbreviation SCANCODE_W :: Scancode where "SCANCODE_W \<equiv> 26"
abbreviation SCANCODE_X :: Scancode where "SCANCODE_X \<equiv> 27"
abbreviation SCANCODE_Y :: Scancode where "SCANCODE_Y \<equiv> 28"
abbreviation SCANCODE_Z :: Scancode where "SCANCODE_Z \<equiv> 29"
abbreviation SCANCODE_1 :: Scancode where "SCANCODE_1 \<equiv> 30"
abbreviation SCANCODE_2 :: Scancode where "SCANCODE_2 \<equiv> 31"
abbreviation SCANCODE_3 :: Scancode where "SCANCODE_3 \<equiv> 32"
abbreviation SCANCODE_4 :: Scancode where "SCANCODE_4 \<equiv> 33"
abbreviation SCANCODE_5 :: Scancode where "SCANCODE_5 \<equiv> 34"
abbreviation SCANCODE_6 :: Scancode where "SCANCODE_6 \<equiv> 35"
abbreviation SCANCODE_7 :: Scancode where "SCANCODE_7 \<equiv> 36"
abbreviation SCANCODE_8 :: Scancode where "SCANCODE_8 \<equiv> 37"
abbreviation SCANCODE_9 :: Scancode where "SCANCODE_9 \<equiv> 38"
abbreviation SCANCODE_0 :: Scancode where "SCANCODE_0 \<equiv> 39"
abbreviation SCANCODE_RETURN :: Scancode where "SCANCODE_RETURN \<equiv> 40"
abbreviation SCANCODE_ESCAPE :: Scancode where "SCANCODE_ESCAPE \<equiv> 41"
abbreviation SCANCODE_BACKSPACE :: Scancode where "SCANCODE_BACKSPACE \<equiv> 42"
abbreviation SCANCODE_TAB :: Scancode where "SCANCODE_TAB \<equiv> 43"
abbreviation SCANCODE_SPACE :: Scancode where "SCANCODE_SPACE \<equiv> 44"
abbreviation SCANCODE_MINUS :: Scancode where "SCANCODE_MINUS \<equiv> 45"
abbreviation SCANCODE_EQUALS :: Scancode where "SCANCODE_EQUALS \<equiv> 46"
abbreviation SCANCODE_LEFT_BRACKET :: Scancode where "SCANCODE_LEFT_BRACKET \<equiv> 47"
abbreviation SCANCODE_RIGHT_BRACKET :: Scancode where "SCANCODE_RIGHT_BRACKET \<equiv> 48"
abbreviation SCANCODE_BACKSLASH :: Scancode where "SCANCODE_BACKSLASH \<equiv> 49"
abbreviation SCANCODE_NON_US_HASH :: Scancode where "SCANCODE_NON_US_HASH \<equiv> 50"
abbreviation SCANCODE_SEMICOLON :: Scancode where "SCANCODE_SEMICOLON \<equiv> 51"
abbreviation SCANCODE_APOSTROPHE :: Scancode where "SCANCODE_APOSTROPHE \<equiv> 52"
abbreviation SCANCODE_GRAVE :: Scancode where "SCANCODE_GRAVE \<equiv> 53"
abbreviation SCANCODE_COMMA :: Scancode where "SCANCODE_COMMA \<equiv> 54"
abbreviation SCANCODE_PERIOD :: Scancode where "SCANCODE_PERIOD \<equiv> 55"
abbreviation SCANCODE_SLASH :: Scancode where "SCANCODE_SLASH \<equiv> 56"
abbreviation SCANCODE_CAPSLOCK :: Scancode where "SCANCODE_CAPSLOCK \<equiv> 57"
abbreviation SCANCODE_F1 :: Scancode where "SCANCODE_F1 \<equiv> 58"
abbreviation SCANCODE_F2 :: Scancode where "SCANCODE_F2 \<equiv> 59"
abbreviation SCANCODE_F3 :: Scancode where "SCANCODE_F3 \<equiv> 60"
abbreviation SCANCODE_F4 :: Scancode where "SCANCODE_F4 \<equiv> 61"
abbreviation SCANCODE_F5 :: Scancode where "SCANCODE_F5 \<equiv> 62"
abbreviation SCANCODE_F6 :: Scancode where "SCANCODE_F6 \<equiv> 63"
abbreviation SCANCODE_F7 :: Scancode where "SCANCODE_F7 \<equiv> 64"
abbreviation SCANCODE_F8 :: Scancode where "SCANCODE_F8 \<equiv> 65"
abbreviation SCANCODE_F9 :: Scancode where "SCANCODE_F9 \<equiv> 66"
abbreviation SCANCODE_F10 :: Scancode where "SCANCODE_F10 \<equiv> 67"
abbreviation SCANCODE_F11 :: Scancode where "SCANCODE_F11 \<equiv> 68"
abbreviation SCANCODE_F12 :: Scancode where "SCANCODE_F12 \<equiv> 69"
abbreviation SCANCODE_PRINT_SCREEN :: Scancode where "SCANCODE_PRINT_SCREEN \<equiv> 70"
abbreviation SCANCODE_SCROLL_LOCK :: Scancode where "SCANCODE_SCROLL_LOCK \<equiv> 71"
abbreviation SCANCODE_PAUSE :: Scancode where "SCANCODE_PAUSE \<equiv> 72"
abbreviation SCANCODE_INSERT :: Scancode where "SCANCODE_INSERT \<equiv> 73"
abbreviation SCANCODE_HOME :: Scancode where "SCANCODE_HOME \<equiv> 74"
abbreviation SCANCODE_PAGE_UP :: Scancode where "SCANCODE_PAGE_UP \<equiv> 75"
abbreviation SCANCODE_DELETE :: Scancode where "SCANCODE_DELETE \<equiv> 76"
abbreviation SCANCODE_END :: Scancode where "SCANCODE_END \<equiv> 77"
abbreviation SCANCODE_PAGE_DOWN :: Scancode where "SCANCODE_PAGE_DOWN \<equiv> 78"
abbreviation SCANCODE_RIGHT :: Scancode where "SCANCODE_RIGHT \<equiv> 79"
abbreviation SCANCODE_LEFT :: Scancode where "SCANCODE_LEFT \<equiv> 80"
abbreviation SCANCODE_DOWN :: Scancode where "SCANCODE_DOWN \<equiv> 81"
abbreviation SCANCODE_UP :: Scancode where "SCANCODE_UP \<equiv> 82"
abbreviation SCANCODE_NUM_LOCK :: Scancode where "SCANCODE_NUM_LOCK \<equiv> 83"
abbreviation SCANCODE_KP_DIVIDE :: Scancode where "SCANCODE_KP_DIVIDE \<equiv> 84"
abbreviation SCANCODE_KP_MULTIPLY :: Scancode where "SCANCODE_KP_MULTIPLY \<equiv> 85"
abbreviation SCANCODE_KP_MINUS :: Scancode where "SCANCODE_KP_MINUS \<equiv> 86"
abbreviation SCANCODE_KP_PLUS :: Scancode where "SCANCODE_KP_PLUS \<equiv> 87"
abbreviation SCANCODE_KP_ENTER :: Scancode where "SCANCODE_KP_ENTER \<equiv> 88"
abbreviation SCANCODE_KP_1 :: Scancode where "SCANCODE_KP_1 \<equiv> 89"
abbreviation SCANCODE_KP_2 :: Scancode where "SCANCODE_KP_2 \<equiv> 90"
abbreviation SCANCODE_KP_3 :: Scancode where "SCANCODE_KP_3 \<equiv> 91"
abbreviation SCANCODE_KP_4 :: Scancode where "SCANCODE_KP_4 \<equiv> 92"
abbreviation SCANCODE_KP_5 :: Scancode where "SCANCODE_KP_5 \<equiv> 93"
abbreviation SCANCODE_KP_6 :: Scancode where "SCANCODE_KP_6 \<equiv> 94"
abbreviation SCANCODE_KP_7 :: Scancode where "SCANCODE_KP_7 \<equiv> 95"
abbreviation SCANCODE_KP_8 :: Scancode where "SCANCODE_KP_8 \<equiv> 96"
abbreviation SCANCODE_KP_9 :: Scancode where "SCANCODE_KP_9 \<equiv> 97"
abbreviation SCANCODE_KP_0 :: Scancode where "SCANCODE_KP_0 \<equiv> 98"
abbreviation SCANCODE_KP_PERIOD :: Scancode where "SCANCODE_KP_PERIOD \<equiv> 99"
abbreviation SCANCODE_NON_US_BACKSLASH :: Scancode where "SCANCODE_NON_US_BACKSLASH \<equiv> 100"
abbreviation SCANCODE_APPLICATION :: Scancode where "SCANCODE_APPLICATION \<equiv> 101"
abbreviation SCANCODE_POWER :: Scancode where "SCANCODE_POWER \<equiv> 102"
abbreviation SCANCODE_KP_EQUALS :: Scancode where "SCANCODE_KP_EQUALS \<equiv> 103"
abbreviation SCANCODE_F13 :: Scancode where "SCANCODE_F13 \<equiv> 104"
abbreviation SCANCODE_F14 :: Scancode where "SCANCODE_F14 \<equiv> 105"
abbreviation SCANCODE_F15 :: Scancode where "SCANCODE_F15 \<equiv> 106"
abbreviation SCANCODE_F16 :: Scancode where "SCANCODE_F16 \<equiv> 107"
abbreviation SCANCODE_F17 :: Scancode where "SCANCODE_F17 \<equiv> 108"
abbreviation SCANCODE_F18 :: Scancode where "SCANCODE_F18 \<equiv> 109"
abbreviation SCANCODE_F19 :: Scancode where "SCANCODE_F19 \<equiv> 110"
abbreviation SCANCODE_F20 :: Scancode where "SCANCODE_F20 \<equiv> 111"
abbreviation SCANCODE_F21 :: Scancode where "SCANCODE_F21 \<equiv> 112"
abbreviation SCANCODE_F22 :: Scancode where "SCANCODE_F22 \<equiv> 113"
abbreviation SCANCODE_F23 :: Scancode where "SCANCODE_F23 \<equiv> 114"
abbreviation SCANCODE_F24 :: Scancode where "SCANCODE_F24 \<equiv> 115"
abbreviation SCANCODE_EXECUTE :: Scancode where "SCANCODE_EXECUTE \<equiv> 116"
abbreviation SCANCODE_HELP :: Scancode where "SCANCODE_HELP \<equiv> 117"
abbreviation SCANCODE_MENU :: Scancode where "SCANCODE_MENU \<equiv> 118"
abbreviation SCANCODE_SELECT :: Scancode where "SCANCODE_SELECT \<equiv> 119"
abbreviation SCANCODE_STOP :: Scancode where "SCANCODE_STOP \<equiv> 120"
abbreviation SCANCODE_AGAIN :: Scancode where "SCANCODE_AGAIN \<equiv> 121"
abbreviation SCANCODE_UNDO :: Scancode where "SCANCODE_UNDO \<equiv> 122"
abbreviation SCANCODE_CUT :: Scancode where "SCANCODE_CUT \<equiv> 123"
abbreviation SCANCODE_COPY :: Scancode where "SCANCODE_COPY \<equiv> 124"
abbreviation SCANCODE_PASTE :: Scancode where "SCANCODE_PASTE \<equiv> 125"
abbreviation SCANCODE_FIND :: Scancode where "SCANCODE_FIND \<equiv> 126"
abbreviation SCANCODE_MUTE :: Scancode where "SCANCODE_MUTE \<equiv> 127"
abbreviation SCANCODE_VOLUME_UP :: Scancode where "SCANCODE_VOLUME_UP \<equiv> 128"
abbreviation SCANCODE_VOLUME_DOWN :: Scancode where "SCANCODE_VOLUME_DOWN \<equiv> 129"
abbreviation SCANCODE_LOCKING_CAPSLOCK :: Scancode where "SCANCODE_LOCKING_CAPSLOCK \<equiv> 130"
abbreviation SCANCODE_LOCKING_NUM_LOCK :: Scancode where "SCANCODE_LOCKING_NUM_LOCK \<equiv> 131"
abbreviation SCANCODE_LOCKING_SCROLL_LOCK :: Scancode where "SCANCODE_LOCKING_SCROLL_LOCK \<equiv> 132"
abbreviation SCANCODE_KP_COMMA :: Scancode where "SCANCODE_KP_COMMA \<equiv> 133"
abbreviation SCANCODE_KP_EQUALS_AS400 :: Scancode where "SCANCODE_KP_EQUALS_AS400 \<equiv> 134"
abbreviation SCANCODE_INTERNATIONAL1 :: Scancode where "SCANCODE_INTERNATIONAL1 \<equiv> 135"
abbreviation SCANCODE_INTERNATIONAL2 :: Scancode where "SCANCODE_INTERNATIONAL2 \<equiv> 136"
abbreviation SCANCODE_INTERNATIONAL3 :: Scancode where "SCANCODE_INTERNATIONAL3 \<equiv> 137"
abbreviation SCANCODE_INTERNATIONAL4 :: Scancode where "SCANCODE_INTERNATIONAL4 \<equiv> 138"
abbreviation SCANCODE_INTERNATIONAL5 :: Scancode where "SCANCODE_INTERNATIONAL5 \<equiv> 139"
abbreviation SCANCODE_INTERNATIONAL6 :: Scancode where "SCANCODE_INTERNATIONAL6 \<equiv> 140"
abbreviation SCANCODE_INTERNATIONAL7 :: Scancode where "SCANCODE_INTERNATIONAL7 \<equiv> 141"
abbreviation SCANCODE_INTERNATIONAL8 :: Scancode where "SCANCODE_INTERNATIONAL8 \<equiv> 142"
abbreviation SCANCODE_INTERNATIONAL9 :: Scancode where "SCANCODE_INTERNATIONAL9 \<equiv> 143"
abbreviation SCANCODE_LANG1 :: Scancode where "SCANCODE_LANG1 \<equiv> 144"
abbreviation SCANCODE_LANG2 :: Scancode where "SCANCODE_LANG2 \<equiv> 145"
abbreviation SCANCODE_LANG3 :: Scancode where "SCANCODE_LANG3 \<equiv> 146"
abbreviation SCANCODE_LANG4 :: Scancode where "SCANCODE_LANG4 \<equiv> 147"
abbreviation SCANCODE_LANG5 :: Scancode where "SCANCODE_LANG5 \<equiv> 148"
abbreviation SCANCODE_LANG6 :: Scancode where "SCANCODE_LANG6 \<equiv> 149"
abbreviation SCANCODE_LANG7 :: Scancode where "SCANCODE_LANG7 \<equiv> 150"
abbreviation SCANCODE_LANG8 :: Scancode where "SCANCODE_LANG8 \<equiv> 151"
abbreviation SCANCODE_LANG9 :: Scancode where "SCANCODE_LANG9 \<equiv> 152"
abbreviation SCANCODE_ALT_ERASE :: Scancode where "SCANCODE_ALT_ERASE \<equiv> 153"
abbreviation SCANCODE_SYS_REQ :: Scancode where "SCANCODE_SYS_REQ \<equiv> 154"
abbreviation SCANCODE_CANCEL :: Scancode where "SCANCODE_CANCEL \<equiv> 155"
abbreviation SCANCODE_CLEAR :: Scancode where "SCANCODE_CLEAR \<equiv> 156"
abbreviation SCANCODE_PRIOR :: Scancode where "SCANCODE_PRIOR \<equiv> 157"
abbreviation SCANCODE_RETURN2 :: Scancode where "SCANCODE_RETURN2 \<equiv> 158"
abbreviation SCANCODE_SEPARATOR :: Scancode where "SCANCODE_SEPARATOR \<equiv> 159"
abbreviation SCANCODE_OUT :: Scancode where "SCANCODE_OUT \<equiv> 160"
abbreviation SCANCODE_OPER :: Scancode where "SCANCODE_OPER \<equiv> 161"
abbreviation SCANCODE_CLEAR_AGAIN :: Scancode where "SCANCODE_CLEAR_AGAIN \<equiv> 162"
abbreviation SCANCODE_CR_SEL :: Scancode where "SCANCODE_CR_SEL \<equiv> 163"
abbreviation SCANCODE_EX_SEL :: Scancode where "SCANCODE_EX_SEL \<equiv> 164"
abbreviation SCANCODE_KP_00 :: Scancode where "SCANCODE_KP_00 \<equiv> 176"
abbreviation SCANCODE_KP_000 :: Scancode where "SCANCODE_KP_000 \<equiv> 177"
abbreviation SCANCODE_THOUSANDS_SEPARATOR :: Scancode where "SCANCODE_THOUSANDS_SEPARATOR \<equiv> 178"
abbreviation SCANCODE_DECIMAL_SEPARATOR :: Scancode where "SCANCODE_DECIMAL_SEPARATOR \<equiv> 179"
abbreviation SCANCODE_CURRENCY_UNIT :: Scancode where "SCANCODE_CURRENCY_UNIT \<equiv> 180"
abbreviation SCANCODE_CURRENCY_SUB_UNIT :: Scancode where "SCANCODE_CURRENCY_SUB_UNIT \<equiv> 181"
abbreviation SCANCODE_KP_LEFT_PAREN :: Scancode where "SCANCODE_KP_LEFT_PAREN \<equiv> 182"
abbreviation SCANCODE_KP_RIGHT_PAREN :: Scancode where "SCANCODE_KP_RIGHT_PAREN \<equiv> 183"
abbreviation SCANCODE_KP_LEFT_BRACE :: Scancode where "SCANCODE_KP_LEFT_BRACE \<equiv> 184"
abbreviation SCANCODE_KP_RIGHT_BRACE :: Scancode where "SCANCODE_KP_RIGHT_BRACE \<equiv> 185"
abbreviation SCANCODE_KP_TAB :: Scancode where "SCANCODE_KP_TAB \<equiv> 186"
abbreviation SCANCODE_KP_BACKSPACE :: Scancode where "SCANCODE_KP_BACKSPACE \<equiv> 187"
abbreviation SCANCODE_KP_A :: Scancode where "SCANCODE_KP_A \<equiv> 188"
abbreviation SCANCODE_KP_B :: Scancode where "SCANCODE_KP_B \<equiv> 189"
abbreviation SCANCODE_KP_C :: Scancode where "SCANCODE_KP_C \<equiv> 190"
abbreviation SCANCODE_KP_D :: Scancode where "SCANCODE_KP_D \<equiv> 191"
abbreviation SCANCODE_KP_E :: Scancode where "SCANCODE_KP_E \<equiv> 192"
abbreviation SCANCODE_KP_F :: Scancode where "SCANCODE_KP_F \<equiv> 193"
abbreviation SCANCODE_KP_XOR :: Scancode where "SCANCODE_KP_XOR \<equiv> 194"
abbreviation SCANCODE_KP_POWER :: Scancode where "SCANCODE_KP_POWER \<equiv> 195"
abbreviation SCANCODE_KP_PERCENT :: Scancode where "SCANCODE_KP_PERCENT \<equiv> 196"
abbreviation SCANCODE_KP_LESS :: Scancode where "SCANCODE_KP_LESS \<equiv> 197"
abbreviation SCANCODE_KP_GREATER :: Scancode where "SCANCODE_KP_GREATER \<equiv> 198"
abbreviation SCANCODE_KP_AMPERSAND :: Scancode where "SCANCODE_KP_AMPERSAND \<equiv> 199"
abbreviation SCANCODE_KP_DBL_AMPERSAND :: Scancode where "SCANCODE_KP_DBL_AMPERSAND \<equiv> 200"
abbreviation SCANCODE_KP_VERTICAL_BAR :: Scancode where "SCANCODE_KP_VERTICAL_BAR \<equiv> 201"
abbreviation SCANCODE_KP_DBL_VERTICAL_BAR :: Scancode where "SCANCODE_KP_DBL_VERTICAL_BAR \<equiv> 202"
abbreviation SCANCODE_KP_COLON :: Scancode where "SCANCODE_KP_COLON \<equiv> 203"
abbreviation SCANCODE_KP_HASH :: Scancode where "SCANCODE_KP_HASH \<equiv> 204"
abbreviation SCANCODE_KP_SPACE :: Scancode where "SCANCODE_KP_SPACE \<equiv> 205"
abbreviation SCANCODE_KP_AT :: Scancode where "SCANCODE_KP_AT \<equiv> 206"
abbreviation SCANCODE_KP_EXCLAM :: Scancode where "SCANCODE_KP_EXCLAM \<equiv> 207"
abbreviation SCANCODE_KP_MEM_STORE :: Scancode where "SCANCODE_KP_MEM_STORE \<equiv> 208"
abbreviation SCANCODE_KP_MEM_RECALL :: Scancode where "SCANCODE_KP_MEM_RECALL \<equiv> 209"
abbreviation SCANCODE_KP_MEM_CLEAR :: Scancode where "SCANCODE_KP_MEM_CLEAR \<equiv> 210"
abbreviation SCANCODE_KP_MEM_ADD :: Scancode where "SCANCODE_KP_MEM_ADD \<equiv> 211"
abbreviation SCANCODE_KP_MEM_SUBTRACT :: Scancode where "SCANCODE_KP_MEM_SUBTRACT \<equiv> 212"
abbreviation SCANCODE_KP_MEM_MULTIPLY :: Scancode where "SCANCODE_KP_MEM_MULTIPLY \<equiv> 213"
abbreviation SCANCODE_KP_MEM_DIVIDE :: Scancode where "SCANCODE_KP_MEM_DIVIDE \<equiv> 214"
abbreviation SCANCODE_KP_PLUS_MINUS :: Scancode where "SCANCODE_KP_PLUS_MINUS \<equiv> 215"
abbreviation SCANCODE_KP_CLEAR :: Scancode where "SCANCODE_KP_CLEAR \<equiv> 216"
abbreviation SCANCODE_KP_CLEAR_ENTRY :: Scancode where "SCANCODE_KP_CLEAR_ENTRY \<equiv> 217"
abbreviation SCANCODE_KP_BINARY :: Scancode where "SCANCODE_KP_BINARY \<equiv> 218"
abbreviation SCANCODE_KP_OCTAL :: Scancode where "SCANCODE_KP_OCTAL \<equiv> 219"
abbreviation SCANCODE_KP_DECIMAL :: Scancode where "SCANCODE_KP_DECIMAL \<equiv> 220"
abbreviation SCANCODE_KP_HEXADECIMAL :: Scancode where "SCANCODE_KP_HEXADECIMAL \<equiv> 221"
abbreviation SCANCODE_LCTRL :: Scancode where "SCANCODE_LCTRL \<equiv> 224"
abbreviation SCANCODE_LSHIFT :: Scancode where "SCANCODE_LSHIFT \<equiv> 225"
abbreviation SCANCODE_LALT :: Scancode where "SCANCODE_LALT \<equiv> 226"
abbreviation SCANCODE_LGUI :: Scancode where "SCANCODE_LGUI \<equiv> 227"
abbreviation SCANCODE_RCTRL :: Scancode where "SCANCODE_RCTRL \<equiv> 228"
abbreviation SCANCODE_RSHIFT :: Scancode where "SCANCODE_RSHIFT \<equiv> 229"
abbreviation SCANCODE_RALT :: Scancode where "SCANCODE_RALT \<equiv> 230"
abbreviation SCANCODE_RGUI :: Scancode where "SCANCODE_RGUI \<equiv> 231"
abbreviation SCANCODE_AC_SEARCH :: Scancode where "SCANCODE_AC_SEARCH \<equiv> 232"
abbreviation SCANCODE_AC_HOME :: Scancode where "SCANCODE_AC_HOME \<equiv> 233"
abbreviation SCANCODE_AC_BACK :: Scancode where "SCANCODE_AC_BACK \<equiv> 234"
abbreviation SCANCODE_AC_FORWARD :: Scancode where "SCANCODE_AC_FORWARD \<equiv> 235"
abbreviation SCANCODE_AC_STOP :: Scancode where "SCANCODE_AC_STOP \<equiv> 236"
abbreviation SCANCODE_AC_REFRESH :: Scancode where "SCANCODE_AC_REFRESH \<equiv> 237"
abbreviation SCANCODE_AC_BOOKMARKS :: Scancode where "SCANCODE_AC_BOOKMARKS \<equiv> 238"
abbreviation SCANCODE_AUDIO_PLAY :: Scancode where "SCANCODE_AUDIO_PLAY \<equiv> 239"
abbreviation SCANCODE_AUDIO_STOP :: Scancode where "SCANCODE_AUDIO_STOP \<equiv> 240"
abbreviation SCANCODE_AUDIO_MUTE :: Scancode where "SCANCODE_AUDIO_MUTE \<equiv> 241"
abbreviation SCANCODE_AUDIO_PREV :: Scancode where "SCANCODE_AUDIO_PREV \<equiv> 242"
abbreviation SCANCODE_AUDIO_NEXT :: Scancode where "SCANCODE_AUDIO_NEXT \<equiv> 243"
abbreviation SCANCODE_COMPUTER :: Scancode where "SCANCODE_COMPUTER \<equiv> 244"
abbreviation SCANCODE_MAIL :: Scancode where "SCANCODE_MAIL \<equiv> 245"
abbreviation SCANCODE_MEDIA_SELECT :: Scancode where "SCANCODE_MEDIA_SELECT \<equiv> 246"
abbreviation SCANCODE_CALCULATOR :: Scancode where "SCANCODE_CALCULATOR \<equiv> 247"
abbreviation SCANCODE_UNKNOWN :: Scancode where "SCANCODE_UNKNOWN \<equiv> 248"
abbreviation SCANCODE_MAX :: Scancode where "SCANCODE_MAX \<equiv> 249"

text \<open>The values of the enumeration in the order of the source.\<close>

definition scancode_values :: "Scancode list" where
  "scancode_values =
     [SCANCODE_A, SCANCODE_B, SCANCODE_C, SCANCODE_D, SCANCODE_E, SCANCODE_F, SCANCODE_G,
      SCANCODE_H, SCANCODE_I, SCANCODE_J, SCANCODE_K, SCANCODE_L, SCANCODE_M, SCANCODE_N,
      SCANCODE_O, SCANCODE_P, SCANCODE_Q, SCANCODE_R, SCANCODE_S, SCANCODE_T, SCANCODE_U,
      SCANCODE_V, SCANCODE_W, SCANCODE_X, SCANCODE_Y, SCANCODE_Z, SCANCODE_1, SCANCODE_2,
      SCANCODE_3, SCANCODE_4, SCANCODE_5, SCANCODE_6, SCANCODE_7, SCANCODE_8, SCANCODE_9,
      SCANCODE_0, SCANCODE_RETURN, SCANCODE_ESCAPE, SCANCODE_BACKSPACE, SCANCODE_TAB,
      SCANCODE_SPACE, SCANCODE_MINUS, SCANCODE_EQUALS, SCANCODE_LEFT_BRACKET,
      SCANCODE_RIGHT_BRACKET, SCANCODE_BACKSLASH, SCANCODE_NON_US_HASH, SCANCODE_SEMICOLON,
      SCANCODE_APOSTROPHE, SCANCODE_GRAVE, SCANCODE_COMMA, SCANCODE_PERIOD, SCANCODE_SLASH,
      SCANCODE_CAPSLOCK, SCANCODE_F1, SCANCODE_F2, SCANCODE_F3, SCANCODE_F4, SCANCODE_F5,
      SCANCODE_F6, SCANCODE_F7, SCANCODE_F8, SCANCODE_F9, SCANCODE_F10, SCANCODE_F11, SCANCODE_F12,
      SCANCODE_PRINT_SCREEN, SCANCODE_SCROLL_LOCK, SCANCODE_PAUSE, SCANCODE_INSERT, SCANCODE_HOME,
      SCANCODE_PAGE_UP, SCANCODE_DELETE, SCANCODE_END, SCANCODE_PAGE_DOWN, SCANCODE_RIGHT,
      SCANCODE_LEFT, SCANCODE_DOWN, SCANCODE_UP, SCANCODE_NUM_LOCK, SCANCODE_KP_DIVIDE,
      SCANCODE_KP_MULTIPLY, SCANCODE_KP_MINUS, SCANCODE_KP_PLUS, SCANCODE_KP_ENTER, SCANCODE_KP_1,
      SCANCODE_KP_2, SCANCODE_KP_3, SCANCODE_KP_4, SCANCODE_KP_5, SCANCODE_KP_6, SCANCODE_KP_7,
      SCANCODE_KP_8, SCANCODE_KP_9, SCANCODE_KP_0, SCANCODE_KP_PERIOD, SCANCODE_NON_US_BACKSLASH,
      SCANCODE_APPLICATION, SCANCODE_POWER, SCANCODE_KP_EQUALS, SCANCODE_F13, SCANCODE_F14,
      SCANCODE_F15, SCANCODE_F16, SCANCODE_F17, SCANCODE_F18, SCANCODE_F19, SCANCODE_F20,
      SCANCODE_F21, SCANCODE_F22, SCANCODE_F23, SCANCODE_F24, SCANCODE_EXECUTE, SCANCODE_HELP,
      SCANCODE_MENU, SCANCODE_SELECT, SCANCODE_STOP, SCANCODE_AGAIN, SCANCODE_UNDO, SCANCODE_CUT,
      SCANCODE_COPY, SCANCODE_PASTE, SCANCODE_FIND, SCANCODE_MUTE, SCANCODE_VOLUME_UP,
      SCANCODE_VOLUME_DOWN, SCANCODE_LOCKING_CAPSLOCK, SCANCODE_LOCKING_NUM_LOCK,
      SCANCODE_LOCKING_SCROLL_LOCK, SCANCODE_KP_COMMA, SCANCODE_KP_EQUALS_AS400,
      SCANCODE_INTERNATIONAL1, SCANCODE_INTERNATIONAL2, SCANCODE_INTERNATIONAL3,
      SCANCODE_INTERNATIONAL4, SCANCODE_INTERNATIONAL5, SCANCODE_INTERNATIONAL6,
      SCANCODE_INTERNATIONAL7, SCANCODE_INTERNATIONAL8, SCANCODE_INTERNATIONAL9, SCANCODE_LANG1,
      SCANCODE_LANG2, SCANCODE_LANG3, SCANCODE_LANG4, SCANCODE_LANG5, SCANCODE_LANG6,
      SCANCODE_LANG7, SCANCODE_LANG8, SCANCODE_LANG9, SCANCODE_ALT_ERASE, SCANCODE_SYS_REQ,
      SCANCODE_CANCEL, SCANCODE_CLEAR, SCANCODE_PRIOR, SCANCODE_RETURN2, SCANCODE_SEPARATOR,
      SCANCODE_OUT, SCANCODE_OPER, SCANCODE_CLEAR_AGAIN, SCANCODE_CR_SEL, SCANCODE_EX_SEL,
      SCANCODE_KP_00, SCANCODE_KP_000, SCANCODE_THOUSANDS_SEPARATOR, SCANCODE_DECIMAL_SEPARATOR,
      SCANCODE_CURRENCY_UNIT, SCANCODE_CURRENCY_SUB_UNIT, SCANCODE_KP_LEFT_PAREN,
      SCANCODE_KP_RIGHT_PAREN, SCANCODE_KP_LEFT_BRACE, SCANCODE_KP_RIGHT_BRACE, SCANCODE_KP_TAB,
      SCANCODE_KP_BACKSPACE, SCANCODE_KP_A, SCANCODE_KP_B, SCANCODE_KP_C, SCANCODE_KP_D,
      SCANCODE_KP_E, SCANCODE_KP_F, SCANCODE_KP_XOR, SCANCODE_KP_POWER, SCANCODE_KP_PERCENT,
      SCANCODE_KP_LESS, SCANCODE_KP_GREATER, SCANCODE_KP_AMPERSAND, SCANCODE_KP_DBL_AMPERSAND,
      SCANCODE_KP_VERTICAL_BAR, SCANCODE_KP_DBL_VERTICAL_BAR, SCANCODE_KP_COLON, SCANCODE_KP_HASH,
      SCANCODE_KP_SPACE, SCANCODE_KP_AT, SCANCODE_KP_EXCLAM, SCANCODE_KP_MEM_STORE,
      SCANCODE_KP_MEM_RECALL, SCANCODE_KP_MEM_CLEAR, SCANCODE_KP_MEM_ADD, SCANCODE_KP_MEM_SUBTRACT,
      SCANCODE_KP_MEM_MULTIPLY, SCANCODE_KP_MEM_DIVIDE, SCANCODE_KP_PLUS_MINUS, SCANCODE_KP_CLEAR,
      SCANCODE_KP_CLEAR_ENTRY, SCANCODE_KP_BINARY, SCANCODE_KP_OCTAL, SCANCODE_KP_DECIMAL,
      SCANCODE_KP_HEXADECIMAL, SCANCODE_LCTRL, SCANCODE_LSHIFT, SCANCODE_LALT, SCANCODE_LGUI,
      SCANCODE_RCTRL, SCANCODE_RSHIFT, SCANCODE_RALT, SCANCODE_RGUI, SCANCODE_AC_SEARCH,
      SCANCODE_AC_HOME, SCANCODE_AC_BACK, SCANCODE_AC_FORWARD, SCANCODE_AC_STOP,
      SCANCODE_AC_REFRESH, SCANCODE_AC_BOOKMARKS, SCANCODE_AUDIO_PLAY, SCANCODE_AUDIO_STOP,
      SCANCODE_AUDIO_MUTE, SCANCODE_AUDIO_PREV, SCANCODE_AUDIO_NEXT, SCANCODE_COMPUTER,
      SCANCODE_MAIL, SCANCODE_MEDIA_SELECT, SCANCODE_CALCULATOR, SCANCODE_UNKNOWN, SCANCODE_MAX]"

record key_event =
  code :: Scancode
  pressed :: bool

record mouse_event =
  x_movement :: int
  y_movement :: int
  z_movement :: int
  left_pressed :: bool
  right_pressed :: bool
  middle_pressed :: bool

datatype input_event = KeyEvent key_event | MouseEvent mouse_event

section \<open>The event queue\<close>

definition MAX_EVENTS :: nat where
  "MAX_EVENTS = 256"

record event_queue =
  events :: "input_event list"
  producer_ptr :: nat
  consumer_ptr :: nat
  produce_signals :: nat

definition eq_new :: event_queue where
  "eq_new = \<lparr>events = replicate MAX_EVENTS (KeyEvent \<lparr>code = 0, pressed = False\<rparr>),
     producer_ptr = 0, consumer_ptr = 0, produce_signals = 0\<rparr>"

definition eq_push :: "input_event \<Rightarrow> event_queue \<Rightarrow> event_queue" where
  "eq_push e q =
     (let nxt = (producer_ptr q + 1) mod MAX_EVENTS
      in if nxt = consumer_ptr q then q
         else q\<lparr>events := (events q)[producer_ptr q := e], producer_ptr := nxt,
                produce_signals := produce_signals q + 1\<rparr>)"

definition eq_consume :: "event_queue \<Rightarrow> input_event option \<times> event_queue" where
  "eq_consume q =
     (if consumer_ptr q = producer_ptr q then (None, q)
      else (Some (events q ! consumer_ptr q), q\<lparr>consumer_ptr := (consumer_ptr q + 1) mod MAX_EVENTS\<rparr>))"

definition eq_is_empty :: "event_queue \<Rightarrow> bool" where
  "eq_is_empty q \<longleftrightarrow> consumer_ptr q = producer_ptr q"

section \<open>The queue as a bounded list\<close>

definition eq_inv :: "event_queue \<Rightarrow> bool" where
  "eq_inv q \<longleftrightarrow> length (events q) = MAX_EVENTS \<and> producer_ptr q < MAX_EVENTS \<and> consumer_ptr q < MAX_EVENTS"

definition eq_count :: "event_queue \<Rightarrow> nat" where
  "eq_count q = (producer_ptr q + MAX_EVENTS - consumer_ptr q) mod MAX_EVENTS"

definition eq_elems :: "event_queue \<Rightarrow> input_event list" where
  "eq_elems q = ring_slice (events q) (consumer_ptr q) (eq_count q)"

lemma eq_new_inv [simp]: "eq_inv eq_new" "eq_elems eq_new = []"
  by (simp_all add: eq_inv_def eq_new_def MAX_EVENTS_def eq_elems_def eq_count_def)

lemma eq_count_cases:
  assumes "eq_inv q"
  shows "eq_count q = (if consumer_ptr q \<le> producer_ptr q then producer_ptr q - consumer_ptr q
      else producer_ptr q + 256 - consumer_ptr q)" (is "_ = ?n")
    and "producer_ptr q = (consumer_ptr q + eq_count q) mod 256" and "eq_count q < 256"
proof -
  have q: "producer_ptr q < 256" "consumer_ptr q < 256" using assms by (auto simp: eq_inv_def MAX_EVENTS_def)
  show n: "eq_count q = ?n" using q by (auto simp: eq_count_def MAX_EVENTS_def le_mod_geq)
  show "producer_ptr q = (consumer_ptr q + eq_count q) mod 256" "eq_count q < 256"
    unfolding n using q by (auto simp: le_mod_geq)
qed

lemma eq_count_wrap: "(producer_ptr q + 1) mod MAX_EVENTS = consumer_ptr q \<longleftrightarrow> eq_count q = 255" if "eq_inv q"
proof -
  have q: "producer_ptr q < 256" "consumer_ptr q < 256" using that by (auto simp: eq_inv_def MAX_EVENTS_def)
  show ?thesis unfolding eq_count_cases(1) [OF that] MAX_EVENTS_def using q
    by (cases "producer_ptr q = 255") auto
qed

lemma eq_push_law:
  assumes i: "eq_inv q"
  shows "eq_inv (eq_push e q) \<and> eq_elems (eq_push e q) = lpush 255 e (eq_elems q)"
proof (cases "eq_count q = 255")
  case True
  then show ?thesis using i eq_count_wrap [OF i] by (simp add: eq_push_def lpush_def eq_elems_def Let_def)
next
  case False
  let ?q = "eq_push e q"
  have l: "length (events q) = 256" using i by (simp add: eq_inv_def MAX_EVENTS_def)
  have n: "eq_count q < 255" using False eq_count_cases(3) [OF i] by linarith
  have p: "producer_ptr q = (consumer_ptr q + eq_count q) mod 256" by (rule eq_count_cases(2) [OF i])
  have q: "?q = q\<lparr>events := (events q)[producer_ptr q := e], producer_ptr := (producer_ptr q + 1) mod 256,
      produce_signals := produce_signals q + 1\<rparr>"
    using False eq_count_wrap [OF i] by (simp add: eq_push_def Let_def MAX_EVENTS_def)
  have iq: "eq_inv ?q" using i by (simp add: q eq_inv_def MAX_EVENTS_def)
  have "eq_count ?q = Suc (eq_count q)"
  proof -
    have "(consumer_ptr q + eq_count ?q) mod 256 = (consumer_ptr q + Suc (eq_count q)) mod 256"
      using eq_count_cases(2) [OF iq] p by (simp add: q mod_Suc_eq)
    then show ?thesis using ring_mod_inj [of "consumer_ptr q" "eq_count ?q" 256 "Suc (eq_count q)"]
        eq_count_cases(3) [OF iq] n by linarith
  qed
  then have "eq_elems ?q = eq_elems q @ [e]"
    using ring_slice_push [of "producer_ptr q" "consumer_ptr q" "eq_count q" "events q" e] p n l
    by (simp add: eq_elems_def q)
  then show ?thesis using iq n by (simp add: lpush_def eq_elems_def)
qed

lemma eq_consume_law:
  assumes i: "eq_inv q" and c: "eq_consume q = (r, q')"
  shows "eq_inv q' \<and> (r, eq_elems q') = lpop (eq_elems q)"
proof (cases "eq_count q")
  case 0
  then have "consumer_ptr q = producer_ptr q"
    using eq_count_cases(2) [OF i] i by (simp add: eq_inv_def MAX_EVENTS_def)
  then show ?thesis using c i 0 by (auto simp: eq_consume_def eq_elems_def)
next
  case (Suc n)
  have l: "length (events q) = 256" using i by (simp add: eq_inv_def MAX_EVENTS_def)
  have ne: "consumer_ptr q \<noteq> producer_ptr q" using Suc by (auto simp: eq_count_def MAX_EVENTS_def)
  then have q: "r = Some (events q ! consumer_ptr q)" "q' = q\<lparr>consumer_ptr := (consumer_ptr q + 1) mod 256\<rparr>"
    using c by (auto simp: eq_consume_def MAX_EVENTS_def)
  have iq: "eq_inv q'" using i by (simp add: q eq_inv_def MAX_EVENTS_def)
  have "eq_count q' = n"
  proof -
    have "(consumer_ptr q + 1 + eq_count q') mod 256 = (consumer_ptr q + 1 + n) mod 256"
      using eq_count_cases(2) [OF iq] eq_count_cases(2) [OF i] Suc by (simp add: q mod_add_left_eq mod_Suc_eq)
    then show ?thesis using ring_mod_inj [of "consumer_ptr q + 1" "eq_count q'" 256 n]
        eq_count_cases(3) [OF iq] eq_count_cases(3) [OF i] Suc by linarith
  qed
  then have "eq_elems q' = ring_slice (events q) (Suc (consumer_ptr q)) n"
    using ring_slice_mod [of "events q" "Suc (consumer_ptr q)" n] l by (simp add: eq_elems_def q)
  then show ?thesis using iq Suc i l by (simp add: eq_elems_def ring_slice_Suc q eq_inv_def MAX_EVENTS_def)
qed

interpretation eq: bounded_fifo eq_inv eq_elems 255 eq_push eq_consume
  by unfold_locales (use eq_push_law eq_consume_law in blast)+

text \<open>C14 The event queue is a first-in first-out queue of at most 255 events: every sequence of
  pushes and consumes, from the start of the system on, returns what it returns on a list that drops
  a pushed event only when it holds 255 already.\<close>

theorem event_queue_fifo:
  "fst (qrun eq_push eq_consume cs eq_new) = fst (qrun (lpush 255) lpop cs []) \<and>
   eq_elems (snd (qrun eq_push eq_consume cs eq_new)) = snd (qrun (lpush 255) lpop cs []) \<and>
   eq_is_empty (snd (qrun eq_push eq_consume cs eq_new)) = (snd (qrun (lpush 255) lpop cs []) = [])"
proof -
  let ?q = "snd (qrun eq_push eq_consume cs eq_new)"
  have r: "eq_inv ?q" "(fst (qrun eq_push eq_consume cs eq_new), eq_elems ?q) = qrun (lpush 255) lpop cs []"
    using eq.run_simulates [of eq_new cs] by auto
  have "eq_is_empty ?q \<longleftrightarrow> eq_elems ?q = []"
    using eq_consume_law [OF r(1), of "fst (eq_consume ?q)" "snd (eq_consume ?q)"]
    by (cases "eq_elems ?q") (auto simp: eq_is_empty_def eq_consume_def split: if_splits)
  then show ?thesis using r(2) by (metis fst_conv snd_conv)
qed

end
