(* ===== verification/Ps2.thy ===== *)
theory Ps2
  imports Input_Events
begin

text \<open>
  The PS/2 keyboard and mouse drivers, \<open>src/src/arch/x86/dev/ps2_keyboard.cpp\<close> and
  \<open>ps2_mouse.cpp\<close>: the state machines that decode the byte streams of the devices into events
  of the global queue, and the probing of the devices. The command interface of the port,
  \<open>Ps2Port::send_cmd\<close>, which talks to the controller, is a parameter: from a command byte
  and the parameter array it returns success and the array afterwards.
\<close>

section \<open>Keyboard tables\<close>

definition one_byte_table :: "(u8 \<times> Scancode) list" where
  "one_byte_table =
     [(0x1, SCANCODE_F9), (0x3, SCANCODE_F5), (0x4, SCANCODE_F3), (0x5, SCANCODE_F1), (0x6, SCANCODE_F2), (0x7, SCANCODE_F12),
      (0x9, SCANCODE_F10), (0xA, SCANCODE_F8), (0xB, SCANCODE_F6), (0xC, SCANCODE_F4), (0xD, SCANCODE_TAB),
      (0xE, SCANCODE_GRAVE), (0x11, SCANCODE_LALT), (0x12, SCANCODE_LSHIFT), (0x14, SCANCODE_LCTRL), (0x15, SCANCODE_Q),
      (0x16, SCANCODE_1), (0x1A, SCANCODE_Z), (0x1B, SCANCODE_S), (0x1C, SCANCODE_A), (0x1D, SCANCODE_W), (0x1E, SCANCODE_2),
      (0x21, SCANCODE_C), (0x22, SCANCODE_X), (0x23, SCANCODE_D), (0x24, SCANCODE_E), (0x25, SCANCODE_4), (0x26, SCANCODE_3),
      (0x29, SCANCODE_SPACE), (0x2A, SCANCODE_V), (0x2B, SCANCODE_F), (0x2C, SCANCODE_T), (0x2D, SCANCODE_R), (0x2E, SCANCODE_5),
      (0x31, SCANCODE_N), (0x32, SCANCODE_B), (0x33, SCANCODE_H), (0x34, SCANCODE_G), (0x35, SCANCODE_Y), (0x36, SCANCODE_6),
      (0x3A, SCANCODE_M), (0x3B, SCANCODE_J), (0x3C, SCANCODE_U), (0x3D, SCANCODE_7), (0x3E, SCANCODE_8), (0x41, SCANCODE_COMMA),
      (0x42, SCANCODE_K), (0x43, SCANCODE_I), (0x44, SCANCODE_O), (0x45, SCANCODE_0), (0x46, SCANCODE_9),
      (0x49, SCANCODE_PERIOD), (0x4A, SCANCODE_SLASH), (0x4B, SCANCODE_L), (0x4C, SCANCODE_SEMICOLON), (0x4D, SCANCODE_P),
      (0x4E, SCANCODE_MINUS), (0x52, SCANCODE_APOSTROPHE), (0x54, SCANCODE_LEFT_BRACKET), (0x55, SCANCODE_EQUALS),
      (0x58, SCANCODE_CAPSLOCK), (0x59, SCANCODE_RSHIFT), (0x5A, SCANCODE_RETURN), (0x5B, SCANCODE_RIGHT_BRACKET),
      (0x5D, SCANCODE_BACKSLASH), (0x66, SCANCODE_BACKSPACE), (0x69, SCANCODE_KP_1), (0x6C, SCANCODE_KP_7),
      (0x70, SCANCODE_KP_0), (0x71, SCANCODE_KP_PERIOD), (0x72, SCANCODE_KP_2), (0x73, SCANCODE_KP_5),
      (0x74, SCANCODE_KP_6), (0x75, SCANCODE_KP_8), (0x76, SCANCODE_ESCAPE), (0x77, SCANCODE_NUM_LOCK),
      (0x78, SCANCODE_F11), (0x79, SCANCODE_KP_PLUS), (0x7A, SCANCODE_KP_3), (0x7B, SCANCODE_KP_MINUS),
      (0x7C, SCANCODE_KP_MULTIPLY), (0x7D, SCANCODE_KP_9), (0x7E, SCANCODE_SCROLL_LOCK), (0x83, SCANCODE_F7)]"

definition ps2_one_byte :: "u8 \<Rightarrow> Scancode" where
  "ps2_one_byte byte = (case map_of one_byte_table byte of Some c \<Rightarrow> c | None \<Rightarrow> SCANCODE_UNKNOWN)"

definition e0_table :: "(u8 \<times> Scancode) list" where
  "e0_table =
     [(0x10, SCANCODE_AC_SEARCH), (0x11, SCANCODE_RALT), (0x14, SCANCODE_RCTRL), (0x15, SCANCODE_AUDIO_PREV),
      (0x18, SCANCODE_AC_BOOKMARKS), (0x1F, SCANCODE_LGUI), (0x20, SCANCODE_AC_REFRESH), (0x21, SCANCODE_VOLUME_DOWN),
      (0x23, SCANCODE_AUDIO_MUTE), (0x27, SCANCODE_RGUI), (0x28, SCANCODE_AC_STOP), (0x2B, SCANCODE_CALCULATOR),
      (0x2F, SCANCODE_APPLICATION), (0x30, SCANCODE_AC_FORWARD), (0x32, SCANCODE_VOLUME_UP),
      (0x34, SCANCODE_AUDIO_PLAY), (0x38, SCANCODE_AC_BACK), (0x3A, SCANCODE_AC_HOME), (0x3B, SCANCODE_AUDIO_STOP),
      (0x40, SCANCODE_COMPUTER), (0x48, SCANCODE_MAIL), (0x4A, SCANCODE_KP_DIVIDE), (0x4D, SCANCODE_AUDIO_NEXT),
      (0x50, SCANCODE_MEDIA_SELECT), (0x5A, SCANCODE_KP_ENTER), (0x69, SCANCODE_END), (0x6B, SCANCODE_LEFT),
      (0x6C, SCANCODE_HOME), (0x70, SCANCODE_INSERT), (0x71, SCANCODE_DELETE), (0x72, SCANCODE_DOWN),
      (0x74, SCANCODE_RIGHT), (0x75, SCANCODE_UP), (0x7A, SCANCODE_PAGE_DOWN), (0x7D, SCANCODE_PAGE_UP)]"

definition ps2_e0 :: "u8 \<Rightarrow> Scancode" where
  "ps2_e0 byte = (case map_of e0_table byte of Some c \<Rightarrow> c | None \<Rightarrow> SCANCODE_UNKNOWN)"

definition ps2_is_kb_id :: "u8 \<Rightarrow> bool" where
  "ps2_is_kb_id i \<longleftrightarrow> i = 0x2B \<or> i = 0x47 \<or> i = 0x5D \<or> i = 0x60 \<or> i = 0xAB \<or> i = 0xAC"

section \<open>Keyboard\<close>

datatype kb_state = KbNone | E0 | E1 | E1_14

record keyboard =
  kb_state :: kb_state
  kb_pressed :: bool
  kb_scanning :: bool

definition keyboard_new :: keyboard where
  "keyboard_new = \<lparr>kb_state = KbNone, kb_pressed = True, kb_scanning = False\<rparr>"

text \<open>One byte from the keyboard: the new state and the event that goes to the queue.\<close>

definition kb_decode :: "u8 \<Rightarrow> keyboard \<Rightarrow> keyboard \<times> input_event option" where
  "kb_decode byte kb =
     (let push = (\<lambda>code kb. (kb\<lparr>kb_pressed := True\<rparr>, Some (KeyEvent \<lparr>code = code, pressed = kb_pressed kb\<rparr>)))
      in if \<not> kb_scanning kb then (kb, None)
         else if byte = 0xE0 then (kb\<lparr>kb_state := E0\<rparr>, None)
         else if byte = 0xE1 then (kb\<lparr>kb_state := E1\<rparr>, None)
         else if byte = 0xF0 then (kb\<lparr>kb_pressed := False\<rparr>, None)
         else case kb_state kb of
           KbNone \<Rightarrow> push (ps2_one_byte byte) kb
         | E0 \<Rightarrow> push (ps2_e0 byte) (kb\<lparr>kb_state := KbNone\<rparr>)
         | E1 \<Rightarrow> if byte = 0x14 then (kb\<lparr>kb_state := E1_14\<rparr>, None)
                 else (kb\<lparr>kb_state := KbNone, kb_pressed := True\<rparr>, None)
         | E1_14 \<Rightarrow> if byte = 0x77 then push (SCANCODE_PAUSE) (kb\<lparr>kb_state := KbNone\<rparr>)
                    else (kb\<lparr>kb_state := KbNone, kb_pressed := True\<rparr>, None))"

definition enqueue :: "input_event option \<Rightarrow> event_queue \<Rightarrow> event_queue" where
  "enqueue e q = (case e of None \<Rightarrow> q | Some e \<Rightarrow> eq_push e q)"

definition kb_on_receive :: "u8 \<Rightarrow> keyboard \<times> event_queue \<Rightarrow> keyboard \<times> event_queue" where
  "kb_on_receive byte s = (let (kb, e) = kb_decode byte (fst s) in (kb, enqueue e (snd s)))"

section \<open>Probing\<close>

datatype ps2_cmd = SET_LEDS_EX | SET_LEDS | GET_ID | ENABLE_SCANNING | DISABLE_SCANNING | SET_DEFAULTS
  | SET_REP | RESET | SAMPLE_RATE

type_synonym 'p send_cmd = "ps2_cmd \<Rightarrow> u8 list \<Rightarrow> 'p \<Rightarrow> bool \<times> u8 list \<times> 'p"

definition cmd_byte :: "ps2_cmd \<Rightarrow> u8" where
  "cmd_byte c = (case c of SET_LEDS_EX \<Rightarrow> 0xEB | SET_LEDS \<Rightarrow> 0xED | GET_ID \<Rightarrow> 0xF2
     | ENABLE_SCANNING \<Rightarrow> 0xF4 | DISABLE_SCANNING \<Rightarrow> 0xF5 | SET_DEFAULTS \<Rightarrow> 0xF6 | SET_REP \<Rightarrow> 0xF3
     | RESET \<Rightarrow> 0xFF | SAMPLE_RATE \<Rightarrow> 0xF3)"

definition cmd_params :: "ps2_cmd \<Rightarrow> nat" where
  "cmd_params c = (case c of SET_LEDS_EX \<Rightarrow> 2 | SET_LEDS \<Rightarrow> 1 | SET_REP \<Rightarrow> 1 | SAMPLE_RATE \<Rightarrow> 1 | _ \<Rightarrow> 0)"

definition cmd_ret :: "ps2_cmd \<Rightarrow> nat" where
  "cmd_ret c = (case c of GET_ID \<Rightarrow> 2 | RESET \<Rightarrow> 2 | _ \<Rightarrow> 0)"

definition kb_probe :: "'p send_cmd \<Rightarrow> 'p \<Rightarrow> bool \<times> 'p" where
  "kb_probe send_cmd p =
     (let (ok, param, p) = send_cmd GET_ID [0xA5, 0] p
      in if \<not> ok
         then let param = param[0 := 0]; (ok, _, p) = send_cmd SET_LEDS param p in (ok, p)
         else if \<not> ps2_is_kb_id (param ! 0) then (False, p)
         else let (_, _, p) = send_cmd DISABLE_SCANNING [] p in (True, p))"

text \<open>The device of the port is the keyboard while it is probed, and stays it only when the
  probe succeeds.\<close>

definition ps2_keyboard_init :: "'p send_cmd \<Rightarrow> 'p \<Rightarrow> keyboard option \<times> 'p" where
  "ps2_keyboard_init send_cmd p =
     (let kb = keyboard_new;
          (ok, p) = kb_probe send_cmd p
      in if \<not> ok then (None, p)
         else let (_, param, p) = send_cmd SET_LEDS [0] p;
                  (_, _, p) = send_cmd SET_REP param p;
                  kb = kb\<lparr>kb_scanning := True\<rparr>;
                  (_, _, p) = send_cmd ENABLE_SCANNING [] p
              in (Some kb, p))"

definition kb_resume :: "'p send_cmd \<Rightarrow> keyboard \<Rightarrow> 'p \<Rightarrow> keyboard option \<times> 'p" where
  "kb_resume send_cmd kb p =
     (let (ok, p) = kb_probe send_cmd p
      in if \<not> ok then (None, p)
         else let kb = kb\<lparr>kb_scanning := False\<rparr>;
                  (_, param, p) = send_cmd SET_LEDS [0] p;
                  (_, _, p) = send_cmd SET_REP param p;
                  kb = kb\<lparr>kb_scanning := True\<rparr>;
                  (_, _, p) = send_cmd ENABLE_SCANNING [] p
              in (Some kb, p))"

section \<open>Mouse\<close>

datatype packet_type = Generic | ZAxis

datatype ms_state = MsFlags | MsX | MsY | MsZ

record mouse =
  ms_packet_type :: packet_type
  ms_state :: ms_state
  ms_flags :: u8
  ms_x :: u8
  ms_y :: u8
  ms_z :: u8
  ms_scanning :: bool

definition mouse_new :: mouse where
  "mouse_new = \<lparr>ms_packet_type = Generic, ms_state = MsFlags, ms_flags = 0, ms_x = 0, ms_y = 0, ms_z = 0,
     ms_scanning = False\<rparr>"

text \<open>The movements are computed in \<open>int\<close> and fit the 16-bit variables they are stored in.\<close>

definition ms_add_event :: "mouse \<Rightarrow> input_event" where
  "ms_add_event m =
     (let negative_x = bit (ms_flags m) 4;
          negative_y = bit (ms_flags m) 5
      in MouseEvent
        \<lparr>x_movement = (if negative_x then uint (ms_x m) - 0x100 else uint (ms_x m)),
         y_movement = (if negative_y then uint (ms_y m) - 0x100 else uint (ms_y m)),
         z_movement = (case ms_packet_type m of Generic \<Rightarrow> 0 | ZAxis \<Rightarrow> sint (ms_z m)),
         left_pressed = bit (ms_flags m) 0,
         right_pressed = bit (ms_flags m) 1,
         middle_pressed = bit (ms_flags m) 2\<rparr>)"

definition ms_decode :: "u8 \<Rightarrow> mouse \<Rightarrow> mouse \<times> input_event option" where
  "ms_decode byte m =
     (if \<not> ms_scanning m then (m, None)
      else case ms_state m of
        MsFlags \<Rightarrow> (m\<lparr>ms_flags := byte, ms_state := MsX\<rparr>, None)
      | MsX \<Rightarrow> (m\<lparr>ms_x := byte, ms_state := MsY\<rparr>, None)
      | MsY \<Rightarrow> let m = m\<lparr>ms_y := byte\<rparr>
               in if ms_packet_type m = Generic
                  then let m = m\<lparr>ms_state := MsFlags\<rparr> in (m, Some (ms_add_event m))
                  else (m\<lparr>ms_state := MsZ\<rparr>, None)
      | MsZ \<Rightarrow> let m = m\<lparr>ms_z := byte, ms_state := MsFlags\<rparr> in (m, Some (ms_add_event m)))"

definition ms_on_receive :: "u8 \<Rightarrow> mouse \<times> event_queue \<Rightarrow> mouse \<times> event_queue" where
  "ms_on_receive byte s = (let (m, e) = ms_decode byte (fst s) in (m, enqueue e (snd s)))"

definition ms_probe :: "'p send_cmd \<Rightarrow> 'p \<Rightarrow> bool \<times> 'p" where
  "ms_probe send_cmd p =
     (let (ok, param, p) = send_cmd GET_ID [0xA5, 0] p
      in if \<not> ok then (False, p)
         else if param ! 0 \<noteq> 0 \<and> param ! 0 \<noteq> 3 \<and> param ! 0 \<noteq> 4 \<and> param ! 0 \<noteq> 0xFF then (False, p)
         else let (_, _, p) = send_cmd SET_DEFAULTS [] p in (True, p))"

text \<open>The sample rates 200, 100 and 80 in a row switch a mouse with a wheel to identity 3.\<close>

definition ms_enable :: "'p send_cmd \<Rightarrow> mouse \<Rightarrow> 'p \<Rightarrow> mouse \<times> 'p" where
  "ms_enable send_cmd m p =
     (let (_, param, p) = send_cmd SAMPLE_RATE [200, 0] p;
          (_, param, p) = send_cmd SAMPLE_RATE (param[0 := 100]) p;
          (_, param, p) = send_cmd SAMPLE_RATE (param[0 := 80]) p;
          (_, param, p) = send_cmd GET_ID param p;
          has_z_axis = param ! 0 = 3;
          m = m\<lparr>ms_packet_type := (if has_z_axis then ZAxis else Generic)\<rparr>;
          (_, _, p) = send_cmd SAMPLE_RATE (param[0 := 200]) p;
          m = m\<lparr>ms_scanning := True\<rparr>;
          (_, _, p) = send_cmd ENABLE_SCANNING [] p
      in (m, p))"

definition ps2_mouse_init :: "'p send_cmd \<Rightarrow> 'p \<Rightarrow> mouse option \<times> 'p" where
  "ps2_mouse_init send_cmd p =
     (let (ok, p) = ms_probe send_cmd p
      in if \<not> ok then (None, p)
         else let (m, p) = ms_enable send_cmd mouse_new p in (Some m, p))"

definition ms_resume :: "'p send_cmd \<Rightarrow> mouse \<Rightarrow> 'p \<Rightarrow> mouse option \<times> 'p" where
  "ms_resume send_cmd m p =
     (let (ok, p) = ms_probe send_cmd p
      in if \<not> ok then (None, p)
         else let (m, p) = ms_enable send_cmd (m\<lparr>ms_scanning := False\<rparr>) p in (Some m, p))"

section \<open>Decoding streams of bytes\<close>

fun decode_run :: "(u8 \<Rightarrow> 'd \<Rightarrow> 'd \<times> input_event option) \<Rightarrow> u8 list \<Rightarrow> 'd \<Rightarrow> 'd \<times> input_event list" where
  "decode_run dec [] d = (d, [])"
| "decode_run dec (b # bs) d =
     (let (d, e) = dec b d; (d, es) = decode_run dec bs d in (d, (case e of None \<Rightarrow> es | Some e \<Rightarrow> e # es)))"

lemma decode_run_append:
  "decode_run dec (as @ bs) d =
     (let (d, es) = decode_run dec as d; (d, fs) = decode_run dec bs d in (d, es @ fs))"
  by (induction as arbitrary: d) (auto split: prod.splits option.splits)

lemma decode_run_queue:
  assumes "\<And>b s. recv b s = (let (d, e) = dec b (fst s) in (d, enqueue e (snd s)))"
  shows "fold recv bs (d, q) = (fst (decode_run dec bs d), fold eq_push (snd (decode_run dec bs d)) q)"
  by (induction bs arbitrary: d q) (auto simp: assms enqueue_def split: prod.splits option.splits)

lemma decode_run_concat:
  assumes "\<And>x. x \<in> set xs \<Longrightarrow> decode_run dec (enc x) d = (d, [ev x])"
  shows "decode_run dec (concat (map enc xs)) d = (d, map ev xs)"
  using assms by (induction xs) (auto simp: decode_run_append)

text \<open>A key of scan code set 2: one byte, a byte behind the prefix E0, or the pause key.\<close>

datatype kb_key = Plain u8 | Ext u8 | PauseKey

fun kb_encode :: "kb_key \<times> bool \<Rightarrow> u8 list" where
  "kb_encode (Plain b, True) = [b]"
| "kb_encode (Plain b, False) = [0xF0, b]"
| "kb_encode (Ext b, True) = [0xE0, b]"
| "kb_encode (Ext b, False) = [0xE0, 0xF0, b]"
| "kb_encode (PauseKey, True) = [0xE1, 0x14, 0x77]"
| "kb_encode (PauseKey, False) = [0xE1, 0xF0, 0x14, 0xF0, 0x77]"

fun kb_event :: "kb_key \<times> bool \<Rightarrow> input_event" where
  "kb_event (Plain b, p) = KeyEvent \<lparr>code = ps2_one_byte b, pressed = p\<rparr>"
| "kb_event (Ext b, p) = KeyEvent \<lparr>code = ps2_e0 b, pressed = p\<rparr>"
| "kb_event (PauseKey, p) = KeyEvent \<lparr>code = SCANCODE_PAUSE, pressed = p\<rparr>"

fun kb_key_ok :: "kb_key \<Rightarrow> bool" where
  "kb_key_ok (Plain b) = (b \<notin> {0xE0, 0xE1, 0xF0})"
| "kb_key_ok (Ext b) = (b \<notin> {0xE0, 0xE1, 0xF0})"
| "kb_key_ok PauseKey = True"

definition kb_ready :: keyboard where
  "kb_ready = \<lparr>kb_state = KbNone, kb_pressed = True, kb_scanning = True\<rparr>"

lemma kb_decode_key: "kb_key_ok (fst k) \<Longrightarrow> decode_run kb_decode (kb_encode k) kb_ready = (kb_ready, [kb_event k])"
  by (cases k rule: kb_encode.cases) (auto simp: kb_decode_def kb_ready_def Let_def)

text \<open>C15 The keyboard driver turns the bytes of any sequence of key presses and releases, the
  three and five byte sequences of the pause key included, into exactly the events of those keys, in
  order, and is then ready again; the queue holds the first 255 of them.\<close>

theorem keyboard_decodes_keys:
  assumes "\<forall>k \<in> set ks. kb_key_ok (fst k)"
  shows "decode_run kb_decode (concat (map kb_encode ks)) kb_ready = (kb_ready, map kb_event ks) \<and>
    eq_elems (snd (fold kb_on_receive (concat (map kb_encode ks)) (kb_ready, eq_new))) = take 255 (map kb_event ks)"
proof -
  have d: "decode_run kb_decode (concat (map kb_encode ks)) kb_ready = (kb_ready, map kb_event ks)"
    using assms by (intro decode_run_concat kb_decode_key) auto
  then show ?thesis
    using decode_run_queue [of kb_on_receive kb_decode "concat (map kb_encode ks)" kb_ready eq_new]
      eq.pushes [of eq_new "map kb_event ks"] lpush_fold_take [of "[]" 255 "map kb_event ks"]
    by (simp add: kb_on_receive_def)
qed

theorem keyboard_decodes_keys_witness:
  "let ks = [(Plain 0x1C, True), (Ext 0x75, True), (PauseKey, True), (Plain 0x1C, False), (PauseKey, False)]
   in (\<forall>k \<in> set ks. kb_key_ok (fst k)) \<and>
      snd (decode_run kb_decode [0x1C, 0xE0, 0x75, 0xE1, 0x14, 0x77, 0xF0, 0x1C, 0xE1, 0xF0, 0x14, 0xF0, 0x77] kb_ready) =
        map kb_event ks"
  using keyboard_decodes_keys [of "[(Plain 0x1C, True), (Ext 0x75, True), (PauseKey, True), (Plain 0x1C, False), (PauseKey, False)]"]
  by (simp add: Let_def)

definition kb_codes :: "Scancode set" where
  "kb_codes = insert SCANCODE_UNKNOWN (snd ` set one_byte_table \<union> snd ` set e0_table)"

lemma ps2_codes: "ps2_one_byte b \<in> kb_codes" "ps2_e0 b \<in> kb_codes"
  by (auto simp: ps2_one_byte_def ps2_e0_def kb_codes_def split: option.split dest!: map_of_SomeD
      intro: rev_image_eqI)

text \<open>C16 No byte that the keyboard can send is decoded to the scan code of the keypad key 4, in
  either table: the entry is missing.\<close>

theorem keypad_4_never_decoded: "ps2_one_byte b \<noteq> SCANCODE_KP_4 \<and> ps2_e0 b \<noteq> SCANCODE_KP_4"
proof -
  have "SCANCODE_KP_4 \<notin> kb_codes" by (simp add: kb_codes_def one_byte_table_def e0_table_def)
  then show ?thesis using ps2_codes [of b] by metis
qed

text \<open>A mouse packet for a movement and a button state.\<close>

definition ms_encode :: "packet_type \<Rightarrow> mouse_event \<Rightarrow> u8 list" where
  "ms_encode pt e =
     [8 OR (if left_pressed e then 1 else 0) OR (if right_pressed e then 2 else 0) OR
        (if middle_pressed e then 4 else 0) OR (if x_movement e < 0 then 16 else 0) OR
        (if y_movement e < 0 then 32 else 0),
      of_int (x_movement e), of_int (y_movement e)] @
     (case pt of Generic \<Rightarrow> [] | ZAxis \<Rightarrow> [of_int (z_movement e)])"

definition ms_event_ok :: "packet_type \<Rightarrow> mouse_event \<Rightarrow> bool" where
  "ms_event_ok pt e \<longleftrightarrow> x_movement e \<in> {-256 .. 255} \<and> y_movement e \<in> {-256 .. 255} \<and>
     (case pt of Generic \<Rightarrow> z_movement e = 0 | ZAxis \<Rightarrow> z_movement e \<in> {-128 .. 127})"

end
