(* ===== verification/Hid.thy ===== *)
theory Hid
  imports Input_Events "HOL-Library.Monad_Syntax" "HOL-Library.Code_Target_Nat"
begin

text \<open>
  The driver for USB keyboards and mice, \<open>src/src/dev/usb/dev/hid.cpp\<close>: the parser of report
  descriptors, the extraction of fields from reports, and the events made from them.

  A failed assertion, a read outside of a buffer, a write outside of the array of key events and a
  shift by a negative amount are the result \<open>None\<close>. Signed values of 32 bits are words read by \<open>sint\<close>.
\<close>

section \<open>Report descriptors\<close>

definition ITEM_SIZES :: "nat list" where
  "ITEM_SIZES = [0, 1, 2, 4]"

definition sign_extent :: "u32 \<Rightarrow> nat \<Rightarrow> u32 option" where
  "sign_extent value' bits = (if bits = 0 then None else let m = push_bit (bits - 1) 1 in Some ((value' XOR m) - m))"

record hfield =
  f_usage :: u32
  f_bit_size :: u32
  f_min :: u32
  f_max :: u32
  f_signed :: bool
  f_index :: bool
  f_relative :: bool
  f_pad :: bool

record hreport =
  rep_id :: "u32 option"
  rep_fields :: "hfield list"

record hglobal =
  usage_page :: u32
  logical_min :: u32
  logical_min_signed :: u32
  logical_max :: u32
  logical_max_signed :: u32
  unit_exponent :: u32
  hunit :: u32
  report_size :: u32
  report_count :: u32

record hlocal =
  usages :: "u32 list"
  usage_min :: "u32 option"
  usage_max :: "u32 option"

record hparser =
  global_stack :: "hglobal list"
  hglob :: hglobal
  hloc :: hlocal
  reports :: "hreport list"
  hresult :: hreport

definition hlocal_new :: hlocal where
  "hlocal_new = \<lparr>usages = [], usage_min = None, usage_max = None\<rparr>"

definition hparser_new :: hparser where
  "hparser_new = \<lparr>global_stack = [],
     hglob = \<lparr>usage_page = 0, logical_min = 0, logical_min_signed = 0, logical_max = 0, logical_max_signed = 0,
             unit_exponent = 0, hunit = 0, report_size = 0, report_count = 0\<rparr>,
     hloc = hlocal_new, reports = [], hresult = \<lparr>rep_id = None, rep_fields = []\<rparr>\<rparr>"

fun read_le :: "u8 list \<Rightarrow> nat \<Rightarrow> nat \<Rightarrow> u32 option" where
  "read_le buf i 0 = Some 0"
| "read_le buf i (Suc n) =
     (if i < length buf then do { rest \<leftarrow> read_le buf (i + 1) n; Some (ucast (buf ! i) OR push_bit 8 rest) } else None)"

text \<open>The usage of field \<open>j\<close> of an input item, and whether it has none.\<close>

definition field_usage :: "nat \<Rightarrow> hlocal \<Rightarrow> (u32 \<times> bool \<times> hlocal) option" where
  "field_usage j l =
     (if usages l \<noteq> []
      then Some (hd (usages l), False, if length (usages l) > 1 then l\<lparr>usages := tl (usages l)\<rparr> else l)
      else if usage_min l \<noteq> None \<or> usage_max l \<noteq> None
      then do { a \<leftarrow> usage_min l; b \<leftarrow> usage_max l;
                let diff = b - a in Some (if of_nat j < diff then a + of_nat j else b, False, l) }
      else Some (0, True, l))"

fun input_fields :: "u32 \<Rightarrow> nat list \<Rightarrow> hparser \<Rightarrow> hparser option" where
  "input_fields data [] p = Some p"
| "input_fields data (j # js) p =
     do { (usage, no_usage, l) \<leftarrow> field_usage j (hloc p);
          let g = hglob p;
              f = \<lparr>f_usage = usage, f_bit_size = report_size g, f_min = logical_min g, f_max = logical_max g,
                   f_signed = (sint (logical_min_signed g) < 0 \<or> sint (logical_max_signed g) < 0),
                   f_index = (\<not> bit data 1), f_relative = bit data 2, f_pad = no_usage\<rparr>
          in input_fields data js (p\<lparr>hloc := l, hresult := (hresult p)\<lparr>rep_fields := rep_fields (hresult p) @ [f]\<rparr>\<rparr>) }"

definition main_item :: "nat \<Rightarrow> u32 \<Rightarrow> hparser \<Rightarrow> hparser option" where
  "main_item tag data p =
     do { p \<leftarrow> (if tag = 8 then input_fields data [0 ..< unat (report_count (hglob p))] p else Some p);
          Some (p\<lparr>hloc := hlocal_new\<rparr>) }"

definition global_item :: "nat \<Rightarrow> nat \<Rightarrow> u32 \<Rightarrow> hparser \<Rightarrow> hparser option" where
  "global_item tag size' data p =
     (let g = hglob p in
      if tag = 0 then Some (p\<lparr>hglob := g\<lparr>usage_page := data\<rparr>\<rparr>)
      else if tag = 1 then do { v \<leftarrow> sign_extent data (size' * 8); Some (p\<lparr>hglob := g\<lparr>logical_min := data, logical_min_signed := v\<rparr>\<rparr>) }
      else if tag = 2 then do { v \<leftarrow> sign_extent data (size' * 8); Some (p\<lparr>hglob := g\<lparr>logical_max := data, logical_max_signed := v\<rparr>\<rparr>) }
      else if tag = 5 then Some (p\<lparr>hglob := g\<lparr>unit_exponent := data\<rparr>\<rparr>)
      else if tag = 6 then Some (p\<lparr>hglob := g\<lparr>hunit := data\<rparr>\<rparr>)
      else if tag = 7 then Some (p\<lparr>hglob := g\<lparr>report_size := data\<rparr>\<rparr>)
      else if tag = 8 then
        (let r = (hresult p)\<lparr>rep_id := Some data\<rparr>
         in Some (if rep_fields r \<noteq> [] then p\<lparr>reports := reports p @ [r], hresult := \<lparr>rep_id = None, rep_fields = []\<rparr>\<rparr> else p\<lparr>hresult := r\<rparr>))
      else if tag = 9 then Some (p\<lparr>hglob := g\<lparr>report_count := data\<rparr>\<rparr>)
      else if tag = 10 then Some (p\<lparr>global_stack := g # global_stack p\<rparr>)
      else if tag = 11 then (case global_stack p of [] \<Rightarrow> None | g # gs \<Rightarrow> Some (p\<lparr>hglob := g, global_stack := gs\<rparr>))
      else Some p)"

definition local_item :: "nat \<Rightarrow> nat \<Rightarrow> u32 \<Rightarrow> hparser \<Rightarrow> hparser" where
  "local_item tag size' data p =
     (let l = hloc p; u = (if size' = 4 then data else data OR push_bit 16 (usage_page (hglob p))) in
      if tag = 0 then p\<lparr>hloc := l\<lparr>usages := usages l @ [u]\<rparr>\<rparr>
      else if tag = 1 then p\<lparr>hloc := l\<lparr>usage_min := Some u\<rparr>\<rparr>
      else if tag = 2 then p\<lparr>hloc := l\<lparr>usage_max := Some u\<rparr>\<rparr>
      else p)"

text \<open>One round of the loop: the number of bytes behind the first byte of the item, and the new state.\<close>

definition hid_item :: "u8 list \<Rightarrow> nat \<Rightarrow> hparser \<Rightarrow> (nat \<times> hparser) option" where
  "hid_item buf i p =
     (if i < length buf
      then let first = unat (buf ! i); size' = ITEM_SIZES ! (first mod 4); type = first div 4 mod 4; tag = first div 16
           in if size' = 2 \<and> type = 3 \<and> tag = 15
              then do { actual_size \<leftarrow> read_le buf (i + 1) 2; actual_tag \<leftarrow> read_le buf (i + 3) 2; Some (4 + unat actual_size, p) }
              else do { data \<leftarrow> read_le buf (i + 1) size';
                        p \<leftarrow> (if type = 0 then main_item tag data p
                              else if type = 1 then global_item tag size' data p
                              else if type = 2 then Some (local_item tag size' data p)
                              else Some p);
                        Some (size', p) }
      else None)"

function parse_items :: "u8 list \<Rightarrow> nat \<Rightarrow> nat \<Rightarrow> hparser \<Rightarrow> hparser option" where
  "parse_items buf report_length i p =
     (if i < report_length
      then case hid_item buf i p of None \<Rightarrow> None | Some (n, p) \<Rightarrow> parse_items buf report_length (i + 1 + n) p
      else Some p)"
  by pat_completeness auto
termination
  by (relation "measure (\<lambda>(_, report_length, i, _). report_length - i)") auto

definition parse_hid_report :: "u8 list \<Rightarrow> nat \<Rightarrow> hreport list option" where
  "parse_hid_report buf report_length =
     map_option (\<lambda>p. reports p @ [hresult p]) (parse_items buf report_length 0 hparser_new)"

section \<open>Events\<close>

record hid_state =
  hs_mouse :: mouse_event
  hs_key :: "key_event list"
  hs_mouse_modified :: bool
  hs_modifiers :: "bool list"
  hs_prev :: "Scancode list"
  hs_new_prev :: "Scancode list"

definition hid_state_new :: hid_state where
  "hid_state_new = \<lparr>hs_mouse = \<lparr>x_movement = 0, y_movement = 0, z_movement = 0, left_pressed = False, right_pressed = False,
       middle_pressed = False\<rparr>, hs_key = [], hs_mouse_modified = False, hs_modifiers = replicate 8 False, hs_prev = [], hs_new_prev = []\<rparr>"

text \<open>The key events of a report; the array has room for 8.\<close>

definition add_key :: "Scancode \<Rightarrow> bool \<Rightarrow> hid_state \<Rightarrow> hid_state option" where
  "add_key c down s = (if length (hs_key s) < 8 then Some (s\<lparr>hs_key := hs_key s @ [\<lparr>code = c, pressed = down\<rparr>]\<rparr>) else None)"

fun release_modifiers :: "nat list \<Rightarrow> hid_state \<Rightarrow> hid_state option" where
  "release_modifiers [] s = Some s"
| "release_modifiers (i # is) s =
     (if hs_modifiers s ! (i - 224)
      then do { s \<leftarrow> add_key i False (s\<lparr>hs_modifiers := (hs_modifiers s)[i - 224 := False]\<rparr>); release_modifiers is s }
      else release_modifiers is s)"

definition set_relative :: "hfield \<Rightarrow> u32 \<Rightarrow> (u32 \<Rightarrow> mouse_event \<Rightarrow> mouse_event) \<Rightarrow> hid_state \<Rightarrow> hid_state option" where
  "set_relative f value' upd s =
     (if f_relative f \<and> f_signed f
      then do { v \<leftarrow> sign_extent value' (unat (f_bit_size f)); Some (s\<lparr>hs_mouse_modified := True, hs_mouse := upd v (hs_mouse s)\<rparr>) }
      else None)"

definition set_button :: "(mouse_event \<Rightarrow> mouse_event) \<Rightarrow> hid_state \<Rightarrow> hid_state" where
  "set_button upd s = s\<lparr>hs_mouse_modified := True, hs_mouse := upd (hs_mouse s)\<rparr>"

definition add_event :: "hfield \<Rightarrow> u32 \<Rightarrow> hid_state \<Rightarrow> hid_state option" where
  "add_event f value' s =
     (let page = unat (f_usage f) div 65536; usage = unat (f_usage f) mod 65536 in
      if page = 1 then
        (if usage = 0x30 then set_relative f value' (\<lambda>v m. m\<lparr>x_movement := sint v\<rparr>) s
         else if usage = 0x31 then set_relative f value' (\<lambda>v m. m\<lparr>y_movement := sint (- v)\<rparr>) s
         else if usage = 0x38 then set_relative f value' (\<lambda>v m. m\<lparr>z_movement := sint v\<rparr>) s
         else Some s)
      else if page = 7 then
        (if 224 \<le> usage \<and> usage \<le> 231
         then if value' \<noteq> 0
              then if \<not> hs_modifiers s ! (usage - 224)
                   then add_key usage True (s\<lparr>hs_modifiers := (hs_modifiers s)[usage - 224 := True]\<rparr>) else Some s
              else release_modifiers [224 ..< 231] s
         else if \<not> f_index f then None
         else if value' \<ge> 4 then Some (s\<lparr>hs_new_prev := hs_new_prev s @ [unat value']\<rparr>) else Some s)
      else if page = 9 then
        Some (if usage = 1 then set_button (\<lambda>m. m\<lparr>left_pressed := (value' \<noteq> 0)\<rparr>) s
              else if usage = 2 then set_button (\<lambda>m. m\<lparr>right_pressed := (value' \<noteq> 0)\<rparr>) s
              else if usage = 3 then set_button (\<lambda>m. m\<lparr>middle_pressed := (value' \<noteq> 0)\<rparr>) s
              else s)
      else Some s)"

text \<open>The events that are pushed to the event queue, in order.\<close>

definition finalize_event :: "hid_state \<Rightarrow> input_event list \<times> hid_state" where
  "finalize_event s =
     ((if hs_mouse_modified s then [MouseEvent (hs_mouse s)] else []) @
      map KeyEvent (hs_key s) @
      map (\<lambda>k. KeyEvent \<lparr>code = k, pressed = True\<rparr>) (hs_new_prev s) @
      map (\<lambda>k. KeyEvent \<lparr>code = k, pressed = False\<rparr>) (filter (\<lambda>k. k \<notin> set (hs_new_prev s)) (hs_prev s)),
      s\<lparr>hs_prev := hs_new_prev s, hs_new_prev := []\<rparr>)"

section \<open>Reports\<close>

definition hid_layout :: "hreport list \<Rightarrow> nat option" where
  "hid_layout reps =
     (let has_prefix = length reps > 1;
          total_bit_size = sum_list (map (\<lambda>r. sum_list (map (unat \<circ> f_bit_size) (rep_fields r))) reps) + (if has_prefix then 8 else 0);
          total_byte_size = (total_bit_size + 7) div 8
      in if has_prefix \<and> (\<exists>r \<in> set reps. rep_id r = None) \<or> (\<exists>r \<in> set reps. \<exists>f \<in> set (rep_fields r). unat (f_bit_size f) > 32) \<or>
            total_byte_size = 0 \<or> 4096 div total_byte_size < 1
         then None else Some total_byte_size)"

function get_value_loop :: "u8 list \<Rightarrow> nat \<Rightarrow> nat \<Rightarrow> nat \<Rightarrow> nat \<Rightarrow> u32 \<Rightarrow> u32 option" where
  "get_value_loop pkt offset bit_size j byte_offset value' =
     (if j < bit_size
      then let bit_offset = (offset + j) mod 8; bits = min (bit_size - j) (8 - bit_offset)
           in if byte_offset < length pkt
              then let b = drop_bit bit_offset (pkt ! byte_offset) AND mask bits
                   in get_value_loop pkt offset bit_size (j + bits) (byte_offset + 1) (value' OR push_bit j (ucast b))
              else None
      else Some value')"
  by pat_completeness auto
termination
proof (relation "measure (\<lambda>(_, _, bit_size, j, _, _). bit_size - j)", goal_cases)
  case (2 pkt offset bit_size j)
  have "(offset + j) mod 8 < 8" by simp
  then show ?case using 2 by (auto simp: min_def)
qed simp

definition get_value :: "u8 list \<Rightarrow> nat \<Rightarrow> hfield \<Rightarrow> u32 option" where
  "get_value pkt offset f = get_value_loop pkt offset (unat (f_bit_size f)) 0 (offset div 8) 0"

fun report_fields :: "u8 list \<Rightarrow> nat \<Rightarrow> hfield list \<Rightarrow> hid_state \<Rightarrow> hid_state option" where
  "report_fields pkt offset [] s = Some s"
| "report_fields pkt offset (f # fs) s =
     (if f_pad f then report_fields pkt (offset + unat (f_bit_size f)) fs s
      else do { value' \<leftarrow> get_value pkt offset f;
                s \<leftarrow> (if f_index f then (if value' \<ge> f_min f \<and> value' \<le> f_max f then add_event f value' s else Some s)
                      else add_event f value' s);
                report_fields pkt (offset + unat (f_bit_size f)) fs s })"

fun find_report :: "u8 \<Rightarrow> hreport list \<Rightarrow> hreport option" where
  "find_report i [] = None"
| "find_report i (r # rs) = (case rep_id r of None \<Rightarrow> None | Some j \<Rightarrow> if j = ucast i then Some r else find_report i rs)"

definition hid_packet :: "hreport list \<Rightarrow> u8 list \<Rightarrow> hid_state \<Rightarrow> (input_event list \<times> hid_state) option" where
  "hid_packet reps pkt s =
     do { (r, pkt) \<leftarrow> (if length reps > 1
                       then case pkt of [] \<Rightarrow> None | i # rest \<Rightarrow> map_option (\<lambda>r. (r, rest)) (find_report i reps)
                       else Some (reps ! 0, pkt));
          s \<leftarrow> report_fields pkt 0 (rep_fields r) (s\<lparr>hs_mouse_modified := False, hs_key := []\<rparr>);
          Some (finalize_event s) }"

fun hid_run :: "hreport list \<Rightarrow> u8 list list \<Rightarrow> hid_state \<Rightarrow> (input_event list list \<times> hid_state) option" where
  "hid_run reps [] s = Some ([], s)"
| "hid_run reps (pkt # pkts) s =
     do { (es, s) \<leftarrow> hid_packet reps pkt s; (ess, s) \<leftarrow> hid_run reps pkts s; Some (es # ess, s) }"

section \<open>Fields are the bits of the report\<close>

definition report_bit :: "u8 list \<Rightarrow> nat \<Rightarrow> bool" where
  "report_bit pkt n = bit (pkt ! (n div 8)) (n mod 8)"

declare get_value_loop.simps [simp del]

lemma get_value_loop_bits:
  assumes "bit_size \<le> 32" and "offset + bit_size \<le> 8 * length pkt" and "j \<le> bit_size"
    and "j < bit_size \<Longrightarrow> byte_offset = (offset + j) div 8" and "\<And>k. bit v k \<longleftrightarrow> k < j \<and> report_bit pkt (offset + k)"
  shows "\<exists>w. get_value_loop pkt offset bit_size j byte_offset v = Some w \<and> (\<forall>k. bit w k \<longleftrightarrow> k < bit_size \<and> report_bit pkt (offset + k))"
  using assms
proof (induction pkt offset bit_size j byte_offset v rule: get_value_loop.induct)
  case (1 pkt offset bit_size j byte_offset v)
  show ?case
  proof (cases "j < bit_size")
    case False
    then show ?thesis using "1.prems"(3,5) by (subst get_value_loop.simps) auto
  next
    case True
    define o' where "o' = (offset + j) mod 8"
    define n where "n = min (bit_size - j) (8 - o')"
    define b where "b = drop_bit o' (pkt ! byte_offset) AND (mask n :: u8)"
    have bo: "byte_offset = (offset + j) div 8" using "1.prems"(4) True by blast
    have o8: "o' < 8" by (simp add: o'_def)
    have n: "0 < n" "n \<le> bit_size - j" "o' + n \<le> 8" using True o8 by (auto simp: n_def)
    have split: "offset + j = 8 * byte_offset + o'" by (simp add: bo o'_def)
    then have len: "byte_offset < length pkt" using "1.prems"(2) True by linarith
    have bitb: "bit b m \<longleftrightarrow> m < n \<and> report_bit pkt (offset + (j + m))" for m
    proof (cases "m < n")
      case True
      then have e: "offset + (j + m) = 8 * byte_offset + (o' + m)" and l: "o' + m < 8" using split n by linarith+
      have "(offset + (j + m)) div 8 = byte_offset" "(offset + (j + m)) mod 8 = o' + m" unfolding e using l by simp_all
      then show ?thesis using True n by (simp add: b_def report_bit_def bit_simps)
    qed (simp add: b_def bit_simps)
    have "bit (v OR push_bit j (ucast b)) k \<longleftrightarrow> k < j + n \<and> report_bit pkt (offset + k)" for k
    proof (cases "k < j")
      case True
      then show ?thesis using "1.prems"(5) by (simp add: bit_simps)
    next
      case False
      then have kj: "j + (k - j) = k" by simp
      have nv: "\<not> bit v k" using "1.prems"(5) [of k] False by simp
      have "bit (v OR push_bit j (ucast b)) k \<longleftrightarrow> k < 32 \<and> bit b (k - j)" using False nv by (auto simp: bit_or_iff bit_push_bit_iff bit_ucast_iff)
      also have "\<dots> \<longleftrightarrow> k < 32 \<and> k - j < n \<and> report_bit pkt (offset + k)" using bitb [of "k - j"] kj by simp
      also have "\<dots> \<longleftrightarrow> k < j + n \<and> report_bit pkt (offset + k)" using False n(2) "1.prems"(1) True by auto
      finally show ?thesis .
    qed
    moreover have "byte_offset + 1 = (offset + (j + n)) div 8" if "j + n < bit_size"
    proof -
      have "n = 8 - o'" using that by (auto simp: n_def)
      then have "offset + (j + n) = 8 * (byte_offset + 1)" using split o8 by simp
      then show ?thesis by simp
    qed
    moreover have "j + n \<le> bit_size" using n(2) True by simp
    ultimately have "\<exists>w. get_value_loop pkt offset bit_size (j + n) (byte_offset + 1) (v OR push_bit j (ucast b)) = Some w \<and>
        (\<forall>k. bit w k \<longleftrightarrow> k < bit_size \<and> report_bit pkt (offset + k))"
      using "1.IH" [OF True o'_def n_def len b_def] "1.prems"(1,2) by blast
    then show ?thesis using True len
      by (subst get_value_loop.simps) (simp add: Let_def o'_def [symmetric] n_def [symmetric] b_def [symmetric])
  qed
qed

text \<open>C36 The value of a field is the number whose bits are the bits of the report from the offset of the
  field on, for any field of up to 32 bits and any offset, whether or not it is aligned to bytes.\<close>

theorem get_value_bits:
  assumes "unat (f_bit_size f) \<le> 32" and "offset + unat (f_bit_size f) \<le> 8 * length pkt"
  shows "\<exists>v. get_value pkt offset f = Some v \<and>
    (\<forall>k. bit v k \<longleftrightarrow> k < unat (f_bit_size f) \<and> bit (pkt ! ((offset + k) div 8)) ((offset + k) mod 8))"
  using get_value_loop_bits [OF assms, of 0 "offset div 8" 0] by (simp add: get_value_def report_bit_def)

theorem get_value_bits_witness:
  "\<exists>v. get_value [0xA5, 0x0F] 4 \<lparr>f_usage = 0, f_bit_size = 8, f_min = 0, f_max = 255, f_signed = False, f_index = False,
       f_relative = False, f_pad = False\<rparr> = Some v \<and> bit v 1 \<and> \<not> bit v 2"
  using get_value_bits [of "\<lparr>f_usage = 0, f_bit_size = 8, f_min = 0, f_max = 255, f_signed = False, f_index = False,
       f_relative = False, f_pad = False\<rparr>" 4 "[0xA5, 0x0F]"]
  by (auto simp: bit_numeral_simps)

lemma get_value_report_bit:
  assumes "unat (f_bit_size f) \<le> 32" and "offset + unat (f_bit_size f) \<le> 8 * length pkt"
  shows "\<exists>v. get_value pkt offset f = Some v \<and> (\<forall>k. bit v k \<longleftrightarrow> k < unat (f_bit_size f) \<and> report_bit pkt (offset + k))"
  using get_value_loop_bits [OF assms, of 0 "offset div 8" 0] by (simp add: get_value_def)

lemma get_value_byte:
  assumes "f_bit_size f = 8" and "i < length pkt"
  shows "get_value pkt (8 * i) f = Some (ucast (pkt ! i))"
proof -
  obtain v where v: "get_value pkt (8 * i) f = Some v" "\<And>k. bit v k \<longleftrightarrow> k < 8 \<and> report_bit pkt (8 * i + k)"
    using get_value_report_bit [of f "8 * i" pkt] assms by auto
  have "v = ucast (pkt ! i)"
  proof (rule bit_word_eqI)
    fix k show "bit v k = bit (ucast (pkt ! i) :: u32) k"
      using bit_imp_le_length [of "pkt ! i" k] by (cases "k < 8") (auto simp: v(2) report_bit_def bit_ucast_iff)
  qed
  then show ?thesis using v(1) by simp
qed

lemma get_value_flag:
  assumes "f_bit_size f = 1" and "n < 8 * length pkt"
  shows "get_value pkt n f = Some (of_bool (report_bit pkt n))"
proof -
  obtain v where v: "get_value pkt n f = Some v" "\<And>k. bit v k \<longleftrightarrow> k = 0 \<and> report_bit pkt (n + k)"
    using get_value_report_bit [of f n pkt] assms by auto
  have "v = of_bool (report_bit pkt n)" by (rule bit_word_eqI) (auto simp: v(2) bit_simps)
  then show ?thesis using v(1) by simp
qed

section \<open>Keyboards\<close>

text \<open>The report descriptor that the USB specification gives for keyboards, and the report it stands for:
  8 modifier bits, an unused byte, and the codes of up to 6 keys.\<close>

definition keyboard_descriptor :: "u8 list" where
  "keyboard_descriptor =
     [0x05, 0x01, 0x09, 0x06, 0xA1, 0x01, 0x05, 0x07, 0x19, 0xE0, 0x29, 0xE7, 0x15, 0x00, 0x25, 0x01,
      0x75, 0x01, 0x95, 0x08, 0x81, 0x02, 0x95, 0x01, 0x75, 0x08, 0x81, 0x01, 0x95, 0x05, 0x75, 0x01,
      0x05, 0x08, 0x19, 0x01, 0x29, 0x05, 0x91, 0x02, 0x95, 0x01, 0x75, 0x03, 0x91, 0x01, 0x95, 0x06,
      0x75, 0x08, 0x15, 0x00, 0x25, 0x65, 0x05, 0x07, 0x19, 0x00, 0x29, 0x65, 0x81, 0x00, 0xC0]"

definition modifier_field :: "nat \<Rightarrow> hfield" where
  "modifier_field i = \<lparr>f_usage = 0x700E0 + of_nat i, f_bit_size = 1, f_min = 0, f_max = 1, f_signed = False, f_index = False,
     f_relative = False, f_pad = False\<rparr>"

definition pad_field :: "u32 \<Rightarrow> hfield" where
  "pad_field n = \<lparr>f_usage = 0, f_bit_size = n, f_min = 0, f_max = 1, f_signed = False, f_index = True,
     f_relative = False, f_pad = True\<rparr>"

definition key_field :: "nat \<Rightarrow> hfield" where
  "key_field i = \<lparr>f_usage = 0x70000 + of_nat i, f_bit_size = 8, f_min = 0, f_max = 101, f_signed = False, f_index = True,
     f_relative = False, f_pad = False\<rparr>"

definition keyboard_report :: hreport where
  "keyboard_report = \<lparr>rep_id = None, rep_fields = map modifier_field [0 ..< 8] @ pad_field 8 # map key_field [0 ..< 6]\<rparr>"

lemmas parse_simps = parse_hid_report_def hid_item_def ITEM_SIZES_def main_item_def global_item_def local_item_def hparser_new_def hlocal_new_def
  sign_extent_def field_usage_def Let_def numeral_2_eq_2 [symmetric]

lemma read_le_num: "read_le buf i (numeral n) =
     (if i < length buf then do { rest \<leftarrow> read_le buf (i + 1) (pred_numeral n); Some (ucast (buf ! i) OR push_bit 8 rest) } else None)"
  by (simp add: numeral_eq_Suc)

declare parse_items.simps [simp del]

lemma keyboard_descriptor_parsed: "parse_hid_report keyboard_descriptor 63 = Some [keyboard_report]"
  unfolding keyboard_descriptor_def keyboard_report_def
  by (simp add: parse_simps read_le_num parse_items.simps modifier_field_def pad_field_def key_field_def upt_rec [of _ 8] upt_rec [of _ 6])

definition kb_keys :: "u8 list \<Rightarrow> Scancode list" where
  "kb_keys ks = map unat (filter (\<lambda>k. 4 \<le> k \<and> k \<le> 101) ks)"

lemma page_7: "n < 65536 \<Longrightarrow> (0x70000 + n) div 65536 = 7 \<and> (0x70000 + n) mod 65536 = (n :: nat)"
proof -
  assume n: "n < 65536"
  have e: "0x70000 + n = n + 7 * 65536" by simp
  have "(n + 7 * 65536) div 65536 = 7 + n div 65536" by (rule div_mult_self1) simp
  moreover have "(n + 7 * 65536) mod 65536 = n mod 65536" by (rule mod_mult_self1)
  ultimately show ?thesis unfolding e using n by simp
qed

lemma modifier_up:
  assumes "pkt ! 0 = 0" and "0 < length pkt" and "hs_modifiers s = replicate 8 False" and "i < 8"
  shows "report_fields pkt i (modifier_field i # fs) s = report_fields pkt (Suc i) fs s"
proof -
  have "\<not> report_bit pkt i" using assms(1,4) by (simp add: report_bit_def)
  then have g: "get_value pkt i (modifier_field i) = Some 0" using get_value_flag [of "modifier_field i" i pkt] assms(2,4) by (simp add: modifier_field_def)
  have "release_modifiers [224 ..< 231] s = Some s" using assms(3) by (simp add: upt_rec [of _ 231])
  moreover have "unat (f_usage (modifier_field i)) = 0x700E0 + i"
  proof -
    have "unat (of_nat i :: u32) = i" using assms(4) by (simp add: unat_of_nat)
    then show ?thesis using assms(4) by (simp add: modifier_field_def unat_word_ariths)
  qed
  ultimately have "add_event (modifier_field i) 0 s = Some s"
    using assms(4) page_7 [of "224 + i"] unfolding add_event_def Let_def by (simp del: release_modifiers.simps)
  then show ?thesis using g by (simp add: modifier_field_def)
qed

lemma key_field_step:
  assumes "i < length pkt" and "j < 6"
  shows "report_fields pkt (8 * i) (key_field j # fs) s = report_fields pkt (8 * Suc i) fs
    (if 4 \<le> pkt ! i \<and> pkt ! i \<le> 101 then s\<lparr>hs_new_prev := hs_new_prev s @ [unat (pkt ! i)]\<rparr> else s)"
proof -
  have g: "get_value pkt (8 * i) (key_field j) = Some (ucast (pkt ! i))" using get_value_byte [of "key_field j" i pkt] assms(1) by (simp add: key_field_def)
  have "unat (of_nat j :: u32) = j" using assms(2) by (simp add: unat_of_nat)
  then have us: "unat (f_usage (key_field j)) = 0x70000 + j" using assms(2) by (simp add: key_field_def unat_word_ariths)
  have cmp: "((ucast (pkt ! i) :: u32) \<le> 101) = (pkt ! i \<le> 101)" "(4 \<le> (ucast (pkt ! i) :: u32)) = (4 \<le> pkt ! i)"
    by (simp_all add: word_le_nat_alt)
  have sz: "unat (f_bit_size (key_field j)) = 8" "\<not> f_pad (key_field j)" "f_index (key_field j)" "f_min (key_field j) = 0" "f_max (key_field j) = 101"
    by (simp_all add: key_field_def)
  have "8 * i + 8 = 8 * Suc i" by simp
  moreover have "add_event (key_field j) (ucast (pkt ! i)) s = Some (if 4 \<le> pkt ! i then s\<lparr>hs_new_prev := hs_new_prev s @ [unat (pkt ! i)]\<rparr> else s)"
    using page_7 [of j] assms(2) cmp sz(3) unfolding add_event_def us Let_def by simp
  ultimately show ?thesis using g sz cmp by (simp add: add.commute)
qed

lemma key_fields_read:
  assumes "i + n \<le> length pkt" and "j + n \<le> 6"
  shows "report_fields pkt (8 * i) (map key_field [j ..< j + n]) s =
    Some (s\<lparr>hs_new_prev := hs_new_prev s @ kb_keys (take n (drop i pkt))\<rparr>)"
  using assms
proof (induction n arbitrary: i j s)
  case 0
  then show ?case by (simp add: kb_keys_def)
next
  case (Suc n)
  have u: "[j ..< j + Suc n] = j # [Suc j ..< Suc j + n]" by (simp add: upt_conv_Cons)
  have d: "take (Suc n) (drop i pkt) = pkt ! i # take n (drop (Suc i) pkt)" using Suc.prems(1) by (simp add: Cons_nth_drop_Suc [symmetric])
  have "report_fields pkt (8 * i) (map key_field [j ..< j + Suc n]) s = report_fields pkt (8 * Suc i) (map key_field [Suc j ..< Suc j + n])
      (if 4 \<le> pkt ! i \<and> pkt ! i \<le> 101 then s\<lparr>hs_new_prev := hs_new_prev s @ [unat (pkt ! i)]\<rparr> else s)"
    unfolding u list.map by (rule key_field_step) (use Suc.prems in simp_all)
  also have "\<dots> = Some (s\<lparr>hs_new_prev := hs_new_prev s @ kb_keys (take (Suc n) (drop i pkt))\<rparr>)"
    using Suc.IH [of "Suc i" "Suc j"] Suc.prems unfolding d by (simp add: kb_keys_def)
  finally show ?case .
qed

text \<open>The events that follow from the keys that are down: each key that is down is pressed, and each key
  that was down before and is no more is released.\<close>

definition key_changes :: "Scancode list \<Rightarrow> Scancode list \<Rightarrow> input_event list" where
  "key_changes old new =
     map (\<lambda>k. KeyEvent \<lparr>code = k, pressed = True\<rparr>) new @ map (\<lambda>k. KeyEvent \<lparr>code = k, pressed = False\<rparr>) (filter (\<lambda>k. k \<notin> set new) old)"

fun track_keys :: "Scancode list \<Rightarrow> u8 list list \<Rightarrow> input_event list list" where
  "track_keys old [] = []"
| "track_keys old (ks # kss) = key_changes old (kb_keys ks) # track_keys (kb_keys ks) kss"

definition hid_idle :: "hid_state \<Rightarrow> bool" where
  "hid_idle s \<longleftrightarrow> hs_modifiers s = replicate 8 False \<and> hs_new_prev s = []"

lemma keyboard_packet:
  assumes "hid_idle s" and "length ks = 6"
  shows "\<exists>s'. hid_packet [keyboard_report] (0 # x # ks) s = Some (key_changes (hs_prev s) (kb_keys ks), s') \<and>
    hid_idle s' \<and> hs_prev s' = kb_keys ks"
proof -
  define t where "t = s\<lparr>hs_mouse_modified := False, hs_key := []\<rparr>"
  have t: "hs_modifiers t = replicate 8 False" "hs_new_prev t = []" "hs_prev t = hs_prev s" using assms(1) by (simp_all add: t_def hid_idle_def)
  have up: "report_fields (0 # x # ks) i (modifier_field i # fs) t = report_fields (0 # x # ks) (Suc i) fs t" if "i < 8" for i fs
    by (rule modifier_up) (use t that in simp_all)
  have m: "map modifier_field [0 ..< 8] = [modifier_field 0, modifier_field 1, modifier_field 2, modifier_field 3, modifier_field 4,
      modifier_field 5, modifier_field 6, modifier_field 7]" by (simp add: upt_rec [of _ 8] eval_nat_numeral)
  have "report_fields (0 # x # ks) 0 (map modifier_field [0 ..< 8] @ fs) t = report_fields (0 # x # ks) 8 fs t" for fs
    unfolding m using up [of 0] up [of 1] up [of 2] up [of 3] up [of 4] up [of 5] up [of 6] up [of 7] by (simp add: numeral_2_eq_2 [symmetric] del: report_fields.simps)
  then have "report_fields (0 # x # ks) 0 (rep_fields keyboard_report) t = report_fields (0 # x # ks) (8 * 2) (map key_field [0 ..< 0 + 6]) t"
    by (simp add: keyboard_report_def pad_field_def)
  also have "\<dots> = Some (t\<lparr>hs_new_prev := kb_keys ks\<rparr>)" by (subst key_fields_read) (use assms(2) t in simp_all)
  finally have "hid_packet [keyboard_report] (0 # x # ks) s = Some (finalize_event (t\<lparr>hs_new_prev := kb_keys ks\<rparr>))"
    unfolding hid_packet_def t_def [symmetric] by simp
  then show ?thesis using t by (simp add: finalize_event_def key_changes_def hid_idle_def) (simp add: t_def)
qed

text \<open>C37 A keyboard with the report descriptor of the specification, as long as no modifier key is used:
  over any sequence of reports the driver makes for each report exactly the events of the keys that
  are down and of those that have been let go since the report before.\<close>

theorem keyboard_keys_tracked:
  assumes "\<forall>ks \<in> set kss. length ks = 6"
  shows "\<exists>reps s. parse_hid_report keyboard_descriptor 63 = Some reps \<and>
    hid_run reps (map (\<lambda>ks. 0 # 0 # ks) kss) hid_state_new = Some (track_keys [] kss, s)"
proof -
  have "\<exists>s'. hid_run [keyboard_report] (map (\<lambda>ks. 0 # 0 # ks) kss) s = Some (track_keys (hs_prev s) kss, s')" if "hid_idle s" for s
    using assms that
  proof (induction kss arbitrary: s)
    case (Cons ks kss)
    then obtain s1 where s1: "hid_packet [keyboard_report] (0 # 0 # ks) s = Some (key_changes (hs_prev s) (kb_keys ks), s1)"
      "hid_idle s1" "hs_prev s1 = kb_keys ks" using keyboard_packet [of s ks 0] by auto
    then show ?case using Cons.IH [of s1] Cons.prems by auto
  qed simp
  from this [of hid_state_new] show ?thesis using keyboard_descriptor_parsed by (simp add: hid_idle_def hid_state_new_def)
qed

theorem keyboard_keys_tracked_witness:
  "\<exists>reps s. parse_hid_report keyboard_descriptor 63 = Some reps \<and>
    hid_run reps [[0, 0, 4, 5, 0, 0, 0, 0], [0, 0, 5, 0, 0, 0, 0, 0]] hid_state_new =
      Some ([[KeyEvent \<lparr>code = 4, pressed = True\<rparr>, KeyEvent \<lparr>code = 5, pressed = True\<rparr>],
             [KeyEvent \<lparr>code = 5, pressed = True\<rparr>, KeyEvent \<lparr>code = 4, pressed = False\<rparr>]], s)"
  using keyboard_keys_tracked [of "[[4, 5, 0, 0, 0, 0], [5, 0, 0, 0, 0, 0]]"] by (simp add: key_changes_def kb_keys_def)


text \<open>The identifier of a report is stored when the item that starts the next report is read: of two
  reports with the identifiers 1 and 2 the first gets 2 and the second none, and the set-up of the
  driver fails.\<close>

lemma report_ids_shifted:
  "\<exists>r q. parse_hid_report
      [0x85, 0x01, 0x05, 0x07, 0x75, 0x08, 0x95, 0x01, 0x09, 0x04, 0x81, 0x00,
       0x85, 0x02, 0x09, 0x05, 0x81, 0x00] 18 = Some [r, q] \<and>
    rep_id r = Some 2 \<and> rep_id q = None \<and> length (rep_fields r) = 1 \<and> length (rep_fields q) = 1 \<and> hid_layout [r, q] = None"
  by (simp add: parse_simps read_le_num parse_items.simps hid_layout_def)

section \<open>Mice\<close>

text \<open>The report descriptor that the USB specification gives for mice: three buttons and two movements.\<close>

definition mouse_descriptor :: "u8 list" where
  "mouse_descriptor =
     [0x05, 0x01, 0x09, 0x02, 0xA1, 0x01, 0x09, 0x01, 0xA1, 0x00, 0x05, 0x09, 0x19, 0x01, 0x29, 0x03,
      0x15, 0x00, 0x25, 0x01, 0x95, 0x03, 0x75, 0x01, 0x81, 0x02, 0x95, 0x01, 0x75, 0x05, 0x81, 0x01,
      0x05, 0x01, 0x09, 0x30, 0x09, 0x31, 0x15, 0x81, 0x25, 0x7F, 0x75, 0x08, 0x95, 0x02, 0x81, 0x06,
      0xC0, 0xC0]"

definition button_field :: "u32 \<Rightarrow> hfield" where
  "button_field i = \<lparr>f_usage = i, f_bit_size = 1, f_min = 0, f_max = 1, f_signed = False, f_index = False,
     f_relative = False, f_pad = False\<rparr>"

definition move_field :: "u32 \<Rightarrow> hfield" where
  "move_field i = \<lparr>f_usage = i, f_bit_size = 8, f_min = 0x81, f_max = 0x7F, f_signed = True, f_index = False,
     f_relative = True, f_pad = False\<rparr>"

definition mouse_report :: hreport where
  "mouse_report = \<lparr>rep_id = None, rep_fields = [button_field 0x90001, button_field 0x90002, button_field 0x90003, pad_field 5,
     move_field 0x10030, move_field 0x10031]\<rparr>"

lemma mouse_descriptor_parsed: "parse_hid_report mouse_descriptor 50 = Some [mouse_report]"
  unfolding mouse_descriptor_def mouse_report_def
  by (simp add: parse_simps read_le_num parse_items.simps button_field_def pad_field_def move_field_def upt_rec [of _ 3] upt_rec [of _ 2])

lemma scast_byte: "(scast (x :: u8) :: u32) = ucast x - of_bool (bit x 7) * 0x100"
proof -
  have "uint x < 2 ^ LENGTH(8)" by (rule unsigned_less)
  then have "take_bit 8 (uint x) = uint x" by (intro take_bit_int_eq_self) simp_all
  then have "sint x = uint x - 256 * of_bool (bit x 7)"
    by (simp add: sint_uint signed_take_bit_eq_take_bit_minus take_bit_int_eq_self bit_uint_iff)
  then have "(word_of_int (sint x) :: u32) = word_of_int (uint x) - of_bool (bit x 7) * 0x100" by simp
  then show ?thesis by simp
qed

lemma sign_extent_byte: "sign_extent (ucast (x :: u8)) 8 = Some (scast x)"
proof -
  define y :: u32 where "y = ucast x"
  have "bit y 7 = bit x 7" by (simp add: y_def bit_ucast_iff)
  moreover have "y XOR push_bit 7 1 = flip_bit 7 y" by (simp only: flip_bit_eq_xor)
  moreover have "flip_bit 7 y = (if bit y 7 then y - 0x80 else y + 0x80)" by (simp add: flip_bit_eq_if unset_bit_eq set_bit_eq)
  ultimately show ?thesis by (simp add: sign_extent_def Let_def scast_byte y_def [symmetric])
qed

lemma button_events:
  "add_event (button_field 0x90001) v s = Some (set_button (\<lambda>m. m\<lparr>left_pressed := (v \<noteq> 0)\<rparr>) s)"
  "add_event (button_field 0x90002) v s = Some (set_button (\<lambda>m. m\<lparr>right_pressed := (v \<noteq> 0)\<rparr>) s)"
  "add_event (button_field 0x90003) v s = Some (set_button (\<lambda>m. m\<lparr>middle_pressed := (v \<noteq> 0)\<rparr>) s)"
  by (simp_all add: add_event_def button_field_def Let_def)

lemma sint_scast_byte: "sint (scast (x :: u8) :: u32) = sint x" "sint (- (scast x :: u32)) = - sint x"
proof -
  have r: "- (2 ^ 7) \<le> sint x" "sint x < 2 ^ 7" using sint_greater_eq [of x] sint_less [of x] by simp_all
  then have "signed_take_bit 31 (sint x) = sint x" "signed_take_bit 31 (- sint x) = - sint x" by (auto intro!: signed_take_bit_int_eq_self)
  moreover have "(scast x :: u32) = word_of_int (sint x)" "- (scast x :: u32) = word_of_int (- sint x)" by simp_all
  ultimately show "sint (scast x :: u32) = sint x" "sint (- (scast x :: u32)) = - sint x" by (simp_all only: signed_of_int) simp_all
qed

lemma move_events:
  "add_event (move_field 0x10030) (ucast (x :: u8)) s = Some (s\<lparr>hs_mouse_modified := True, hs_mouse := (hs_mouse s)\<lparr>x_movement := sint x\<rparr>\<rparr>)"
  "add_event (move_field 0x10031) (ucast (x :: u8)) s = Some (s\<lparr>hs_mouse_modified := True, hs_mouse := (hs_mouse s)\<lparr>y_movement := - sint x\<rparr>\<rparr>)"
  by (simp_all add: add_event_def move_field_def Let_def set_relative_def sign_extent_byte sint_scast_byte)

lemma mouse_field_simps:
  "f_pad (button_field u) = False" "f_index (button_field u) = False" "unat (f_bit_size (button_field u)) = 1"
  "f_pad (move_field u) = False" "f_index (move_field u) = False" "unat (f_bit_size (move_field u)) = 8"
  "f_pad (pad_field 5) = True" "unat (f_bit_size (pad_field 5)) = 5"
  by (simp_all add: button_field_def move_field_def pad_field_def)

text \<open>C38 A mouse with the report descriptor of the specification: every report makes one event, with the
  buttons that are down and the two movements as signed bytes, the vertical one reversed.\<close>

theorem mouse_reports_movement:
  assumes "hs_prev s = []" and "hs_new_prev s = []"
  shows "\<exists>reps s'. parse_hid_report mouse_descriptor 50 = Some reps \<and>
    hid_packet reps [b, dx, dy] s = Some ([MouseEvent ((hs_mouse s)\<lparr>x_movement := sint dx, y_movement := - sint dy,
      left_pressed := bit b 0, right_pressed := bit b 1, middle_pressed := bit b 2\<rparr>)], s')"
proof -
  have flag: "get_value [b, dx, dy] n (button_field u) = Some (of_bool (bit b n))" if "n < 8" for n u
    using get_value_flag [of "button_field u" n "[b, dx, dy]"] that by (simp add: button_field_def report_bit_def)
  have mv: "get_value [b, dx, dy] 8 (move_field u) = Some (ucast dx)" "get_value [b, dx, dy] 16 (move_field u) = Some (ucast dy)" for u
    using get_value_byte [of "move_field u" 1 "[b, dx, dy]"] get_value_byte [of "move_field u" 2 "[b, dx, dy]"] by (simp_all add: move_field_def)
  show ?thesis using assms mouse_descriptor_parsed flag [of 1]
    by (simp add: hid_packet_def mouse_report_def flag mv mouse_field_simps button_events move_events finalize_event_def set_button_def
        numeral_2_eq_2 [symmetric])
qed

theorem mouse_reports_movement_witness:
  "\<exists>reps s'. parse_hid_report mouse_descriptor 50 = Some reps \<and>
    hid_packet reps [5, 3, 0xFF] hid_state_new = Some ([MouseEvent \<lparr>x_movement = 3, y_movement = 1, z_movement = 0, left_pressed = True,
      right_pressed = False, middle_pressed = True\<rparr>], s')"
  using mouse_reports_movement [of hid_state_new 5 3 "0xFF"] by (simp add: hid_state_new_def)

end
