(* ===== verification/Chipset.thy ===== *)
theory Chipset
  imports Ring "HOL-Library.Monad_Syntax"
begin

text \<open>
  The chipset that the virtual machine monitor emulates, \<open>src/apps/evm/src/chipset.cpp\<close>: the CMOS
  registers, the programmable interval timer, the keyboard controller and the timer update.

  A failed assertion of the source is the result \<open>None\<close>. The messages printed for unsupported
  requests are left out.
\<close>

section \<open>CMOS registers\<close>

record cmos =
  NMI_DISABLE :: bool
  CMOS_SELECT :: u8

definition cmos_new :: cmos where
  "cmos_new = \<lparr>NMI_DISABLE = False, CMOS_SELECT = 0xD\<rparr>"

definition cmos_read :: "u64 \<Rightarrow> u16 \<Rightarrow> u8 \<Rightarrow> cmos \<Rightarrow> (u32 \<times> cmos) option" where
  "cmos_read MEMORY_SIZE offset sz c =
     (if offset = 0 then (if sz = 1 then Some (ucast (CMOS_SELECT c), c) else None)
      else if offset \<noteq> 1 then None
      else let reg = CMOS_SELECT c AND 0x7F;
               val = (if reg = 0x34 then ucast (drop_bit 16 MEMORY_SIZE)
                      else if reg = 0x35 then ucast (drop_bit 24 MEMORY_SIZE) else 0) :: u8
           in Some (ucast val, c\<lparr>CMOS_SELECT := 0xD OR (CMOS_SELECT c AND 0x80)\<rparr>))"

definition cmos_write :: "u16 \<Rightarrow> u32 \<Rightarrow> u8 \<Rightarrow> cmos \<Rightarrow> cmos option" where
  "cmos_write offset val sz c =
     (if offset = 0 then (if sz = 1 then Some (c\<lparr>CMOS_SELECT := ucast val, NMI_DISABLE := bit val 7\<rparr>) else None)
      else if offset \<noteq> 1 then None
      else Some (c\<lparr>CMOS_SELECT := 0xD OR (CMOS_SELECT c AND 0x80)\<rparr>))"

section \<open>Interval timer\<close>

record pit_channel =
  ch_count :: u16
  reload_value :: u16
  access_mode :: u8
  operating_mode :: u8
  toggle :: bool
  counting :: bool

text \<open>The channels, and the NMI status register that shows the output of channel 2.\<close>

record pit =
  channels :: "pit_channel list"
  NMI_STATUS :: u8

definition pit_new :: pit where
  "pit_new = \<lparr>channels = replicate 3 \<lparr>ch_count = 0, reload_value = 0, access_mode = 0, operating_mode = 0,
     toggle = False, counting = False\<rparr>, NMI_STATUS = 0\<rparr>"

definition upd_channel :: "nat \<Rightarrow> (pit_channel \<Rightarrow> pit_channel) \<Rightarrow> pit \<Rightarrow> pit" where
  "upd_channel i f p = p\<lparr>channels := (channels p)[i := f (channels p ! i)]\<rparr>"

definition set_channel_output :: "nat \<Rightarrow> bool \<Rightarrow> pit \<Rightarrow> pit" where
  "set_channel_output index signal p =
     (if index = 2 then p\<lparr>NMI_STATUS := (if signal then NMI_STATUS p OR 0x20 else NMI_STATUS p AND NOT 0x20)\<rparr>
      else p)"

definition reload_written :: "nat \<Rightarrow> pit \<Rightarrow> pit" where
  "reload_written i = upd_channel i (\<lambda>c. c\<lparr>ch_count := reload_value c, counting := True\<rparr>)"

definition pit_read :: "u16 \<Rightarrow> u8 \<Rightarrow> pit \<Rightarrow> (u32 \<times> pit) option" where
  "pit_read offset sz p =
     (if offset = 3 \<or> sz \<noteq> 1 then None
      else if offset < 3
      then let i = unat offset; c = channels p ! i;
               lo = ucast (ch_count c AND 0xFF); hi = ucast (drop_bit 8 (ch_count c))
           in if access_mode c = 1 then Some (lo, p)
              else if access_mode c = 2 then Some (hi, p)
              else if access_mode c = 3
              then (if toggle c then Some (hi, upd_channel i (\<lambda>c. c\<lparr>toggle := False\<rparr>) p)
                    else Some (lo, upd_channel i (\<lambda>c. c\<lparr>toggle := True\<rparr>) p))
              else Some (0, p)
      else Some (0, p))"

text \<open>The reload value with its low or its high byte replaced.\<close>

definition with_lo :: "u32 \<Rightarrow> pit_channel \<Rightarrow> pit_channel" where
  "with_lo val c = c\<lparr>reload_value := (reload_value c AND 0xFF00) OR ucast val\<rparr>"

definition with_hi :: "u32 \<Rightarrow> pit_channel \<Rightarrow> pit_channel" where
  "with_hi val c = c\<lparr>reload_value := (reload_value c AND 0xFF) OR ucast (push_bit 8 val)\<rparr>"

definition out_low_in_mode_0 :: "nat \<Rightarrow> pit \<Rightarrow> pit" where
  "out_low_in_mode_0 i p = (if operating_mode (channels p ! i) = 0 then set_channel_output i False p else p)"

definition write_channel :: "nat \<Rightarrow> u32 \<Rightarrow> pit \<Rightarrow> pit" where
  "write_channel i val p =
     (let c = channels p ! i
      in if access_mode c = 1 then out_low_in_mode_0 i (reload_written i (upd_channel i (with_lo val) p))
         else if access_mode c = 2 then out_low_in_mode_0 i (reload_written i (upd_channel i (with_hi val) p))
         else if access_mode c = 3
         then (if toggle c
               then reload_written i (upd_channel i (\<lambda>c. (with_hi val c)\<lparr>toggle := False\<rparr>) p)
               else out_low_in_mode_0 i (upd_channel i (\<lambda>c. (with_lo val c)\<lparr>toggle := True\<rparr>) p))
         else p)"

definition write_mode :: "u32 \<Rightarrow> pit \<Rightarrow> pit option" where
  "write_mode val p =
     (let channel_index = unat (drop_bit 6 val);
          mode = ucast (drop_bit 1 val AND 7)
      in if channel_index = 3 \<or> bit val 0 then None
         else let p = upd_channel channel_index (\<lambda>c. c\<lparr>access_mode := ucast (drop_bit 4 val AND 3),
                        operating_mode := mode, toggle := False\<rparr>) p
              in if mode = 0
                 then Some (set_channel_output channel_index False (upd_channel channel_index (\<lambda>c. c\<lparr>counting := False\<rparr>) p))
                 else if mode = 2
                 then Some (set_channel_output channel_index True (upd_channel channel_index (\<lambda>c. c\<lparr>counting := False\<rparr>) p))
                 else Some p)"

definition pit_write :: "u16 \<Rightarrow> u32 \<Rightarrow> u8 \<Rightarrow> pit \<Rightarrow> pit option" where
  "pit_write offset val sz p =
     (if sz \<noteq> 1 \<or> val > 0xFF then None
      else if offset < 3 then Some (write_channel (unat offset) val p)
      else if offset = 3 then write_mode val p
      else Some p)"

definition update_channel :: "nat \<Rightarrow> pit \<Rightarrow> pit" where
  "update_channel index p =
     (let c = channels p ! index
      in if \<not> counting c \<or> (index = 2 \<and> \<not> bit (NMI_STATUS p) 0) then p
         else let p = upd_channel index (\<lambda>c. c\<lparr>ch_count := ch_count c - 1\<rparr>) p;
                  c = channels p ! index
              in if operating_mode c = 0
                 then (if ch_count c = 0 then set_channel_output index True p else p)
                 else if operating_mode c = 2
                 then (if ch_count c = 1
                       then set_channel_output index True
                              (upd_channel index (\<lambda>c. c\<lparr>ch_count := reload_value c\<rparr>) (set_channel_output index False p))
                       else p)
                 else p)"

definition pit_update :: "pit \<Rightarrow> pit" where
  "pit_update p = update_channel 2 (update_channel 1 (update_channel 0 p))"

text \<open>The time stamp counter ticks that do not make a whole timer tick are carried to the next
  call; a processor slower than the timer makes the source divide by zero.\<close>

definition chipset_update_timers :: "u64 \<Rightarrow> u64 \<Rightarrow> u64 \<times> pit \<Rightarrow> (u64 \<times> pit) option" where
  "chipset_update_timers tsc_frequency elapsed_tsc s =
     (let (remainder, p) = s;
          tsc_per_pit = tsc_frequency div 1193182
      in if tsc_per_pit = 0 then None
         else let pit_ticks = (elapsed_tsc + remainder) div tsc_per_pit
              in Some ((elapsed_tsc + remainder) mod tsc_per_pit, (pit_update ^^ unat pit_ticks) p))"

section \<open>Keyboard controller\<close>

record i8042 =
  output_buffer :: "u8 list"
  input_buffer :: "u8 list"
  output_write_ptr :: nat
  output_read_ptr :: nat
  output_size :: nat
  input_size :: nat
  current_cmd :: u8
  current_dev_cmd :: u8
  cmd_args :: nat
  port1_enabled :: bool
  port2_enabled :: bool
  config :: u8
  dev_kb_scanning :: bool
  dev_mouse_scanning :: bool
  scancode_set :: u8

definition i8042_new :: i8042 where
  "i8042_new = \<lparr>output_buffer = replicate 16 0, input_buffer = replicate 2 0, output_write_ptr = 0,
     output_read_ptr = 0, output_size = 0, input_size = 0, current_cmd = 0, current_dev_cmd = 0, cmd_args = 0,
     port1_enabled = False, port2_enabled = False, config = 0, dev_kb_scanning = False,
     dev_mouse_scanning = False, scancode_set = 0\<rparr>"

definition inc8 :: "nat \<Rightarrow> nat" where
  "inc8 n = (n + 1) mod 256"

definition dec8 :: "nat \<Rightarrow> nat" where
  "dec8 n = (n + 255) mod 256"

definition out_push :: "u8 \<Rightarrow> i8042 \<Rightarrow> i8042" where
  "out_push b c = c\<lparr>output_buffer := (output_buffer c)[output_write_ptr c := b],
     output_write_ptr := inc8 (output_write_ptr c) mod 16, output_size := inc8 (output_size c)\<rparr>"

definition out_push_room :: "u8 \<Rightarrow> i8042 \<Rightarrow> i8042" where
  "out_push_room b c = (if output_size c \<noteq> 16 then out_push b c else c)"

definition in_shift :: "i8042 \<Rightarrow> i8042" where
  "in_shift c = c\<lparr>input_buffer := (input_buffer c)[0 := input_buffer c ! 1], input_size := dec8 (input_size c)\<rparr>"

definition handle_cmd :: "i8042 \<Rightarrow> i8042" where
  "handle_cmd c =
     (if current_cmd c = 0x60 then in_shift (c\<lparr>config := input_buffer c ! 0\<rparr>)
      else if current_cmd c = 0xA7 then c\<lparr>port2_enabled := False\<rparr>
      else if current_cmd c = 0xA8 then c\<lparr>port2_enabled := True\<rparr>
      else if current_cmd c = 0xA9 then out_push 0 c
      else if current_cmd c = 0xAA then out_push 0x55 c
      else if current_cmd c = 0xAB then out_push 0 c
      else if current_cmd c = 0xAD then c\<lparr>port1_enabled := False\<rparr>
      else if current_cmd c = 0xAE then c\<lparr>port1_enabled := True\<rparr>
      else c)"

definition kbd_handle_cmd :: "i8042 \<Rightarrow> i8042" where
  "kbd_handle_cmd c =
     (if current_dev_cmd c = 0xF0
      then let val = input_buffer c ! 0; c = in_shift c;
               c = (if val = 0 then out_push_room (scancode_set c) c else c\<lparr>scancode_set := val\<rparr>)
           in out_push_room 0xFA c
      else if current_dev_cmd c = 0xF4 then out_push_room 0xFA (c\<lparr>dev_kb_scanning := True\<rparr>)
      else if current_dev_cmd c = 0xF5 then out_push_room 0xFA (c\<lparr>dev_kb_scanning := False\<rparr>)
      else if current_dev_cmd c = 0xFF
      then (if output_size c \<ge> 15 then c else out_push 0xAA (out_push 0xFA c))
      else c)"

definition i8042_read :: "u16 \<Rightarrow> i8042 \<Rightarrow> u8 \<times> i8042" where
  "i8042_read offset c =
     (if offset = 0
      then (if output_size c = 0 then (0, c)
            else (output_buffer c ! output_read_ptr c,
                  c\<lparr>output_read_ptr := inc8 (output_read_ptr c) mod 16, output_size := dec8 (output_size c)\<rparr>))
      else if offset = 4
      then ((if output_size c \<noteq> 0 then 1 else 0) OR (if input_size c = 2 then 2 else 0) OR 4, c)
      else (0, c))"

definition i8042_data_write :: "u8 \<Rightarrow> i8042 \<Rightarrow> i8042 option" where
  "i8042_data_write val c =
     (let c = (if input_size c < 2
               then c\<lparr>input_buffer := (input_buffer c)[input_size c := val], input_size := inc8 (input_size c)\<rparr> else c)
      in if current_cmd c \<noteq> 0 \<and> input_size c \<ge> cmd_args c then Some ((handle_cmd c)\<lparr>current_cmd := 0\<rparr>)
         else if current_dev_cmd c \<noteq> 0 \<and> input_size c \<ge> cmd_args c
         then Some ((kbd_handle_cmd c)\<lparr>current_dev_cmd := 0\<rparr>)
         else let c = in_shift c
              in if current_cmd c \<noteq> 0 then None
                 else if val = 0xED \<or> val = 0xF0 \<or> val = 0xF3
                 then Some (out_push_room 0xFA (c\<lparr>current_dev_cmd := val, cmd_args := 1\<rparr>))
                 else Some ((kbd_handle_cmd (c\<lparr>current_dev_cmd := val\<rparr>))\<lparr>current_dev_cmd := 0\<rparr>))"

definition i8042_write :: "u16 \<Rightarrow> u8 \<Rightarrow> i8042 \<Rightarrow> i8042 option" where
  "i8042_write offset val c =
     (if offset = 0 then i8042_data_write val c
      else if offset = 4
      then let c = c\<lparr>current_cmd := val\<rparr>
           in if val = 0x60 then Some (c\<lparr>cmd_args := 1\<rparr>) else Some (handle_cmd (c\<lparr>cmd_args := 0\<rparr>))
      else Some c)"

section \<open>Properties of the CMOS registers\<close>

lemma drop_bit_bytes: "unat (ucast (drop_bit k (m :: u64)) :: u8) = unat m div 2 ^ k mod 256"
proof -
  have "unat (ucast (drop_bit k m) :: u8) = take_bit 8 (drop_bit k (unat m))"
    by (simp add: unsigned_ucast_eq unsigned_drop_bit_eq take_bit_nat_eq_self)
  then show ?thesis by (simp only: drop_bit_eq_div take_bit_eq_mod) simp
qed

text \<open>The firmware reads the memory size out of the CMOS registers 34 and 35: selecting and
  reading the one and then the other gives the two bytes of the size in units of 64 KiB, whatever
  was selected before.\<close>

theorem cmos_memory_size:
  "\<exists>lo hi c1 c2 c3 c4. cmos_write 0 0x34 1 c = Some c1 \<and> cmos_read m 1 1 c1 = Some (lo, c2) \<and>
     cmos_write 0 0x35 1 c2 = Some c3 \<and> cmos_read m 1 1 c3 = Some (hi, c4) \<and>
     unat lo + 256 * unat hi = unat m div 65536 mod 65536 \<and> CMOS_SELECT c4 = 0xD"
proof -
  have 1: "cmos_write 0 v 1 d = Some (d\<lparr>CMOS_SELECT := ucast v, NMI_DISABLE := bit v 7\<rparr>)" for v d
    by (simp add: cmos_write_def)
  have s: "m div 65536 mod 256 + 256 * (m div 16777216 mod 256) = m div 65536 mod (65536 :: nat)" for m
  proof -
    have "m div 16777216 = m div 65536 div 256" by (simp add: div_mult2_eq [symmetric])
    then show ?thesis using mod_mult2_eq [of "m div 65536" 256 256] by simp
  qed
  show ?thesis
    using s [of "unat m"] by (simp add: 1 cmos_read_def Let_def drop_bit_bytes)
qed

section \<open>Properties of the interval timer\<close>

lemma upd_channel_simps [simp]:
  "NMI_STATUS (upd_channel i f p) = NMI_STATUS p"
  "length (channels (upd_channel i f p)) = length (channels p)"
  "i < length (channels p) \<Longrightarrow> channels (upd_channel i f p) ! i = f (channels p ! i)"
  "i \<noteq> j \<Longrightarrow> channels (upd_channel i f p) ! j = channels p ! j"
  by (simp_all add: upd_channel_def)

lemma set_channel_output_simps [simp]:
  "channels (set_channel_output i b p) = channels p"
  "i \<noteq> 2 \<Longrightarrow> set_channel_output i b p = p"
  by (simp_all add: set_channel_output_def)

lemma out_low_channels [simp]: "channels (out_low_in_mode_0 i p) = channels p"
  by (simp add: out_low_in_mode_0_def)

lemma set_channel_output_bits [simp]:
  "bit (NMI_STATUS (set_channel_output 2 b p)) 5 = b"
  "bit (NMI_STATUS (set_channel_output 2 b p)) 0 = bit (NMI_STATUS p) 0"
  by (auto simp: set_channel_output_def bit_simps bit_numeral_rec)

lemma update_channel_other [simp]:
  "i \<noteq> j \<Longrightarrow> channels (update_channel i p) ! j = channels p ! j"
  "length (channels (update_channel i p)) = length (channels p)"
  "i \<noteq> 2 \<Longrightarrow> NMI_STATUS (update_channel i p) = NMI_STATUS p"
  by (auto simp: update_channel_def Let_def)

text \<open>One tick, seen from channel 2.\<close>

definition tick2 :: "pit_channel \<times> u8 \<Rightarrow> pit_channel \<times> u8" where
  "tick2 s = (let p = update_channel 2 \<lparr>channels = replicate 3 (fst s), NMI_STATUS = snd s\<rparr>
              in (channels p ! 2, NMI_STATUS p))"

lemma update_channel_2:
  "length (channels p) = 3 \<Longrightarrow>
   (channels (update_channel 2 p) ! 2, NMI_STATUS (update_channel 2 p)) = tick2 (channels p ! 2, NMI_STATUS p)"
  by (auto simp: tick2_def update_channel_def Let_def set_channel_output_def)

lemma pit_update_len [simp]: "length (channels (pit_update p)) = length (channels p)"
  by (simp add: pit_update_def)

lemma pit_update_2:
  "length (channels p) = 3 \<Longrightarrow>
   (channels (pit_update p) ! 2, NMI_STATUS (pit_update p)) = tick2 (channels p ! 2, NMI_STATUS p)"
  using update_channel_2 [of "update_channel 1 (update_channel 0 p)"] by (simp add: pit_update_def)

lemma pit_updates_2:
  "length (channels p) = 3 \<Longrightarrow>
   (channels ((pit_update ^^ n) p) ! 2, NMI_STATUS ((pit_update ^^ n) p)) = (tick2 ^^ n) (channels p ! 2, NMI_STATUS p)
   \<and> length (channels ((pit_update ^^ n) p)) = 3"
  by (induction n) (auto simp: pit_update_2)

lemma tick2_mode_0:
  assumes "counting c" and "bit s 0" and "operating_mode c = 0"
  shows "\<exists>t. tick2 (c, s) = (c\<lparr>ch_count := ch_count c - 1\<rparr>, t) \<and> bit t 0 \<and>
    (bit t 5 \<longleftrightarrow> bit s 5 \<or> ch_count c - 1 = 0)"
  using assms by (auto simp: tick2_def update_channel_def Let_def)

lemma ticks2_mode_0:
  assumes "counting c" and "bit s 0" and "operating_mode c = 0"
  shows "\<exists>t. (tick2 ^^ n) (c, s) = (c\<lparr>ch_count := ch_count c - of_nat n\<rparr>, t) \<and> bit t 0 \<and>
    (bit t 5 \<longleftrightarrow> bit s 5 \<or> (\<exists>k. 0 < k \<and> k \<le> n \<and> ch_count c = of_nat k))"
proof (induction n)
  case (Suc n)
  then obtain t where t: "(tick2 ^^ n) (c, s) = (c\<lparr>ch_count := ch_count c - of_nat n\<rparr>, t)" "bit t 0"
    "bit t 5 \<longleftrightarrow> bit s 5 \<or> (\<exists>k. 0 < k \<and> k \<le> n \<and> ch_count c = of_nat k)" by blast
  have "(\<exists>k. 0 < k \<and> k \<le> Suc n \<and> ch_count c = of_nat k) \<longleftrightarrow>
      (\<exists>k. 0 < k \<and> k \<le> n \<and> ch_count c = of_nat k) \<or> ch_count c = of_nat (Suc n)"
    by (metis le_Suc_eq zero_less_Suc)
  then show ?case
    using tick2_mode_0 [of "c\<lparr>ch_count := ch_count c - of_nat n\<rparr>" t] assms t
    by (auto simp: algebra_simps)
qed (use assms in auto)

text \<open>C20 In mode 0 the output of channel 2 rises after exactly as many ticks as the count says, where
  0 stands for 65536: the output bit of the status register is low for that long and high afterwards.\<close>

theorem pit_one_shot:
  assumes "length (channels p) = 3" and "counting (channels p ! 2)" and "operating_mode (channels p ! 2) = 0"
    and "bit (NMI_STATUS p) 0" and "\<not> bit (NMI_STATUS p) 5"
  shows "bit (NMI_STATUS ((pit_update ^^ n) p)) 5 \<longleftrightarrow>
    (if ch_count (channels p ! 2) = 0 then 65536 else unat (ch_count (channels p ! 2))) \<le> n"
proof -
  define c where "c = ch_count (channels p ! 2)"
  have "bit (NMI_STATUS ((pit_update ^^ n) p)) 5 \<longleftrightarrow> (\<exists>k. 0 < k \<and> k \<le> n \<and> c = of_nat k)"
    using ticks2_mode_0 [of "channels p ! 2" "NMI_STATUS p" n] pit_updates_2 [of p n] assms by (auto simp: c_def)
  also have "\<dots> \<longleftrightarrow> (if c = 0 then 65536 else unat c) \<le> n"
  proof
    assume "\<exists>k. 0 < k \<and> k \<le> n \<and> c = of_nat k"
    then obtain k where k: "0 < k" "k \<le> n" "c = of_nat k" by blast
    then have u: "unat c = k mod 65536" by (simp add: unat_of_nat)
    show "(if c = 0 then 65536 else unat c) \<le> n"
    proof (cases "c = 0")
      case True
      then have "65536 dvd k" using u by auto
      then show ?thesis using k True dvd_imp_le by fastforce
    next
      case False
      then show ?thesis using u k(2) mod_less_eq_dividend [of k 65536] by simp
    qed
  next
    assume n: "(if c = 0 then 65536 else unat c) \<le> n"
    show "\<exists>k. 0 < k \<and> k \<le> n \<and> c = of_nat k"
    proof (cases "c = 0")
      case True
      then show ?thesis using n by (intro exI [of _ 65536]) simp
    next
      case False
      then show ?thesis using n by (intro exI [of _ "unat c"]) (simp add: unat_gt_0)
    qed
  qed
  finally show ?thesis by (simp add: c_def)
qed


lemma replicate_3: "replicate 3 x = [x, x, x]"
  by (simp add: numeral_3_eq_3)

theorem pit_one_shot_witness:
  "\<exists>p. pit_write 3 0xB0 1 pit_new = Some p \<and> (\<exists>q. pit_write 2 3 1 (p\<lparr>NMI_STATUS := 1\<rparr>) = Some q \<and>
     (\<exists>r. pit_write 2 0 1 q = Some r \<and> \<not> bit (NMI_STATUS ((pit_update ^^ 2) r)) 5 \<and> bit (NMI_STATUS ((pit_update ^^ 3) r)) 5))"
proof -
  let ?c = "\<lparr>ch_count = 3, reload_value = 3, access_mode = 3, operating_mode = 0, toggle = False, counting = True\<rparr>"
  let ?z = "\<lparr>ch_count = 0, reload_value = 0, access_mode = 0, operating_mode = 0, toggle = False, counting = False\<rparr>"
  let ?r = "\<lparr>channels = [?z, ?z, ?c], NMI_STATUS = 1\<rparr>"
  note defs = pit_new_def pit_write_def write_mode_def write_channel_def upd_channel_def set_channel_output_def
    Let_def out_low_in_mode_0_def with_lo_def with_hi_def reload_written_def
  have "pit_write 3 0xB0 1 pit_new = Some \<lparr>channels = [?z, ?z, ?c\<lparr>ch_count := 0, reload_value := 0, counting := False\<rparr>], NMI_STATUS = 0\<rparr>"
    by (simp add: defs replicate_3)
  moreover have "pit_write 2 3 1 \<lparr>channels = [?z, ?z, ?c\<lparr>ch_count := 0, reload_value := 0, counting := False\<rparr>], NMI_STATUS = 1\<rparr> =
      Some \<lparr>channels = [?z, ?z, ?c\<lparr>ch_count := 0, counting := False, toggle := True\<rparr>], NMI_STATUS = 1\<rparr>"
    by (simp add: defs)
  moreover have "pit_write 2 0 1 \<lparr>channels = [?z, ?z, ?c\<lparr>ch_count := 0, counting := False, toggle := True\<rparr>], NMI_STATUS = 1\<rparr> = Some ?r"
    by (simp add: defs)
  ultimately show ?thesis using pit_one_shot [of ?r 2] pit_one_shot [of ?r 3] by simp
qed

text \<open>In mode 2 the count runs from the reload value down to 2 and starts over.\<close>

lemma update_channel_gate [simp]: "bit (NMI_STATUS (update_channel i p)) 0 = bit (NMI_STATUS p) 0"
  by (auto simp: update_channel_def Let_def set_channel_output_def bit_simps bit_numeral_rec)

lemma pit_update_gate: "bit (NMI_STATUS (pit_update p)) 0 = bit (NMI_STATUS p) 0"
  by (simp add: pit_update_def)

lemma update_channel_mode_2:
  assumes "i < length (channels p)" and "counting (channels p ! i)" and "operating_mode (channels p ! i) = 2"
    and "i = 2 \<longrightarrow> bit (NMI_STATUS p) 0"
  shows "channels (update_channel i p) ! i = (let c = channels p ! i
    in c\<lparr>ch_count := (if ch_count c - 1 = 1 then reload_value c else ch_count c - 1)\<rparr>)"
  using assms by (auto simp: update_channel_def Let_def)

lemma pit_update_mode_2:
  assumes "length (channels p) = 3" and "i < 3" and "counting (channels p ! i)" and "operating_mode (channels p ! i) = 2"
    and "i = 2 \<longrightarrow> bit (NMI_STATUS p) 0"
  shows "channels (pit_update p) ! i = (let c = channels p ! i
    in c\<lparr>ch_count := (if ch_count c - 1 = 1 then reload_value c else ch_count c - 1)\<rparr>)"
proof -
  consider "i = 0" | "i = 1" | "i = 2" using assms(2) by linarith
  then show ?thesis
    by cases (use assms in \<open>simp_all add: pit_update_def update_channel_mode_2\<close>)
qed

lemma pit_updates_mode_2:
  assumes "length (channels p) = 3" and "i < 3" and "counting (channels p ! i)" and "operating_mode (channels p ! i) = 2"
    and "i = 2 \<longrightarrow> bit (NMI_STATUS p) 0" and "ch_count (channels p ! i) = r" and "reload_value (channels p ! i) = r"
    and "N = (if r = 0 then 65536 else unat r)" and "2 \<le> N"
  shows "channels ((pit_update ^^ n) p) ! i = (channels p ! i)\<lparr>ch_count := r - of_nat (n mod (N - 1))\<rparr> \<and>
    length (channels ((pit_update ^^ n) p)) = 3 \<and> bit (NMI_STATUS ((pit_update ^^ n) p)) 0 = bit (NMI_STATUS p) 0"
proof (induction n)
  case 0
  then show ?case using assms by auto
next
  case (Suc n)
  define k where "k = n mod (N - 1)"
  have k: "k < N - 1" using assms(9) by (simp add: k_def)
  have "unat r < 2 ^ LENGTH(16)" by (rule unsigned_less)
  then have N: "N \<le> 65536" "r = of_nat N"
    using assms(8) by auto
  have "r - of_nat k - 1 = of_nat (N - k - 1)" using k by (simp add: N(2) of_nat_diff)
  moreover have "(of_nat (N - k - 1) :: u16) = 1 \<longleftrightarrow> N - k - 1 = 1"
  proof -
    have "unat (of_nat (N - k - 1) :: u16) = N - k - 1" using N(1) assms(9) by (simp add: unat_of_nat)
    then show ?thesis by (metis of_nat_1 unsigned_1)
  qed
  ultimately have e: "r - of_nat k - 1 = 1 \<longleftrightarrow> Suc k = N - 1" using k by auto
  have m: "Suc n mod (N - 1) = (if Suc k = N - 1 then 0 else Suc k)"
    using mod_Suc [of n "N - 1"] by (simp add: k_def)
  define q where "q = (pit_update ^^ n) p"
  have q: "channels q ! i = (channels p ! i)\<lparr>ch_count := r - of_nat k\<rparr>" "length (channels q) = 3"
    "bit (NMI_STATUS q) 0 = bit (NMI_STATUS p) 0"
    using Suc by (simp_all add: q_def k_def)
  have "channels (pit_update q) ! i = (channels p ! i)\<lparr>ch_count := (if r - of_nat k - 1 = 1 then r else r - of_nat k - 1)\<rparr>"
    using pit_update_mode_2 [of q i] q assms(2-7) by (simp add: Let_def)
  moreover have "(if r - of_nat k - 1 = 1 then r else r - of_nat k - 1) = r - of_nat (Suc n mod (N - 1))"
    unfolding e m by (simp add: algebra_simps)
  ultimately show ?case using q(2,3) by (simp add: q_def [symmetric] pit_update_gate)
qed

lemma unat_u8: "unat (b :: u8) < 256"
proof -
  have "unat b < 2 ^ LENGTH(8)" by (rule unsigned_less)
  then show ?thesis by simp
qed

lemma unat_u16: "unat (w :: u16) < 65536"
proof -
  have "unat w < 2 ^ LENGTH(16)" by (rule unsigned_less)
  then show ?thesis by simp
qed

lemma ucast_8_16_32: "ucast (ucast (b :: u8) :: u16) = (ucast b :: u32)"
  by (rule bit_word_eqI) (auto simp: bit_simps dest: bit_imp_le_length)

lemma mask_8: "(0xFF :: 'a::len word) = mask 8"
  by (simp add: mask_eq_exp_minus_1)

lemma mask_hi_16: "(0xFF00 :: u16) = NOT (mask 8)"
  by (simp add: mask_eq_exp_minus_1)

text \<open>A 16-bit value put together from two bytes.\<close>

lemma two_bytes:
  fixes lo hi :: u8 and x w :: u16
  defines "w \<equiv> ((x AND 0xFF00 OR ucast (ucast lo :: u32)) AND 0xFF) OR ucast (push_bit 8 (ucast hi :: u32))"
  shows "w AND 0xFF = ucast lo" and "drop_bit 8 w = ucast hi" and "unat w = unat lo + 256 * unat hi"
proof -
  show l: "w AND 0xFF = ucast lo" unfolding w_def mask_8 mask_hi_16
    by (rule bit_word_eqI) (auto simp: bit_simps dest: bit_imp_le_length)
  show h: "drop_bit 8 w = ucast hi" unfolding w_def mask_8 mask_hi_16
    by (rule bit_word_eqI) (auto simp: bit_simps dest: bit_imp_le_length)
  have w16: "take_bit 16 (unat w) = unat w" "take_bit 16 (unat hi) = unat hi"
    using unat_u16 [of w] unat_u8 [of hi] by (simp_all add: take_bit_eq_mod)
  have "unat w = unat w mod 256 + 256 * (unat w div 256)" by simp
  moreover have "unat w mod 256 = unat lo"
    using arg_cong [OF l [unfolded mask_8], of unat] unat_u8 [of lo] by (simp add: take_bit_eq_mask [symmetric] unsigned_take_bit_eq)
      (simp add: take_bit_eq_mod unsigned_ucast_eq)
  moreover have "unat w div 256 = unat hi"
    using arg_cong [OF h, of unat] unat_u8 [of hi] by (simp add: unsigned_drop_bit_eq) (simp add: unsigned_ucast_eq drop_bit_eq_div w16)
  ultimately show "unat w = unat lo + 256 * unat hi" by simp
qed

lemma write_mode_ok:
  assumes "length (channels p) = 3" and "unat (drop_bit 6 v) < 3" and "\<not> bit v 0"
  shows "\<exists>p'. write_mode v p = Some p' \<and> length (channels p') = 3 \<and> \<not> toggle (channels p' ! unat (drop_bit 6 v)) \<and>
    access_mode (channels p' ! unat (drop_bit 6 v)) = ucast (drop_bit 4 v AND 3)"
  using assms unfolding write_mode_def Let_def by (simp del: One_nat_def)

text \<open>C19 A channel that is programmed byte by byte reads back as programmed: after a mode byte for
  low byte then high byte access, the two bytes written become the count that runs, and two reads
  return them in the same order.\<close>

theorem pit_program_readback:
  assumes "length (channels p) = 3" and "i < 3" and "v < 256" and "unat (drop_bit 6 v) = i"
    and "\<not> bit v 0" and "drop_bit 4 v AND 3 = (3 :: u32)"
  shows "\<exists>p1 p2 p3 p4 p5. pit_write 3 v 1 p = Some p1 \<and>
    pit_write (of_nat i) (ucast (lo :: u8)) 1 p1 = Some p2 \<and> pit_write (of_nat i) (ucast (hi :: u8)) 1 p2 = Some p3 \<and>
    counting (channels p3 ! i) \<and> unat (ch_count (channels p3 ! i)) = unat lo + 256 * unat hi \<and>
    pit_read (of_nat i) 1 p3 = Some (ucast lo, p4) \<and> pit_read (of_nat i) 1 p4 = Some (ucast hi, p5)"
proof -
  have i: "of_nat i < (3 :: u16)" "unat (of_nat i :: u16) = i" "i \<noteq> 3" "of_nat i \<noteq> (3 :: u16)" using assms(2)
    by (auto simp: word_less_nat_alt unat_of_nat word_unat_eq_iff)
  have b: "\<not> (255 :: u32) < ucast lo" "\<not> (255 :: u32) < ucast hi" "\<not> 255 < v"
    using unat_u8 [of lo] unat_u8 [of hi] assms(3) by (auto simp: word_less_nat_alt)
  have ac: "ucast (drop_bit 4 v AND 3) = (3 :: u8)" unfolding assms(6) by simp
  obtain p1 where p1: "pit_write 3 v 1 p = Some p1" "length (channels p1) = 3" "access_mode (channels p1 ! i) = 3"
    "\<not> toggle (channels p1 ! i)"
    using write_mode_ok [OF assms(1) _ assms(5)] assms(2,4) b(3) ac by (auto simp: pit_write_def)
  define r where "r = (reload_value (channels p1 ! i) AND 0xFF00) OR ucast (ucast lo :: u32)"
  obtain p2 where p2: "pit_write (of_nat i) (ucast lo) 1 p1 = Some p2" "length (channels p2) = 3"
    "access_mode (channels p2 ! i) = 3" "toggle (channels p2 ! i)" "reload_value (channels p2 ! i) = r"
    using p1 assms(2) i b by (auto simp: pit_write_def write_channel_def Let_def with_lo_def r_def)
  define w where "w = (r AND 0xFF) OR ucast (push_bit 8 (ucast hi :: u32))"
  obtain p3 where p3: "pit_write (of_nat i) (ucast hi) 1 p2 = Some p3" "length (channels p3) = 3"
    "access_mode (channels p3 ! i) = 3" "\<not> toggle (channels p3 ! i)" "ch_count (channels p3 ! i) = w" "counting (channels p3 ! i)"
    using p2 assms(2) i b
    by (auto simp: pit_write_def write_channel_def Let_def reload_written_def with_hi_def w_def)
  have w: "w AND 0xFF = ucast lo" "drop_bit 8 w = ucast hi" "unat w = unat lo + 256 * unat hi"
    using two_bytes [of "reload_value (channels p1 ! i)" lo hi] by (simp_all add: w_def r_def)
  obtain p4 where "pit_read (of_nat i) 1 p3 = Some (ucast lo, p4)" "pit_read (of_nat i) 1 p4 = Some (ucast hi, upd_channel i (\<lambda>c. c\<lparr>toggle := False\<rparr>) p4)"
    using p3 assms(2) i w(1,2) by (auto simp: pit_read_def Let_def ucast_8_16_32)
  then show ?thesis using p1(1) p2(1) p3(1,5,6) w(3) by blast
qed

theorem pit_program_readback_witness:
  "\<exists>p1 p2 p3 p4 p5. pit_write 3 0x74 1 pit_new = Some p1 \<and>
    pit_write 1 0x34 1 p1 = Some p2 \<and> pit_write 1 0x12 1 p2 = Some p3 \<and>
    counting (channels p3 ! 1) \<and> unat (ch_count (channels p3 ! 1)) = 0x1234 \<and>
    pit_read 1 1 p3 = Some (0x34, p4) \<and> pit_read 1 1 p4 = Some (0x12, p5)"
  using pit_program_readback [of pit_new 1 "0x74" "0x34" "0x12"] by (simp add: pit_new_def)

text \<open>C22 In mode 2 every channel counts from its reload value down to 2 and starts over, where a
  reload value of 0 stands for 65536: the period is one tick shorter than the reload value. The reload
  value must be at least 2, and channel 2 counts only while its gate, bit 0 of the NMI status register,
  is set.\<close>

theorem pit_rate_generator:
  assumes "length (channels p) = 3" and "i < 3" and "counting (channels p ! i)" and "operating_mode (channels p ! i) = 2"
    and "i = 2 \<longrightarrow> bit (NMI_STATUS p) 0" and "ch_count (channels p ! i) = r" and "reload_value (channels p ! i) = r"
    and "N = (if r = 0 then 65536 else unat r)" and "2 \<le> N"
  shows "ch_count (channels ((pit_update ^^ n) p) ! i) = r - of_nat (n mod (N - 1))"
  using pit_updates_mode_2 [OF assms, of n] by simp

theorem pit_rate_generator_witness:
  "let c = \<lparr>ch_count = 5, reload_value = 5, access_mode = 3, operating_mode = 2, toggle = False, counting = True\<rparr>;
       d = c\<lparr>ch_count := 0, reload_value := 0\<rparr>;
       p = \<lparr>channels = [c, d, c], NMI_STATUS = 1\<rparr>
   in ch_count (channels ((pit_update ^^ 3) p) ! 2) = 2 \<and> ch_count (channels ((pit_update ^^ 4) p) ! 2) = 5 \<and>
      ch_count (channels ((pit_update ^^ 65534) p) ! 1) = 2 \<and> ch_count (channels ((pit_update ^^ 65535) p) ! 1) = 0"
proof -
  let ?c = "\<lparr>ch_count = 5, reload_value = 5, access_mode = 3, operating_mode = 2, toggle = False, counting = True\<rparr>"
  let ?p = "\<lparr>channels = [?c, ?c\<lparr>ch_count := 0, reload_value := 0\<rparr>, ?c], NMI_STATUS = 1\<rparr>"
  have "ch_count (channels ((pit_update ^^ n) ?p) ! 2) = 5 - of_nat (n mod (5 - 1))" for n
    by (rule pit_rate_generator) simp_all
  moreover have "ch_count (channels ((pit_update ^^ n) ?p) ! 1) = 0 - of_nat (n mod (65536 - 1))" for n
    by (rule pit_rate_generator) simp_all
  ultimately show ?thesis by (simp add: Let_def)
qed

fun timers_run :: "u64 \<Rightarrow> u64 list \<Rightarrow> u64 \<times> pit \<Rightarrow> (u64 \<times> pit) option" where
  "timers_run freq [] s = Some s"
| "timers_run freq (e # es) s = do { s \<leftarrow> chipset_update_timers freq e s; timers_run freq es s }"

lemma update_timers_nat:
  assumes "0 < unat freq div 1193182" and "unat e + unat r < 2 ^ 64"
  shows "chipset_update_timers freq e (r, p) =
    Some (of_nat ((unat e + unat r) mod (unat freq div 1193182)), (pit_update ^^ ((unat e + unat r) div (unat freq div 1193182))) p)"
proof -
  have d: "unat (freq div 1193182) = unat freq div 1193182" by (simp add: unat_div)
  have a: "unat (e + r) = unat e + unat r" by (rule unat_add_small [OF assms(2)])
  have "freq div 1193182 \<noteq> 0" using assms(1) d by (metis less_numeral_extra(3) unsigned_0)
  moreover have "(e + r) mod (freq div 1193182) = of_nat ((unat e + unat r) mod (unat freq div 1193182))"
    using le_less_trans [OF mod_less_eq_dividend assms(2)] by (simp add: word_unat_eq_iff unat_mod a d unat_of_nat)
  ultimately show ?thesis by (simp add: chipset_update_timers_def unat_div a d)
qed

text \<open>C18 The timer update loses no time: over any sequence of intervals the timer makes as many ticks
  as fit the total of the intervals and the carried rest, and the new rest is what is left over.\<close>

theorem timers_no_drift:
  assumes "0 < unat freq div 1193182" and "unat r < unat freq div 1193182"
    and "\<forall>e \<in> set es. unat e + unat freq div 1193182 \<le> 2 ^ 64"
  shows "timers_run freq es (r, p) =
    Some (of_nat ((unat r + sum_list (map unat es)) mod (unat freq div 1193182)),
          (pit_update ^^ ((unat r + sum_list (map unat es)) div (unat freq div 1193182))) p)"
  using assms(2,3)
proof (induction es arbitrary: r p)
  case Nil
  then show ?case by simp
next
  case (Cons e es)
  define d where "d = unat freq div 1193182"
  define x where "x = unat e + unat r"
  define S where "S = sum_list (map unat es)"
  have "d < 2 ^ 64" using le_less_trans [OF div_le_dividend unat_lt64] by (simp add: d_def)
  moreover have "x mod d < d" using assms(1) by (simp add: d_def)
  ultimately have m: "unat (of_nat (x mod d) :: u64) = x mod d" "x mod d < d"
    by (auto intro!: unat_of_nat_small)
  have "x < 2 ^ 64" using Cons.prems by (auto simp: x_def)
  then have "timers_run freq (e # es) (r, p) = timers_run freq es (of_nat (x mod d), (pit_update ^^ (x div d)) p)"
    using update_timers_nat [OF assms(1), of e r p] by (simp add: x_def d_def)
  also have "\<dots> = Some (of_nat ((x mod d + S) mod d), (pit_update ^^ ((x mod d + S) div d)) ((pit_update ^^ (x div d)) p))"
    using Cons.IH [of "of_nat (x mod d)" "(pit_update ^^ (x div d)) p"] Cons.prems m by (simp add: d_def S_def)
  also have "(pit_update ^^ ((x mod d + S) div d)) ((pit_update ^^ (x div d)) p) = (pit_update ^^ ((x mod d + S) div d + x div d)) p"
    by (simp add: funpow_add)
  also have "(x mod d + S) div d + x div d = (x + S) div d"
  proof -
    have "x + S = x div d * d + (x mod d + S)" using div_mult_mod_eq [of x d] by linarith
    then show ?thesis using m(2) div_mult_self3 [of d "x div d" "x mod d + S"] by (metis add.commute less_nat_zero_code)
  qed
  also have "(x mod d + S) mod d = (x + S) mod d" by (simp add: mod_add_left_eq)
  finally show ?case by (simp add: x_def S_def d_def ac_simps)
qed

theorem timers_no_drift_witness:
  "timers_run 11931820 [7, 9, 6] (3, pit_new) = Some (5, (pit_update ^^ 2) pit_new)"
  using timers_no_drift [of 11931820 3 "[7, 9, 6]" pit_new] by simp

section \<open>Properties of the keyboard controller\<close>

definition i8042_inv :: "i8042 \<Rightarrow> bool" where
  "i8042_inv c \<longleftrightarrow> length (output_buffer c) = 16 \<and> length (input_buffer c) = 2 \<and> output_read_ptr c < 16 \<and>
     output_size c \<le> 16 \<and> output_write_ptr c = (output_read_ptr c + output_size c) mod 16 \<and>
     input_size c \<le> 2 \<and> cmd_args c \<le> 1"

definition out_elems :: "i8042 \<Rightarrow> u8 list" where
  "out_elems c = ring_slice (output_buffer c) (output_read_ptr c) (output_size c)"

lemma i8042_new_inv: "i8042_inv i8042_new" "out_elems i8042_new = []"
  by (simp_all add: i8042_inv_def i8042_new_def out_elems_def)

lemma inc8_small [simp]: "n < 255 \<Longrightarrow> inc8 n = Suc n"
  by (simp add: inc8_def)

lemma dec8_small [simp]: "0 < n \<Longrightarrow> n \<le> 255 \<Longrightarrow> dec8 n = n - 1"
  by (simp add: dec8_def le_mod_geq)

lemma out_push_inv:
  assumes "i8042_inv c" and "output_size c < 16"
  shows "i8042_inv (out_push b c)" and "out_elems (out_push b c) = out_elems c @ [b]"
proof -
  have w: "output_write_ptr c < 16" using assms by (simp add: i8042_inv_def)
  show "i8042_inv (out_push b c)" using assms w
    by (auto simp: i8042_inv_def out_push_def mod_Suc_eq)
  show "out_elems (out_push b c) = out_elems c @ [b]"
    using ring_slice_push [of "output_write_ptr c" "output_read_ptr c" "output_size c" "output_buffer c" b] assms
    by (simp add: i8042_inv_def out_push_def out_elems_def)
qed

lemma out_push_frame [simp]:
  "input_buffer (out_push b c) = input_buffer c" "input_size (out_push b c) = input_size c"
  "current_cmd (out_push b c) = current_cmd c" "current_dev_cmd (out_push b c) = current_dev_cmd c"
  "cmd_args (out_push b c) = cmd_args c" "scancode_set (out_push b c) = scancode_set c"
  "config (out_push b c) = config c" "output_size (out_push b c) = inc8 (output_size c)"
  by (simp_all add: out_push_def)

lemma out_push_room_inv:
  assumes "i8042_inv c"
  shows "i8042_inv (out_push_room b c) \<and>
    out_elems (out_push_room b c) = out_elems c @ (if output_size c < 16 then [b] else [])"
  using assms out_push_inv [OF assms] by (auto simp: out_push_room_def i8042_inv_def)

lemma in_shift_inv:
  assumes "i8042_inv c" and "0 < input_size c"
  shows "i8042_inv (in_shift c)" "out_elems (in_shift c) = out_elems c" "output_size (in_shift c) = output_size c"
    "input_size (in_shift c) = input_size c - 1" "input_buffer (in_shift c) = [input_buffer c ! 1, input_buffer c ! 1]"
proof -
  have "input_buffer c = [input_buffer c ! 0, input_buffer c ! 1]"
    using assms by (auto simp: i8042_inv_def length_Suc_conv numeral_2_eq_2)
  then obtain a b where ab: "input_buffer c = [a, b]" by blast
  show "i8042_inv (in_shift c)" "out_elems (in_shift c) = out_elems c" "output_size (in_shift c) = output_size c"
    "input_size (in_shift c) = input_size c - 1" "input_buffer (in_shift c) = [input_buffer c ! 1, input_buffer c ! 1]"
    using assms by (auto simp: in_shift_def i8042_inv_def out_elems_def ab)
qed

lemma i8042_upd [simp]:
  "i8042_inv (c\<lparr>current_cmd := x\<rparr>) = i8042_inv c" "out_elems (c\<lparr>current_cmd := x\<rparr>) = out_elems c"
  "i8042_inv (c\<lparr>current_dev_cmd := x\<rparr>) = i8042_inv c" "out_elems (c\<lparr>current_dev_cmd := x\<rparr>) = out_elems c"
  "i8042_inv (c\<lparr>config := x\<rparr>) = i8042_inv c" "out_elems (c\<lparr>config := x\<rparr>) = out_elems c"
  "i8042_inv (c\<lparr>port1_enabled := y\<rparr>) = i8042_inv c" "out_elems (c\<lparr>port1_enabled := y\<rparr>) = out_elems c"
  "i8042_inv (c\<lparr>port2_enabled := y\<rparr>) = i8042_inv c" "out_elems (c\<lparr>port2_enabled := y\<rparr>) = out_elems c"
  "i8042_inv (c\<lparr>dev_kb_scanning := y\<rparr>) = i8042_inv c" "out_elems (c\<lparr>dev_kb_scanning := y\<rparr>) = out_elems c"
  "i8042_inv (c\<lparr>scancode_set := x\<rparr>) = i8042_inv c" "out_elems (c\<lparr>scancode_set := x\<rparr>) = out_elems c"
  "out_elems (c\<lparr>cmd_args := n\<rparr>) = out_elems c" "n \<le> 1 \<Longrightarrow> i8042_inv c \<Longrightarrow> i8042_inv (c\<lparr>cmd_args := n\<rparr>)"
  by (simp_all add: i8042_inv_def out_elems_def)

text \<open>A step appends what it produces to the pending output.\<close>

definition appends :: "i8042 \<Rightarrow> i8042 \<Rightarrow> bool" where
  "appends c c' \<longleftrightarrow> i8042_inv c' \<and> (\<exists>bs. out_elems c' = out_elems c @ bs)"

lemma handle_cmd_appends:
  assumes "i8042_inv c" and "output_size c < 16" and "current_cmd c = 0x60 \<Longrightarrow> 0 < input_size c"
  shows "appends c (handle_cmd c)"
  using assms out_push_inv [OF assms(1,2)] in_shift_inv [of "c\<lparr>config := input_buffer c ! 0\<rparr>"]
  by (simp add: handle_cmd_def appends_def)

lemma appends_refl: "i8042_inv c \<Longrightarrow> appends c c"
  by (simp add: appends_def)

lemma appends_trans: "appends c d \<Longrightarrow> appends d e \<Longrightarrow> appends c e"
  by (auto simp: appends_def)

lemma appends_room: "i8042_inv c \<Longrightarrow> appends c (out_push_room b c)"
  using out_push_room_inv by (auto simp: appends_def)

lemma appends_same: "i8042_inv d \<Longrightarrow> out_elems d = out_elems c \<Longrightarrow> appends d e \<Longrightarrow> appends c e"
  by (auto simp: appends_def)

lemma kbd_handle_cmd_appends:
  assumes "i8042_inv c" and "current_dev_cmd c = 0xF0 \<Longrightarrow> 0 < input_size c"
  shows "appends c (kbd_handle_cmd c)"
proof -
  consider (f0) "current_dev_cmd c = 0xF0" | (ff) "current_dev_cmd c = 0xFF" "output_size c < 15"
    | (other) "current_dev_cmd c \<noteq> 0xF0" "current_dev_cmd c = 0xFF \<longrightarrow> output_size c \<ge> 15" by force
  then show ?thesis
  proof cases
    case f0
    define d where "d = in_shift c"
    have d: "i8042_inv d" "out_elems d = out_elems c" using in_shift_inv assms f0 by (auto simp: d_def)
    define e where "e = (if input_buffer c ! 0 = 0 then out_push_room (scancode_set d) d else d\<lparr>scancode_set := input_buffer c ! 0\<rparr>)"
    have "appends d e" using appends_room [OF d(1)] d by (auto simp: e_def appends_def)
    then have "appends c e" using d by (auto simp: appends_def)
    moreover have "kbd_handle_cmd c = out_push_room 0xFA e" using f0 by (simp add: kbd_handle_cmd_def e_def d_def Let_def)
    ultimately show ?thesis using appends_room appends_trans by (metis appends_def)
  next
    case ff
    then have "i8042_inv (out_push 0xFA c)" "output_size (out_push 0xFA c) < 16" "out_elems (out_push 0xFA c) = out_elems c @ [0xFA]"
      using out_push_inv [OF assms(1)] by simp_all
    then show ?thesis using ff out_push_inv [of "out_push 0xFA c" "0xAA"] by (simp add: kbd_handle_cmd_def appends_def)
  next
    case other
    then show ?thesis using assms(1) appends_room [of "c\<lparr>dev_kb_scanning := True\<rparr>" "0xFA"] appends_room [of "c\<lparr>dev_kb_scanning := False\<rparr>" "0xFA"]
      by (auto simp: kbd_handle_cmd_def appends_def)
  qed
qed

lemma data_write_appends:
  assumes "i8042_inv c" and "output_size c < 16"
  shows "\<exists>c'. i8042_data_write v c = Some c' \<and> appends c c'"
proof -
  define d where "d = (if input_size c < 2
     then c\<lparr>input_buffer := (input_buffer c)[input_size c := v], input_size := inc8 (input_size c)\<rparr> else c)"
  have d: "i8042_inv d" "out_elems d = out_elems c" "0 < input_size d" "cmd_args d \<le> input_size d" "output_size d < 16"
    using assms by (auto simp: d_def i8042_inv_def out_elems_def)
  have e: "i8042_inv (in_shift d)" "out_elems (in_shift d) = out_elems c" using in_shift_inv [OF d(1,3)] d(2) by simp_all
  have 1: "appends c ((handle_cmd d)\<lparr>current_cmd := 0\<rparr>)"
    using handle_cmd_appends [OF d(1,5,3)] d(2) by (auto simp: appends_def)
  have 2: "appends c ((kbd_handle_cmd d)\<lparr>current_dev_cmd := 0\<rparr>)"
    using kbd_handle_cmd_appends [OF d(1,3)] d(2) by (auto simp: appends_def)
  have 3: "appends c (out_push_room 0xFA ((in_shift d)\<lparr>current_dev_cmd := w, cmd_args := 1\<rparr>))" for w
    using appends_room [of "(in_shift d)\<lparr>current_dev_cmd := w, cmd_args := 1\<rparr>" "0xFA"] e by (auto simp: appends_def)
  have 4: "appends c ((kbd_handle_cmd ((in_shift d)\<lparr>current_dev_cmd := w\<rparr>))\<lparr>current_dev_cmd := 0\<rparr>)" if "w \<noteq> 0xF0" for w
    using kbd_handle_cmd_appends [of "(in_shift d)\<lparr>current_dev_cmd := w\<rparr>"] e that by (auto simp: appends_def)
  show ?thesis
    unfolding i8042_data_write_def d_def [symmetric] Let_def using 1 2 3 4 d(4) by (simp add: in_shift_def)
qed

text \<open>C17 The keyboard controller keeps its pending output as a queue: a read of the data port takes
  the oldest byte, or returns 0 when there is none, and while fewer than 16 bytes are pending every
  write to either port trips no assertion and only appends to the queue.\<close>

theorem i8042_output_queue:
  assumes "i8042_inv c"
  shows "i8042_inv (snd (i8042_read 0 c)) \<and> out_elems (snd (i8042_read 0 c)) = tl (out_elems c) \<and>
    fst (i8042_read 0 c) = (if out_elems c = [] then 0 else hd (out_elems c)) \<and>
    (length (out_elems c) < 16 \<longrightarrow>
      (\<exists>c' bs. i8042_write off v c = Some c' \<and> i8042_inv c' \<and> out_elems c' = out_elems c @ bs))"
proof -
  have r: "i8042_inv (snd (i8042_read 0 c)) \<and> out_elems (snd (i8042_read 0 c)) = tl (out_elems c) \<and>
    fst (i8042_read 0 c) = (if out_elems c = [] then 0 else hd (out_elems c))"
  proof (cases "output_size c")
    case 0
    then show ?thesis using assms by (simp add: i8042_read_def out_elems_def)
  next
    case (Suc n)
    have sl: "out_elems c = output_buffer c ! output_read_ptr c # ring_slice (output_buffer c) (Suc (output_read_ptr c)) n"
      using assms by (simp add: out_elems_def Suc ring_slice_Suc i8042_inv_def)
    have "ring_slice (output_buffer c) (Suc (output_read_ptr c) mod 16) n = ring_slice (output_buffer c) (Suc (output_read_ptr c)) n"
      using assms by (metis ring_slice_mod i8042_inv_def)
    then show ?thesis using assms Suc unfolding sl by (simp add: i8042_read_def out_elems_def i8042_inv_def mod_add_left_eq)
  qed
  have "\<exists>c' bs. i8042_write off v c = Some c' \<and> i8042_inv c' \<and> out_elems c' = out_elems c @ bs" if "length (out_elems c) < 16"
  proof -
    have o: "output_size c < 16" using that by (simp add: out_elems_def)
    have "\<exists>c'. i8042_write off v c = Some c' \<and> appends c c'"
      using data_write_appends [OF assms o] handle_cmd_appends [of "c\<lparr>current_cmd := v, cmd_args := 0\<rparr>"] assms o
      by (auto simp: i8042_write_def Let_def appends_def)
    then show ?thesis by (auto simp: appends_def)
  qed
  then show ?thesis using r by blast
qed

theorem i8042_output_queue_witness:
  "\<exists>c. i8042_write 4 0xAA i8042_new = Some c \<and> i8042_inv c \<and> out_elems c = [0x55] \<and> fst (i8042_read 0 c) = 0x55 \<and>
     out_elems (snd (i8042_read 0 c)) = []"
proof -
  define c where "c = out_push 0x55 (i8042_new\<lparr>current_cmd := 0xAA, cmd_args := 0\<rparr>)"
  have "i8042_write 4 0xAA i8042_new = Some c" by (simp add: i8042_write_def handle_cmd_def c_def)
  moreover have "i8042_inv c" "out_elems c = [0x55]"
    using i8042_output_queue [of i8042_new 4 "0xAA"] calculation
      out_push_inv [of "i8042_new\<lparr>current_cmd := 0xAA, cmd_args := 0\<rparr>" "0x55"]
    by (auto simp: i8042_new_inv c_def) (simp add: i8042_new_def)
  ultimately show ?thesis using i8042_output_queue [of c] by simp
qed

text \<open>The controller after the byte of a data write is stored in the input buffer.\<close>

definition with_input :: "u8 \<Rightarrow> i8042 \<Rightarrow> i8042" where
  "with_input v c = (if input_size c < 2
     then c\<lparr>input_buffer := (input_buffer c)[input_size c := v], input_size := Suc (input_size c)\<rparr> else c)"

lemma with_input_inv:
  assumes "i8042_inv c"
  shows "i8042_inv (with_input v c)" "out_elems (with_input v c) = out_elems c" "output_size (with_input v c) = output_size c"
  using assms by (auto simp: with_input_def i8042_inv_def out_elems_def)

lemma handle_cmd_frame:
  assumes "current_cmd c \<noteq> 0x60"
  shows "current_cmd (handle_cmd c) = current_cmd c" "current_dev_cmd (handle_cmd c) = current_dev_cmd c"
    "scancode_set (handle_cmd c) = scancode_set c" "dev_kb_scanning (handle_cmd c) = dev_kb_scanning c"
    "input_size (handle_cmd c) = input_size c" "input_buffer (handle_cmd c) = input_buffer c" "cmd_args (handle_cmd c) = cmd_args c"
  using assms by (auto simp: handle_cmd_def out_push_def)

lemma handle_cmd_answer:
  assumes "i8042_inv c" and "output_size c < 16" and "current_cmd c \<in> {0xA9, 0xAA, 0xAB}"
  shows "i8042_inv (handle_cmd c)" "out_elems (handle_cmd c) = out_elems c @ [if current_cmd c = 0xAA then 0x55 else 0]"
    "output_size (handle_cmd c) = Suc (output_size c)"
  using out_push_inv [OF assms(1,2)] assms(2,3) by (auto simp: handle_cmd_def)

text \<open>C21 A command without arguments is not forgotten once it is carried out. For every command but
  60 (and 0, which stands for none), in every state, the byte written to the data port next runs the
  command a second time instead of reaching the keyboard: no keyboard command starts or takes it as its
  argument, and it stays in the input buffer. The self test and the two port tests so answer twice,
  given room for two bytes.\<close>

theorem i8042_command_runs_twice:
  assumes "cmd \<noteq> 0" and "cmd \<noteq> 0x60"
  shows "\<exists>c1 c2. i8042_write 4 cmd c = Some c1 \<and> i8042_write 0 v c1 = Some c2 \<and>
    c2 = (handle_cmd (with_input v c1))\<lparr>current_cmd := 0\<rparr> \<and> current_cmd c1 = cmd \<and>
    current_dev_cmd c2 = current_dev_cmd c \<and> scancode_set c2 = scancode_set c \<and> dev_kb_scanning c2 = dev_kb_scanning c \<and>
    input_size c2 = (if input_size c < 2 then input_size c + 1 else input_size c) \<and>
    input_buffer c2 = (if input_size c < 2 then (input_buffer c)[input_size c := v] else input_buffer c) \<and>
    (cmd \<in> {0xA9, 0xAA, 0xAB} \<and> i8042_inv c \<and> length (out_elems c) < 15 \<longrightarrow>
      (let r = if cmd = 0xAA then 0x55 else 0 in out_elems c2 = out_elems c @ [r, r]))"
proof -
  define c0 where "c0 = c\<lparr>current_cmd := cmd, cmd_args := 0\<rparr>"
  define c1 where "c1 = handle_cmd c0"
  define d where "d = with_input v c1"
  have 1: "i8042_write 4 cmd c = Some c1" using assms(2) by (simp add: i8042_write_def c1_def c0_def Let_def)
  have f: "current_cmd c1 = cmd" "current_dev_cmd c1 = current_dev_cmd c" "scancode_set c1 = scancode_set c"
    "dev_kb_scanning c1 = dev_kb_scanning c" "input_size c1 = input_size c" "input_buffer c1 = input_buffer c" "cmd_args c1 = 0"
    using assms(2) by (simp_all add: c1_def handle_cmd_frame c0_def)
  then have g: "current_cmd d = cmd" "current_dev_cmd d = current_dev_cmd c" "scancode_set d = scancode_set c"
    "dev_kb_scanning d = dev_kb_scanning c" "input_size d = (if input_size c < 2 then input_size c + 1 else input_size c)"
    "input_buffer d = (if input_size c < 2 then (input_buffer c)[input_size c := v] else input_buffer c)"
    by (simp_all add: d_def with_input_def)
  have 2: "i8042_write 0 v c1 = Some ((handle_cmd d)\<lparr>current_cmd := 0\<rparr>)"
    using assms(1) f by (simp add: i8042_write_def i8042_data_write_def d_def with_input_def)
  have "out_elems ((handle_cmd d)\<lparr>current_cmd := 0\<rparr>) = out_elems c @ [r, r]"
    if "cmd \<in> {0xA9, 0xAA, 0xAB}" "i8042_inv c" "length (out_elems c) < 15" "r = (if cmd = 0xAA then 0x55 else 0)" for r
  proof -
    have c0: "i8042_inv c0" "output_size c0 < 16" "out_elems c0 = out_elems c" "current_cmd c0 = cmd"
      using that(2,3) by (auto simp: c0_def out_elems_def)
    have c1: "i8042_inv c1" "out_elems c1 = out_elems c @ [r]" "output_size c1 < 16"
      using handle_cmd_answer [OF c0(1,2)] c0(3,4) that by (simp_all add: c1_def) (auto simp: c0_def out_elems_def)
    then show ?thesis
      using handle_cmd_answer [of d] with_input_inv [OF c1(1), of v] g(1) that(1,4) by (auto simp: d_def)
  qed
  then show ?thesis
    using 1 2 f(1) handle_cmd_frame [of d] g assms(2)
    by (intro exI [of _ c1] exI [of _ "(handle_cmd d)\<lparr>current_cmd := 0\<rparr>"]) (simp add: Let_def d_def [symmetric])
qed

theorem i8042_command_runs_twice_witness:
  "\<exists>c1 c2. i8042_write 4 0xAA i8042_new = Some c1 \<and> i8042_write 0 0xF4 c1 = Some c2 \<and>
     out_elems c2 = [0x55, 0x55] \<and> \<not> dev_kb_scanning c2 \<and> input_size c2 = 1"
proof -
  have "input_size i8042_new = 0" "\<not> dev_kb_scanning i8042_new" by (simp_all add: i8042_new_def)
  then show ?thesis
    using i8042_command_runs_twice [of "0xAA" i8042_new "0xF4"] by (auto simp: i8042_new_inv Let_def)
qed

lemma out_push_room_push: "output_size c < 16 \<Longrightarrow> out_push_room b c = out_push b c"
  by (simp add: out_push_room_def)

text \<open>The state behind the input byte that a data write stores first.\<close>

definition stored :: "u8 \<Rightarrow> i8042 \<Rightarrow> i8042" where
  "stored v c = c\<lparr>input_buffer := (input_buffer c)[0 := v], input_size := 1\<rparr>"

lemma stored_inv:
  assumes "i8042_inv c"
  shows "i8042_inv (stored v c)" "out_elems (stored v c) = out_elems c" "input_size (stored v c) = 1"
    "input_buffer (stored v c) ! 0 = v" "output_size (stored v c) = output_size c"
    "scancode_set (stored v c) = scancode_set c"
  using assms by (auto simp: stored_def i8042_inv_def out_elems_def)

lemma in_shift_frame [simp]:
  "current_cmd (in_shift c) = current_cmd c" "current_dev_cmd (in_shift c) = current_dev_cmd c"
  "scancode_set (in_shift c) = scancode_set c" "config (in_shift c) = config c"
  by (simp_all add: in_shift_def)

lemma kbd_prefix_f0:
  assumes "i8042_inv c" and "input_size c = 0" and "current_cmd c = 0" and "current_dev_cmd c = 0" and "output_size c < 16"
  shows "\<exists>c'. i8042_write 0 0xF0 c = Some c' \<and> i8042_inv c' \<and> input_size c' = 0 \<and> current_cmd c' = 0 \<and>
    current_dev_cmd c' = 0xF0 \<and> out_elems c' = out_elems c @ [0xFA] \<and> scancode_set c' = scancode_set c"
proof -
  define d where "d = (in_shift (stored 0xF0 c))\<lparr>current_dev_cmd := 0xF0, cmd_args := 1\<rparr>"
  have d: "i8042_inv d" "out_elems d = out_elems c" "output_size d = output_size c" "input_size d = 0" "scancode_set d = scancode_set c"
    "current_cmd d = current_cmd c"
    using in_shift_inv [OF stored_inv(1), of c "0xF0"] stored_inv [of c "0xF0"] assms(1) by (simp_all add: d_def)
      (simp add: stored_def)
  have "i8042_write 0 0xF0 c = Some (out_push 0xFA d)"
    using assms d(3) by (simp add: i8042_write_def i8042_data_write_def Let_def d_def stored_def out_push_room_push)
  then show ?thesis using out_push_inv [of d "0xFA"] d assms by (simp add: d_def)
qed

lemma kbd_arg_f0:
  assumes "i8042_inv c" and "input_size c = 0" and "current_cmd c = 0" and "current_dev_cmd c = 0xF0" and "output_size c < 15"
  shows "\<exists>c'. i8042_write 0 n c = Some c' \<and> i8042_inv c' \<and> input_size c' = 0 \<and> current_cmd c' = 0 \<and>
    current_dev_cmd c' = 0 \<and> scancode_set c' = (if n = 0 then scancode_set c else n) \<and>
    out_elems c' = out_elems c @ (if n = 0 then [scancode_set c, 0xFA] else [0xFA])"
proof -
  define d where "d = in_shift (stored n c)"
  have d: "i8042_inv d" "out_elems d = out_elems c" "output_size d = output_size c" "input_size d = 0" "scancode_set d = scancode_set c"
    "current_cmd d = current_cmd c"
    using in_shift_inv [OF stored_inv(1), of c n] stored_inv [of c n] assms(1) by (simp_all add: d_def) (simp add: stored_def)
  define e where "e = (if n = 0 then out_push (scancode_set d) d else d\<lparr>scancode_set := n\<rparr>)"
  have e: "i8042_inv e" "out_elems e = out_elems c @ (if n = 0 then [scancode_set c] else [])" "output_size e < 16"
    "input_size e = 0" "scancode_set e = (if n = 0 then scancode_set c else n)" "current_cmd e = 0"
    using d out_push_inv [of d "scancode_set d"] assms by (auto simp: e_def)
  have "i8042_write 0 n c = Some ((out_push 0xFA e)\<lparr>current_dev_cmd := 0\<rparr>)"
  proof -
    have "1 \<ge> cmd_args c" using assms(1) by (simp add: i8042_inv_def)
    then have "i8042_write 0 n c = Some ((kbd_handle_cmd (stored n c))\<lparr>current_dev_cmd := 0\<rparr>)"
      using assms by (simp add: i8042_write_def i8042_data_write_def Let_def stored_def)
    moreover have "kbd_handle_cmd (stored n c) = out_push 0xFA e"
      using e(3) d(3) assms(4,5) stored_inv(4) [OF assms(1), of n] 
      by (simp add: kbd_handle_cmd_def Let_def e_def d_def [symmetric] out_push_room_push) (simp add: stored_def)
    ultimately show ?thesis by simp
  qed
  then show ?thesis using out_push_inv [OF e(1,3), of "0xFA"] e by simp
qed

lemma config_write:
  assumes "i8042_inv c" and "input_size c = 0"
  shows "\<exists>c1 c2. i8042_write 4 0x60 c = Some c1 \<and> i8042_write 0 v c1 = Some c2 \<and> config c2 = v \<and>
      input_size c2 = 0 \<and> current_cmd c2 = 0 \<and> out_elems c2 = out_elems c"
proof -
  define c1 where "c1 = c\<lparr>current_cmd := 0x60, cmd_args := 1\<rparr>"
  have c1: "i8042_inv c1" "input_size c1 = 0" "current_cmd c1 = 0x60" "cmd_args c1 = 1" "out_elems c1 = out_elems c"
    using assms by (simp_all add: c1_def)
  define d where "d = (stored v c1)\<lparr>config := v\<rparr>"
  have d: "i8042_inv d" "out_elems d = out_elems c" "input_size d = 1" using stored_inv [OF c1(1), of v] c1 by (auto simp: d_def)
  have "i8042_write 0 v c1 = Some ((in_shift d)\<lparr>current_cmd := 0\<rparr>)"
    using c1 stored_inv(4) [OF c1(1), of v]
    by (simp add: i8042_write_def i8042_data_write_def Let_def handle_cmd_def d_def stored_def)
  moreover have "i8042_write 4 0x60 c = Some c1" by (simp add: i8042_write_def c1_def)
  ultimately show ?thesis using in_shift_inv [OF d(1)] d by (simp add: d_def)
qed

text \<open>With no command pending and an empty input buffer, the configuration byte that follows
  command 60 is stored, and the scan code set that is written to the keyboard is the one it reports
  when asked, each byte acknowledged.\<close>

theorem i8042_config_and_scancode_set:
  assumes "i8042_inv c" and "input_size c = 0" and "out_elems c = []" and "current_dev_cmd c = 0" and "current_cmd c = 0"
    and "n \<noteq> 0"
  shows "(\<exists>c1 c2. i8042_write 4 0x60 c = Some c1 \<and> i8042_write 0 v c1 = Some c2 \<and> config c2 = v \<and>
      input_size c2 = 0 \<and> current_cmd c2 = 0 \<and> out_elems c2 = []) \<and>
    (\<exists>c1 c2 c3 c4. i8042_write 0 0xF0 c = Some c1 \<and> i8042_write 0 n c1 = Some c2 \<and>
      i8042_write 0 0xF0 c2 = Some c3 \<and> i8042_write 0 0 c3 = Some c4 \<and> scancode_set c2 = n \<and>
      out_elems c4 = [0xFA, 0xFA, 0xFA, n, 0xFA])"
proof
  show "\<exists>c1 c2. i8042_write 4 0x60 c = Some c1 \<and> i8042_write 0 v c1 = Some c2 \<and> config c2 = v \<and>
      input_size c2 = 0 \<and> current_cmd c2 = 0 \<and> out_elems c2 = []"
    using config_write [OF assms(1,2), of v] assms(3) by simp
  have len: "output_size d = length (out_elems d)" for d by (simp add: out_elems_def)
  obtain c1 where 1: "i8042_write 0 0xF0 c = Some c1" "i8042_inv c1" "input_size c1 = 0" "current_cmd c1 = 0"
    "current_dev_cmd c1 = 0xF0" "out_elems c1 = [0xFA]"
    using kbd_prefix_f0 [OF assms(1,2,5,4)] assms(3) len [of c] by auto
  obtain c2 where 2: "i8042_write 0 n c1 = Some c2" "i8042_inv c2" "input_size c2 = 0" "current_cmd c2 = 0"
    "current_dev_cmd c2 = 0" "out_elems c2 = [0xFA, 0xFA]" "scancode_set c2 = n"
    using kbd_arg_f0 [OF 1(2-5), of n] 1(6) assms(6) len [of c1] by auto
  obtain c3 where 3: "i8042_write 0 0xF0 c2 = Some c3" "i8042_inv c3" "input_size c3 = 0" "current_cmd c3 = 0"
    "current_dev_cmd c3 = 0xF0" "out_elems c3 = [0xFA, 0xFA, 0xFA]" "scancode_set c3 = n"
    using kbd_prefix_f0 [OF 2(2-5)] 2(6,7) len [of c2] by auto
  obtain c4 where 4: "i8042_write 0 0 c3 = Some c4" "out_elems c4 = [0xFA, 0xFA, 0xFA, n, 0xFA]"
    using kbd_arg_f0 [OF 3(2-5), of 0] 3(6,7) len [of c3] by auto
  show "\<exists>c1 c2 c3 c4. i8042_write 0 0xF0 c = Some c1 \<and> i8042_write 0 n c1 = Some c2 \<and>
      i8042_write 0 0xF0 c2 = Some c3 \<and> i8042_write 0 0 c3 = Some c4 \<and> scancode_set c2 = n \<and>
      out_elems c4 = [0xFA, 0xFA, 0xFA, n, 0xFA]"
    using 1(1) 2(1,7) 3(1) 4 by blast
qed

theorem i8042_config_and_scancode_set_witness:
  "\<exists>c1 c2. i8042_write 4 0x60 i8042_new = Some c1 \<and> i8042_write 0 0x47 c1 = Some c2 \<and> config c2 = 0x47 \<and>
      input_size c2 = 0 \<and> current_cmd c2 = 0 \<and> out_elems c2 = []"
proof -
  have "input_size i8042_new = 0" "current_dev_cmd i8042_new = 0" "current_cmd i8042_new = 0" by (simp_all add: i8042_new_def)
  then show ?thesis using i8042_config_and_scancode_set [OF i8042_new_inv(1) _ i8042_new_inv(2), of 2 "0x47"] by simp
qed

end
