(* ===== verification/Evm_Pci.thy ===== *)
theory Evm_Pci
  imports Ring "HOL-Library.Monad_Syntax"
begin

text \<open>
  The PCI devices and the display registers of the virtual machine monitor,
  \<open>src/apps/evm/src/pci.hpp\<close>, \<open>pci.cpp\<close> and \<open>vga.cpp\<close>, and the calls that map memory into the
  guest, from \<open>vm.cpp\<close>.

  The configuration space of a device is its list of bytes. The system calls of the hypervisor are
  parameters that work on a host state; a failed call trips an assertion. A copy beyond a
  buffer, which the source does not check, is the result \<open>None\<close>, as a failed assertion is.
\<close>

section \<open>Little endian bytes\<close>

definition le_bytes :: "nat \<Rightarrow> u32 \<Rightarrow> u8 list" where
  "le_bytes n v = map (\<lambda>i. ucast (drop_bit (8 * i) v)) [0 ..< n]"

fun of_le :: "u8 list \<Rightarrow> u32" where
  "of_le [] = 0"
| "of_le (b # bs) = ucast b OR push_bit 8 (of_le bs)"

section \<open>Configuration space\<close>

record pci_address =
  bus :: u8
  dev :: u8
  func :: u8

record pci_config =
  cfg :: "u8 list"
  bars :: "u64 list"
  bar_sizes :: "u32 list"
  bar_allocated :: "u32 list"

record pci_device =
  pci_addr :: pci_address
  pci_cfg :: pci_config

definition write8 :: "nat \<Rightarrow> u8 \<Rightarrow> pci_config \<Rightarrow> pci_config" where
  "write8 offset v c = c\<lparr>cfg := blit (cfg c) offset [v]\<rparr>"

definition write16 :: "nat \<Rightarrow> u16 \<Rightarrow> pci_config \<Rightarrow> pci_config" where
  "write16 offset v c = c\<lparr>cfg := blit (cfg c) offset (le_bytes 2 (ucast v))\<rparr>"

definition write32 :: "nat \<Rightarrow> u32 \<Rightarrow> pci_config \<Rightarrow> pci_config" where
  "write32 offset v c = c\<lparr>cfg := blit (cfg c) offset (le_bytes 4 v)\<rparr>"

definition read32 :: "nat \<Rightarrow> pci_config \<Rightarrow> u32" where
  "read32 offset c = of_le (take 4 (drop offset (cfg c)))"

definition set_device :: "u16 \<Rightarrow> u16 \<Rightarrow> pci_config \<Rightarrow> pci_config" where
  "set_device vendor device c = write16 2 device (write16 0 vendor c)"

definition set_class :: "u8 \<Rightarrow> u8 \<Rightarrow> u8 \<Rightarrow> u8 \<Rightarrow> pci_config \<Rightarrow> pci_config" where
  "set_class clazz subclass prog_if revision c =
     write8 11 clazz (write8 10 subclass (write8 9 prog_if (write8 8 revision c)))"

text \<open>The source ignores its argument and always writes type 0.\<close>

definition set_type :: "u8 \<Rightarrow> pci_config \<Rightarrow> pci_config" where
  "set_type type c = write8 0xE 0 c"

definition set_subsystem :: "u16 \<Rightarrow> u16 \<Rightarrow> pci_config \<Rightarrow> pci_config" where
  "set_subsystem vendor device c = write16 0x2E device (write16 0x2C vendor c)"

definition set_bar :: "nat \<Rightarrow> u32 \<Rightarrow> pci_config \<Rightarrow> pci_config" where
  "set_bar bar v c = write32 (0x10 + bar * 4) v c"

definition get_bar :: "nat \<Rightarrow> pci_config \<Rightarrow> u32" where
  "get_bar bar c = read32 (0x10 + bar * 4) c"

definition set_expansion_rom :: "u32 \<Rightarrow> pci_config \<Rightarrow> pci_config" where
  "set_expansion_rom v c = write32 0x30 v c"

definition get_expansion_rom :: "pci_config \<Rightarrow> u32" where
  "get_expansion_rom c = read32 0x30 c"

definition pci_config_new :: "bool \<Rightarrow> pci_config" where
  "pci_config_new pcie =
     fold (\<lambda>i. set_bar i 0) [0 ..< 6]
       \<lparr>cfg = replicate (if pcie then 0x1000 else 0x100) 0xFF, bars = replicate 7 0, bar_sizes = replicate 7 0,
        bar_allocated = replicate 7 0\<rparr>"

definition pci_device_new :: "pci_address \<Rightarrow> bool \<Rightarrow> pci_device" where
  "pci_device_new addr pcie = \<lparr>pci_addr = addr, pci_cfg = pci_config_new pcie\<rparr>"

section \<open>Mapping memory into the guest\<close>

record 'h hypervisor =
  sys_evm_map :: "u64 \<Rightarrow> u64 \<Rightarrow> u64 \<Rightarrow> 'h \<Rightarrow> int \<times> 'h"
  sys_evm_unmap :: "u64 \<Rightarrow> u64 \<Rightarrow> 'h \<Rightarrow> int \<times> 'h"

definition page_round :: "u64 \<Rightarrow> u64" where
  "page_round sz = (sz + 0xFFF) AND NOT 0xFFF"

definition map_mem :: "'h hypervisor \<Rightarrow> u64 \<Rightarrow> u64 \<Rightarrow> u64 \<Rightarrow> 'h \<Rightarrow> 'h option" where
  "map_mem hv guest mem sz h =
     (let (err, h) = sys_evm_map hv guest mem (page_round sz) h in if err = 0 then Some h else None)"

definition unmap_mem :: "'h hypervisor \<Rightarrow> u64 \<Rightarrow> u64 \<Rightarrow> 'h \<Rightarrow> 'h option" where
  "unmap_mem hv guest sz h =
     (let (err, h) = sys_evm_unmap hv guest (page_round sz) h in if err = 0 then Some h else None)"

definition map_mem_alloc :: "'h hypervisor \<Rightarrow> u64 \<Rightarrow> u64 \<Rightarrow> u64 \<times> 'h \<Rightarrow> (u32 \<times> u64 \<times> 'h) option" where
  "map_mem_alloc hv mem sz s =
     (let (mapped_mmio_size, h) = s;
          sz = page_round sz;
          addr = 0xC0000000 + mapped_mmio_size;
          (err, h) = sys_evm_map hv addr mem sz h
      in if err = 0 then Some (ucast addr, mapped_mmio_size + sz, h) else None)"

section \<open>Access by the guest\<close>

definition pci_config_read :: "pci_device list \<Rightarrow> pci_address \<Rightarrow> u16 \<Rightarrow> u8 \<Rightarrow> u32 option" where
  "pci_config_read devs addr offset sz =
     (case List.find (\<lambda>d. pci_addr d = addr) devs of
        None \<Rightarrow> Some 0xFFFFFFFF
      | Some d \<Rightarrow> if 4 < unat sz \<or> length (cfg (pci_cfg d)) < unat offset + unat sz then None
                  else Some (of_le (take (unat sz) (drop (unat offset) (cfg (pci_cfg d))))))"

text \<open>A base address register that has memory behind it moves the memory to the new address.\<close>

definition move_bar :: "'h hypervisor \<Rightarrow> nat \<Rightarrow> u32 \<Rightarrow> pci_config \<times> 'h \<Rightarrow> (pci_config \<times> 'h) option" where
  "move_bar hv bar new s =
     (let (c, h) = s
      in if bars c ! bar \<noteq> 0 \<and> bar_allocated c ! bar \<noteq> new
         then do { h \<leftarrow> (if bar_allocated c ! bar \<noteq> 0
                         then unmap_mem hv (ucast (bar_allocated c ! bar)) (ucast (bar_sizes c ! bar)) h else Some h);
                   h \<leftarrow> map_mem hv (ucast new) (bars c ! bar) (ucast (bar_sizes c ! bar)) h;
                   Some (c\<lparr>bar_allocated := (bar_allocated c)[bar := new]\<rparr>, h) }
         else Some (c, h))"

definition store_config :: "nat \<Rightarrow> u32 \<Rightarrow> nat \<Rightarrow> pci_config \<Rightarrow> pci_config option" where
  "store_config offset val sz c =
     (if 4 < sz \<or> length (cfg c) < offset + sz then None else Some (c\<lparr>cfg := blit (cfg c) offset (le_bytes sz val)\<rparr>))"

definition config_write :: "'h hypervisor \<Rightarrow> nat \<Rightarrow> u32 \<Rightarrow> nat \<Rightarrow> pci_config \<times> 'h \<Rightarrow> (pci_config \<times> 'h) option" where
  "config_write hv offset val sz s =
     (let (c, h) = s
      in if 0x10 \<le> offset \<and> offset \<le> 0x24
         then let bar = (offset - 0x10) div 4
              in if val = 0xFFFFFFFF then Some (set_bar bar (- (bar_sizes c ! bar)) c, h)
                 else do { (c, h) \<leftarrow> move_bar hv bar (val AND NOT 7) s; c \<leftarrow> store_config offset val sz c; Some (c, h) }
         else if offset = 0x30
         then (if val = NOT 0x7FF \<or> val = NOT 0 \<or> val = NOT 1
               then Some (set_expansion_rom (- (bar_sizes c ! 6)) c, h)
               else do { (c, h) \<leftarrow> move_bar hv 6 (val AND NOT 1) s; c \<leftarrow> store_config offset val sz c; Some (c, h) })
         else do { c \<leftarrow> store_config offset val sz c; Some (c, h) })"

fun pci_config_write :: "'h hypervisor \<Rightarrow> pci_address \<Rightarrow> u16 \<Rightarrow> u32 \<Rightarrow> u8 \<Rightarrow> pci_device list \<times> 'h
    \<Rightarrow> (pci_device list \<times> 'h) option" where
  "pci_config_write hv addr offset val sz ([], h) = Some ([], h)"
| "pci_config_write hv addr offset val sz (d # ds, h) =
     (if pci_addr d = addr
      then do { (c, h) \<leftarrow> config_write hv (unat offset) val (unat sz) (pci_cfg d, h);
                Some (d\<lparr>pci_cfg := c\<rparr> # ds, h) }
      else do { (ds, h) \<leftarrow> pci_config_write hv addr offset val sz (ds, h); Some (d # ds, h) })"

section \<open>Display registers\<close>

record vbe =
  ID :: u16
  X_RES :: u16
  Y_RES :: u16
  BPP :: u16
  ENABLE :: u16
  BANK :: u16
  VIRT_WIDTH :: u16
  VIRT_HEIGHT :: u16
  X_OFFSET :: u16
  Y_OFFSET :: u16
  INDEX :: u16

definition vbe_new :: vbe where
  "vbe_new = \<lparr>ID = 0xB0C5, X_RES = 800, Y_RES = 600, BPP = 32, ENABLE = 0x41, BANK = 0, VIRT_WIDTH = 800,
     VIRT_HEIGHT = 600, X_OFFSET = 0, Y_OFFSET = 0, INDEX = 0\<rparr>"

definition vbe_read :: "u16 \<Rightarrow> u8 \<Rightarrow> vbe \<Rightarrow> u32 option" where
  "vbe_read offset sz r =
     (if sz \<noteq> 2 then None
      else if offset \<noteq> 1 then Some 0
      else if INDEX r = 0 then Some (ucast (ID r))
      else if INDEX r = 1 then Some (ucast (X_RES r))
      else if INDEX r = 2 then Some (ucast (Y_RES r))
      else if INDEX r = 3 then Some (ucast (BPP r))
      else if INDEX r = 4 then Some (ucast (ENABLE r))
      else if INDEX r = 5 then Some (ucast (BANK r))
      else if INDEX r = 6 then Some (ucast (VIRT_WIDTH r))
      else if INDEX r = 7 then Some (ucast (VIRT_HEIGHT r))
      else if INDEX r = 8 then Some (ucast (X_OFFSET r))
      else if INDEX r = 9 then Some (ucast (Y_OFFSET r))
      else if INDEX r = 10 then Some (((800 * 600 * 4 + 0xFFF) AND NOT 0xFFF) div (1024 * 64))
      else Some 0)"

definition vbe_write :: "u16 \<Rightarrow> u32 \<Rightarrow> u8 \<Rightarrow> vbe \<Rightarrow> vbe option" where
  "vbe_write offset val sz r =
     (if sz \<noteq> 2 then None
      else if offset = 0 then Some (r\<lparr>INDEX := ucast val\<rparr>)
      else let v = ucast val
           in Some (if INDEX r = 0 then r\<lparr>ID := v\<rparr>
                    else if INDEX r = 1 then r\<lparr>X_RES := v\<rparr>
                    else if INDEX r = 2 then r\<lparr>Y_RES := v\<rparr>
                    else if INDEX r = 3 then r\<lparr>BPP := v\<rparr>
                    else if INDEX r = 4 then r\<lparr>ENABLE := v\<rparr>
                    else if INDEX r = 5 then r\<lparr>BANK := v\<rparr>
                    else if INDEX r = 6 then r\<lparr>VIRT_WIDTH := v\<rparr>
                    else if INDEX r = 7 then r\<lparr>VIRT_HEIGHT := v\<rparr>
                    else if INDEX r = 8 then r\<lparr>X_OFFSET := v\<rparr>
                    else if INDEX r = 9 then r\<lparr>Y_OFFSET := v\<rparr>
                    else r))"

text \<open>The text screen of 80 columns and 25 rows, drawn with the font at the start of the video
  memory into a frame buffer 800 pixels wide. A read beyond the video memory or a write beyond the
  frame buffer is the result \<open>None\<close>.\<close>

fun foldM :: "('a \<Rightarrow> 's \<Rightarrow> 's option) \<Rightarrow> 'a list \<Rightarrow> 's \<Rightarrow> 's option" where
  "foldM f [] s = Some s"
| "foldM f (x # xs) s = do { s \<leftarrow> f x s; foldM f xs s }"

definition vram_at :: "u8 list \<Rightarrow> nat \<Rightarrow> u8 option" where
  "vram_at VRAM i = (if i < length VRAM then Some (VRAM ! i) else None)"

definition put_pixel :: "nat \<Rightarrow> u32 \<Rightarrow> u32 list \<Rightarrow> u32 list option" where
  "put_pixel i v fb = (if i < length fb then Some (fb[i := v]) else None)"

definition draw_cell :: "u8 list \<Rightarrow> nat \<Rightarrow> nat \<Rightarrow> u32 list \<Rightarrow> u32 list option" where
  "draw_cell VRAM row col fb =
     do { let offset = 0x18000 + row * 80 * 2;
          char_byte \<leftarrow> vram_at VRAM (offset + col * 2);
          attribs \<leftarrow> vram_at VRAM (offset + col * 2 + 1);
          foldM (\<lambda>y fb. do {
            byte \<leftarrow> vram_at VRAM (unat char_byte * 32 + y);
            foldM (\<lambda>x. put_pixel ((row * 16 + y) * 800 + (col * 8 + x)) (if bit byte (7 - x) then 0xFFFFFF else 0)) [0 ..< 8] fb })
            [0 ..< 16] fb }"

definition vga_print_text_mem :: "u8 list \<Rightarrow> u32 list \<Rightarrow> u32 list option" where
  "vga_print_text_mem VRAM = foldM (\<lambda>row. foldM (draw_cell VRAM row) [0 ..< 80]) [0 ..< 25]"

section \<open>Properties of the configuration space\<close>

lemma length_le_bytes [simp]: "length (le_bytes n v) = n"
  by (simp add: le_bytes_def)

lemma bit_of_le: "bit (of_le bs) k \<longleftrightarrow> k < 32 \<and> k div 8 < length bs \<and> bit (bs ! (k div 8)) (k mod 8)"
proof (induction bs arbitrary: k)
  case (Cons b bs)
  show ?case
  proof (cases "k < 8")
    case True
    then show ?thesis by (auto simp: bit_simps)
  next
    case False
    then obtain j where j: "k = j + 8" by (metis add.commute le_Suc_ex not_less)
    have "(j + 8) div 8 = Suc (j div 8)" by simp
    moreover have "\<not> bit b k" using False by (auto dest: bit_imp_le_length)
    ultimately show ?thesis using Cons.IH [of j] by (auto simp: bit_simps j)
  qed
qed simp

lemma of_le_bytes [simp]: "of_le (le_bytes 4 v) = v"
proof (rule bit_word_eqI)
  fix k assume "k < LENGTH(32)"
  then have "k div 8 < 4" "k < 32" by auto
  then show "bit (of_le (le_bytes 4 v)) k = bit v k"
    by (simp add: bit_of_le le_bytes_def bit_simps)
qed

lemma read_blit:
  assumes "offset + length bs \<le> length xs"
  shows "take (length bs) (drop offset (blit xs offset bs)) = bs"
  using assms by (simp add: blit_def min_def)

lemma read_blit_other:
  assumes "offset + length bs \<le> length xs" and "o2 + n \<le> length xs" and "o2 + n \<le> offset \<or> offset + length bs \<le> o2"
  shows "take n (drop o2 (blit xs offset bs)) = take n (drop o2 xs)"
  by (rule nth_equalityI) (use assms in \<open>auto simp: blit_nth\<close>)

lemma find_update:
  assumes "List.find (\<lambda>d. pci_addr d = addr) ds = Some d"
    and "config_write hv (unat offset) val (unat sz) (pci_cfg d, h) = Some (c, h')"
  shows "\<exists>ds'. pci_config_write hv addr offset val sz (ds, h) = Some (ds', h') \<and>
    List.find (\<lambda>d. pci_addr d = addr) ds' = Some (d\<lparr>pci_cfg := c\<rparr>) \<and>
    (\<forall>a. a \<noteq> addr \<longrightarrow> List.find (\<lambda>d. pci_addr d = a) ds' = List.find (\<lambda>d. pci_addr d = a) ds)"
  using assms
proof (induction ds)
  case (Cons e ds)
  show ?case
  proof (cases "pci_addr e = addr")
    case True
    then show ?thesis using Cons.prems by auto
  next
    case False
    then show ?thesis using Cons by auto
  qed
qed simp

text \<open>C26 Configuration space keeps what the guest writes: a 4-byte write to a register that is
  neither a base address nor the expansion ROM is read back unchanged, changes no other register of
  the device and no other device, and makes no call to the hypervisor.\<close>

theorem pci_write_read:
  assumes "List.find (\<lambda>d. pci_addr d = addr) devs = Some d" and "length (cfg (pci_cfg d)) = 0x1000"
    and "unat offset + 4 \<le> 0x1000" and "unat offset < 0x10 \<or> 0x24 < unat offset" and "offset \<noteq> 0x30"
  shows "\<exists>devs'. pci_config_write hv addr offset val 4 (devs, h) = Some (devs', h) \<and>
    pci_config_read devs' addr offset 4 = Some val \<and>
    (\<forall>o2 sz. unat sz \<le> 4 \<longrightarrow> unat o2 + unat sz \<le> 0x1000 \<longrightarrow>
       unat o2 + unat sz \<le> unat offset \<or> unat offset + 4 \<le> unat o2 \<longrightarrow>
       pci_config_read devs' addr o2 sz = pci_config_read devs addr o2 sz) \<and>
    (\<forall>a o2 sz. a \<noteq> addr \<longrightarrow> pci_config_read devs' a o2 sz = pci_config_read devs a o2 sz)"
proof -
  define c where "c = (pci_cfg d)\<lparr>cfg := blit (cfg (pci_cfg d)) (unat offset) (le_bytes 4 val)\<rparr>"
  have "unat offset \<noteq> 0x30" using assms(5) by (auto simp: word_unat_eq_iff)
  then have w: "config_write hv (unat offset) val (unat (4 :: u8)) (pci_cfg d, h) = Some (c, h)"
    using assms(2-4) by (auto simp: config_write_def store_config_def c_def)
  obtain devs' where devs': "pci_config_write hv addr offset val 4 (devs, h) = Some (devs', h)"
    "List.find (\<lambda>d. pci_addr d = addr) devs' = Some (d\<lparr>pci_cfg := c\<rparr>)"
    "\<And>a. a \<noteq> addr \<Longrightarrow> List.find (\<lambda>d. pci_addr d = a) devs' = List.find (\<lambda>d. pci_addr d = a) devs"
    using find_update [OF assms(1) w] by blast
  have len: "length (blit (cfg (pci_cfg d)) (unat offset) (le_bytes 4 val)) = 0x1000"
    using assms(2,3) by simp
  have "pci_config_read devs' addr offset 4 = Some val"
    using devs'(2) assms(2,3) len read_blit [of "unat offset" "le_bytes 4 val" "cfg (pci_cfg d)"]
    by (simp add: pci_config_read_def c_def)
  moreover have "pci_config_read devs' addr o2 sz = pci_config_read devs addr o2 sz"
    if "unat sz \<le> 4" "unat o2 + unat sz \<le> 0x1000" "unat o2 + unat sz \<le> unat offset \<or> unat offset + 4 \<le> unat o2" for o2 sz
    using devs'(2) assms(1-3) len that read_blit_other [of "unat offset" "le_bytes 4 val" "cfg (pci_cfg d)" "unat o2" "unat sz"]
    by (simp add: pci_config_read_def c_def)
  moreover have "pci_config_read devs' a o2 sz = pci_config_read devs a o2 sz" if "a \<noteq> addr" for a o2 sz
    using devs'(3) [OF that] by (simp add: pci_config_read_def)
  ultimately show ?thesis using devs'(1) by blast
qed

theorem pci_write_read_witness:
  "\<exists>devs'. pci_config_write \<lparr>sys_evm_map = (\<lambda>_ _ _ h. (0, h)), sys_evm_unmap = (\<lambda>_ _ h. (0, h))\<rparr>
      \<lparr>bus = 0, dev = 0, func = 0\<rparr> 0x3C 0x12345678 4 ([pci_device_new \<lparr>bus = 0, dev = 0, func = 0\<rparr> True], ()) = Some (devs', ()) \<and>
    pci_config_read devs' \<lparr>bus = 0, dev = 0, func = 0\<rparr> 0x3C 4 = Some 0x12345678"
proof -
  have "length (cfg (pci_config_new True)) = 0x1000"
    by (simp add: pci_config_new_def set_bar_def write32_def upt_conv_Cons)
  then show ?thesis
    using pci_write_read [of "\<lparr>bus = 0, dev = 0, func = 0\<rparr>" "[pci_device_new \<lparr>bus = 0, dev = 0, func = 0\<rparr> True]"
      "pci_device_new \<lparr>bus = 0, dev = 0, func = 0\<rparr> True" "0x3C"
      "\<lparr>sys_evm_map = (\<lambda>_ _ _ h. (0, h)), sys_evm_unmap = (\<lambda>_ _ h. (0, h))\<rparr>" "0x12345678" "()"]
    unfolding pci_device_new_def by fastforce
qed

text \<open>C27 The guest finds the size of a base address register as the PCI rules say: after it writes
  all ones, the register reads as the two's complement of the size, no memory moves, and the register
  of another base address is not touched.\<close>

theorem bar_sizing:
  assumes "List.find (\<lambda>d. pci_addr d = addr) devs = Some d" and "length (cfg (pci_cfg d)) = 0x1000" and "bar < 6"
  shows "\<exists>devs' d'. pci_config_write hv addr (of_nat (0x10 + 4 * bar)) 0xFFFFFFFF 4 (devs, h) = Some (devs', h) \<and>
    List.find (\<lambda>d. pci_addr d = addr) devs' = Some d' \<and>
    pci_config_read devs' addr (of_nat (0x10 + 4 * bar)) 4 = Some (- (bar_sizes (pci_cfg d) ! bar)) \<and>
    bar_allocated (pci_cfg d') = bar_allocated (pci_cfg d) \<and>
    (\<forall>b < 6. b \<noteq> bar \<longrightarrow> get_bar b (pci_cfg d') = get_bar b (pci_cfg d))"
proof -
  define off where "off = (of_nat (0x10 + 4 * bar) :: u16)"
  have off: "unat off = 0x10 + 4 * bar" 
  proof -
    have "unat (of_nat n :: u16) = n" if "n < 65536" for n using that by (simp add: unat_of_nat)
    then have "unat (of_nat (0x10 + 4 * bar) :: u16) = 0x10 + 4 * bar" using assms(3) by (auto simp del: of_nat_add of_nat_mult)
    then show ?thesis unfolding off_def .
  qed
  define c where "c = set_bar bar (- (bar_sizes (pci_cfg d) ! bar)) (pci_cfg d)"
  have w: "config_write hv (unat off) 0xFFFFFFFF (unat (4 :: u8)) (pci_cfg d, h) = Some (c, h)"
    using assms(3) by (simp add: config_write_def c_def off)
  obtain devs' where devs': "pci_config_write hv addr off 0xFFFFFFFF 4 (devs, h) = Some (devs', h)"
    "List.find (\<lambda>d. pci_addr d = addr) devs' = Some (d\<lparr>pci_cfg := c\<rparr>)"
    using find_update [OF assms(1) w] by blast
  have "pci_config_read devs' addr off 4 = Some (- (bar_sizes (pci_cfg d) ! bar))"
    using devs'(2) assms(2,3) read_blit [of "unat off" "le_bytes 4 (- (bar_sizes (pci_cfg d) ! bar))" "cfg (pci_cfg d)"]
    by (simp add: pci_config_read_def c_def set_bar_def write32_def off mult.commute [of 4])
  moreover have "get_bar b c = get_bar b (pci_cfg d)" if "b < 6" "b \<noteq> bar" for b
  proof -
    have "4 + b * 4 \<le> bar * 4 \<or> 4 + bar * 4 \<le> b * 4" using that(2) by presburger
    then show ?thesis using that assms(2,3) read_blit_other [of "0x10 + bar * 4" "le_bytes 4 (- (bar_sizes (pci_cfg d) ! bar))" "cfg (pci_cfg d)" "0x10 + b * 4" 4]
      by (auto simp: get_bar_def read32_def c_def set_bar_def write32_def)
  qed
  moreover have "bar_allocated c = bar_allocated (pci_cfg d)" by (simp add: c_def set_bar_def write32_def)
  ultimately show ?thesis unfolding off_def [symmetric] using devs' by force
qed

theorem bar_sizing_witness:
  "\<exists>devs' d'. pci_config_write \<lparr>sys_evm_map = (\<lambda>_ _ _ h. (0, h)), sys_evm_unmap = (\<lambda>_ _ h. (0, h))\<rparr>
      \<lparr>bus = 0, dev = 1, func = 0\<rparr> 0x18 0xFFFFFFFF 4 ([\<lparr>pci_addr = \<lparr>bus = 0, dev = 1, func = 0\<rparr>,
        pci_cfg = (pci_config_new True)\<lparr>bar_sizes := [0, 0, 0x1000, 0, 0, 0, 0]\<rparr>\<rparr>], ()) = Some (devs', ()) \<and>
    pci_config_read devs' \<lparr>bus = 0, dev = 1, func = 0\<rparr> 0x18 4 = Some 0xFFFFF000 \<and>
    List.find (\<lambda>d. pci_addr d = \<lparr>bus = 0, dev = 1, func = 0\<rparr>) devs' = Some d'"
proof -
  let ?a = "\<lparr>bus = 0, dev = 1, func = 0\<rparr>"
  let ?d = "\<lparr>pci_addr = ?a, pci_cfg = (pci_config_new True)\<lparr>bar_sizes := [0, 0, 0x1000, 0, 0, 0, 0]\<rparr>\<rparr>"
  let ?hv = "\<lparr>sys_evm_map = (\<lambda>_ _ _ h. (0, h)), sys_evm_unmap = (\<lambda>_ _ h. (0, h))\<rparr>"
  have "length (cfg (pci_config_new True)) = 0x1000"
    by (simp add: pci_config_new_def set_bar_def write32_def upt_conv_Cons)
  then show ?thesis
    using bar_sizing [of ?a "[?d]" ?d 2 ?hv "()"] by auto
qed

text \<open>The kernel as the monitor sees it, with memory behind every address: it records the calls and
  refuses the addresses that the two system calls refuse, a host address that is not aligned to a page
  and a guest address that is not.\<close>

datatype evm_call = Map u64 u64 u64 | Unmap u64 u64

definition log_hv :: "evm_call list hypervisor" where
  "log_hv =
     \<lparr>sys_evm_map = (\<lambda>g mem n h. if mem AND 0xFFF \<noteq> 0 \<or> (n \<noteq> 0 \<and> g AND 0xFFF \<noteq> 0) then (-0xFFF, h) else (0, h @ [Map g mem n])),
      sys_evm_unmap = (\<lambda>g n h. if g AND 0xFFF \<noteq> 0 then (-0xFFF, h) else (0, h @ [Unmap g n]))\<rparr>"

lemma config_write_log:
  assumes "length (cfg c) = 0x1000" and "bar < 6" and "bars c ! bar \<noteq> 0" and "bars c ! bar AND 0xFFF = 0" and "v AND 0xFFF = 0"
    and "bar_allocated c ! bar \<noteq> v" and "bar_allocated c ! bar AND 0xFFF = 0"
  shows "config_write log_hv (0x10 + 4 * bar) v 4 (c, h) =
    Some (c\<lparr>cfg := blit (cfg c) (0x10 + 4 * bar) (le_bytes 4 v), bar_allocated := (bar_allocated c)[bar := v]\<rparr>,
      h @ (if bar_allocated c ! bar = 0 then [] else [Unmap (ucast (bar_allocated c ! bar)) (page_round (ucast (bar_sizes c ! bar)))])
        @ [Map (ucast v) (bars c ! bar) (page_round (ucast (bar_sizes c ! bar)))])"
proof -
  have u: "ucast x AND 0xFFF = (0 :: u64)" if "x AND 0xFFF = 0" for x :: u32
  proof -
    have "ucast (x AND 0xFFF) = (ucast x AND 0xFFF :: u64)" by (simp add: unsigned_and_eq)
    then show ?thesis using that by simp
  qed
  have v: "v AND NOT 7 = v"
  proof -
    have "v AND 7 = (v AND 0xFFF) AND 7" by (simp add: and.assoc)
    then have "v AND 7 = 0" using assms(5) by simp
    moreover have "v = (v AND 7) OR (v AND NOT 7)" by (rule bit_word_eqI) (auto simp: bit_simps)
    ultimately show ?thesis by simp
  qed
  have "v \<noteq> 0xFFFFFFFF" using assms(5) by auto
  then show ?thesis using assms u [OF assms(5)] u [OF assms(7)] v
    by (simp add: config_write_def move_bar_def map_mem_def unmap_mem_def log_hv_def store_config_def Let_def)
qed

text \<open>C28 A base address register takes 0 for \<open>not mapped\<close> and yet maps at 0: when the guest moves
  a register, whose memory starts at a page, to the address of a page, then to 0, then to the address of
  another page, the kernel accepts every call, and the memory is mapped at guest address 0 and never
  unmapped from there.\<close>

theorem bar_at_zero_stays_mapped:
  assumes "length (cfg c) = 0x1000" and "bar < 6" and "length (bar_allocated c) = 7" and "bars c ! bar \<noteq> 0"
    and "bars c ! bar AND 0xFFF = 0" and "bar_allocated c ! bar = 0"
    and "a AND 0xFFF = 0" and "b AND 0xFFF = 0" and "a \<noteq> 0" and "b \<noteq> 0"
  shows "\<exists>s1 s2 c'. config_write log_hv (0x10 + 4 * bar) a 4 (c, h) = Some s1 \<and>
    config_write log_hv (0x10 + 4 * bar) 0 4 s1 = Some s2 \<and>
    config_write log_hv (0x10 + 4 * bar) b 4 s2 = Some (c', h @
      (let mem = bars c ! bar; n = page_round (ucast (bar_sizes c ! bar))
       in [Map (ucast a) mem n, Unmap (ucast a) n, Map 0 mem n, Map (ucast b) mem n]))"
proof -
  define c1 where "c1 = c\<lparr>cfg := blit (cfg c) (0x10 + 4 * bar) (le_bytes 4 a), bar_allocated := (bar_allocated c)[bar := a]\<rparr>"
  define c2 where "c2 = c1\<lparr>cfg := blit (cfg c1) (0x10 + 4 * bar) (le_bytes 4 0), bar_allocated := (bar_allocated c1)[bar := 0]\<rparr>"
  have c1: "length (cfg c1) = 0x1000" "bars c1 ! bar \<noteq> 0" "bar_allocated c1 ! bar = a" "bars c1 = bars c" "bar_sizes c1 = bar_sizes c"
    "length (bar_allocated c1) = 7"
    using assms by (auto simp: c1_def)
  have c2: "length (cfg c2) = 0x1000" "bars c2 ! bar \<noteq> 0" "bar_allocated c2 ! bar = 0" "bars c2 = bars c" "bar_sizes c2 = bar_sizes c"
    using assms(2) c1 by (auto simp: c2_def)
  show ?thesis
    using config_write_log [OF assms(1,2,4,5,7), of h] config_write_log [OF c1(1) assms(2) c1(2), of 0]
      config_write_log [OF c2(1) assms(2) c2(2) _ assms(8)] assms(5-10) c1(3-) c2(3-)
    by (simp add: Let_def c1_def [symmetric] c2_def [symmetric])
qed

theorem bar_at_zero_stays_mapped_witness:
  "let c = (pci_config_new True)\<lparr>bars := replicate 7 0x7000, bar_sizes := replicate 7 0x1000\<rparr>
   in \<exists>s1 s2 c'. config_write log_hv 0x10 0xE0000000 4 (c, []) = Some s1 \<and> config_write log_hv 0x10 0 4 s1 = Some s2 \<and>
    config_write log_hv 0x10 0xF0000000 4 s2 =
      Some (c', [Map 0xE0000000 0x7000 0x1000, Unmap 0xE0000000 0x1000, Map 0 0x7000 0x1000, Map 0xF0000000 0x7000 0x1000])"
proof -
  let ?c = "(pci_config_new True)\<lparr>bars := replicate 7 0x7000, bar_sizes := replicate 7 0x1000\<rparr>"
  have "length (cfg ?c) = 0x1000" "bar_allocated ?c = replicate 7 0"
    by (simp_all add: pci_config_new_def set_bar_def write32_def upt_conv_Cons)
  then show ?thesis
    using bar_at_zero_stays_mapped [of ?c 0 "0xE0000000" "0xF0000000" "[]"] by (simp add: page_round_def Let_def)
qed

section \<open>Properties of the display\<close>

lemma ucast_u16_u32: "ucast (ucast (v :: u16) :: u32) = v"
  by (rule bit_word_eqI) (simp add: bit_simps)

lemma u16_le_9: "i \<le> (9 :: u16) \<Longrightarrow> i = 0 \<or> i = 1 \<or> i = 2 \<or> i = 3 \<or> i = 4 \<or> i = 5 \<or> i = 6 \<or> i = 7 \<or> i = 8 \<or> i = 9"
proof -
  assume "i \<le> 9"
  then have "unat i \<le> 9" by (simp add: word_le_nat_alt)
  then have "unat i \<in> {0, 1, 2, 3, 4, 5, 6, 7, 8, 9}" by auto
  then show ?thesis by (simp add: word_unat_eq_iff)
qed

definition vbe_regs :: "vbe \<Rightarrow> u16 list" where
  "vbe_regs r = [ID r, X_RES r, Y_RES r, BPP r, ENABLE r, BANK r, VIRT_WIDTH r, VIRT_HEIGHT r, X_OFFSET r, Y_OFFSET r]"

lemma vbe_read_regs: "INDEX r \<le> 9 \<Longrightarrow> vbe_read 1 2 r = Some (ucast (vbe_regs r ! unat (INDEX r)))"
  by (drule u16_le_9, elim disjE; simp add: vbe_read_def vbe_regs_def)

lemma vbe_read_none: "9 < INDEX r \<Longrightarrow> INDEX r = INDEX s \<Longrightarrow> vbe_read 1 2 r = vbe_read 1 2 s"
  by (auto simp: vbe_read_def)

lemma vbe_write_regs:
  "INDEX r \<le> 9 \<Longrightarrow> vbe_write 1 val 2 r = Some s \<Longrightarrow> vbe_regs s = (vbe_regs r)[unat (INDEX r) := ucast val] \<and> INDEX s = INDEX r"
  by (drule u16_le_9, elim disjE; clarsimp simp: vbe_write_def vbe_regs_def Let_def)

text \<open>A display register that the guest selects and writes reads back as written, for each of the
  ten registers, and every other register keeps its value; other indices are ignored.\<close>

theorem vbe_write_read:
  fixes i v :: u16
  shows "\<exists>r1 r2. vbe_write 0 (ucast i) 2 r = Some r1 \<and> vbe_write 1 (ucast v) 2 r1 = Some r2 \<and>
     (i \<le> 9 \<longrightarrow> vbe_read 1 2 r2 = Some (ucast v)) \<and>
     (\<forall>j. j \<noteq> i \<or> 9 < i \<longrightarrow> vbe_read 1 2 (r2\<lparr>INDEX := j\<rparr>) = vbe_read 1 2 (r\<lparr>INDEX := j\<rparr>))"
proof -
  have 1: "vbe_write 0 (ucast i) 2 r = Some (r\<lparr>INDEX := i\<rparr>)" by (simp add: vbe_write_def ucast_u16_u32)
  obtain r2 where 2: "vbe_write 1 (ucast v) 2 (r\<lparr>INDEX := i\<rparr>) = Some r2" by (simp add: vbe_write_def Let_def)
  have upd: "vbe_regs (x\<lparr>INDEX := j\<rparr>) = vbe_regs x" "length (vbe_regs x) = 10" for x j by (simp_all add: vbe_regs_def)
  show ?thesis
  proof (cases "i \<le> 9")
    case True
    then have w: "vbe_regs r2 = (vbe_regs r)[unat i := v]" "INDEX r2 = i"
      using vbe_write_regs [OF _ 2] by (simp_all add: upd ucast_u16_u32)
    have "unat i < 10" using True by (simp add: word_le_nat_alt)
    then have "vbe_read 1 2 r2 = Some (ucast v)" using vbe_read_regs [of r2] True by (simp add: w upd)
    moreover have "vbe_read 1 2 (r2\<lparr>INDEX := j\<rparr>) = vbe_read 1 2 (r\<lparr>INDEX := j\<rparr>)" if "j \<noteq> i" for j
      using that vbe_read_regs [of "r2\<lparr>INDEX := j\<rparr>"] vbe_read_regs [of "r\<lparr>INDEX := j\<rparr>"]
        vbe_read_none [of "r2\<lparr>INDEX := j\<rparr>" "r\<lparr>INDEX := j\<rparr>"]
      by (cases "j \<le> 9") (simp_all add: upd w not_le word_unat_eq_iff)
    ultimately show ?thesis using 1 2 True by auto
  next
    case False
    then have "INDEX (r\<lparr>INDEX := i\<rparr>) \<noteq> k" if "k \<le> 9" for k using that by auto
    note ne = this [of 0] this [of 1] this [of 2] this [of 3] this [of 4] this [of 5] this [of 6] this [of 7] this [of 8] this [of 9]
    have "r2 = r\<lparr>INDEX := i\<rparr>" using 2 ne by (simp add: vbe_write_def Let_def)
    then show ?thesis using 1 2 False by simp
  qed
qed

theorem vbe_write_read_witness:
  "\<exists>r1 r2. vbe_write 0 (ucast (1 :: u16)) 2 vbe_new = Some r1 \<and> vbe_write 1 (ucast (1024 :: u16)) 2 r1 = Some r2 \<and>
     vbe_read 1 2 r2 = Some (ucast (1024 :: u16))"
  using vbe_write_read [of 1 vbe_new 1024] by auto

text \<open>Writing the pixels of a list of distinct positions.\<close>

definition put_pixels :: "(nat \<times> u32) list \<Rightarrow> u32 list \<Rightarrow> u32 list" where
  "put_pixels ps fb = fold (\<lambda>(i, v) fb. fb[i := v]) ps fb"

lemma put_pixels_append: "put_pixels (ps @ qs) fb = put_pixels qs (put_pixels ps fb)"
  by (simp add: put_pixels_def)

lemma put_pixels_concat: "fold (\<lambda>x. put_pixels (f x)) xs fb = put_pixels (concat (map f xs)) fb"
  by (induction xs arbitrary: fb) (simp_all add: put_pixels_append, simp add: put_pixels_def)

lemma put_pixels_length [simp]: "length (put_pixels ps fb) = length fb"
  by (induction ps arbitrary: fb) (auto simp: put_pixels_def)

lemma put_pixels_nth:
  assumes "\<And>i v. (i, v) \<in> set ps \<Longrightarrow> v = f i" and "i < length fb"
  shows "put_pixels ps fb ! i = (if i \<in> fst ` set ps then f i else fb ! i)"
  using assms
proof (induction ps arbitrary: fb)
  case (Cons p ps)
  obtain j v where p: "p = (j, v)" by fastforce
  have "put_pixels (p # ps) fb ! i = put_pixels ps (fb[j := v]) ! i" by (simp add: put_pixels_def p)
  also have "\<dots> = (if i \<in> fst ` set ps then f i else fb[j := v] ! i)" using Cons by (intro Cons.IH) auto
  also have "\<dots> = (if i \<in> fst ` set (p # ps) then f i else fb ! i)"
    using Cons.prems p by (auto simp: nth_list_update)
  finally show ?case .
qed (simp add: put_pixels_def)

text \<open>The colour of a pixel of the text screen by its position.\<close>

definition text_pixel :: "u8 list \<Rightarrow> nat \<Rightarrow> nat \<Rightarrow> u32" where
  "text_pixel VRAM Y X =
     (let ch = VRAM ! (0x18000 + (Y div 16) * 80 * 2 + (X div 8) * 2)
      in if bit (VRAM ! (unat ch * 32 + Y mod 16)) (7 - X mod 8) then 0xFFFFFF else 0)"

definition cell_pixels :: "u8 list \<Rightarrow> nat \<Rightarrow> nat \<Rightarrow> (nat \<times> u32) list" where
  "cell_pixels VRAM row col =
     concat (map (\<lambda>y. map (\<lambda>x. ((row * 16 + y) * 800 + (col * 8 + x), text_pixel VRAM (row * 16 + y) (col * 8 + x))) [0 ..< 8]) [0 ..< 16])"

lemma foldM_pixels:
  assumes "\<And>x fb. x \<in> set xs \<Longrightarrow> length fb = n \<Longrightarrow> f x fb = Some (put_pixels (g x) fb)" and "length fb = n"
  shows "foldM f xs fb = Some (put_pixels (concat (map g xs)) fb)"
  using assms by (induction xs arbitrary: fb) (simp_all add: put_pixels_append, simp add: put_pixels_def)

lemma draw_row_pixels:
  assumes "row < 25" and "col < 80" and "y < 16" and "length fb = 800 * 600"
    and "byte = VRAM ! (unat (VRAM ! (0x18000 + row * 80 * 2 + col * 2)) * 32 + y)"
  shows "foldM (\<lambda>x. put_pixel ((row * 16 + y) * 800 + (col * 8 + x)) (if bit byte (7 - x) then 0xFFFFFF else 0)) [0 ..< 8] fb =
    Some (put_pixels (map (\<lambda>x. ((row * 16 + y) * 800 + (col * 8 + x), text_pixel VRAM (row * 16 + y) (col * 8 + x))) [0 ..< 8]) fb)"
proof -
  have px: "put_pixel ((row * 16 + y) * 800 + (col * 8 + x)) (if bit byte (7 - x) then 0xFFFFFF else 0) fb =
      Some (put_pixels [((row * 16 + y) * 800 + (col * 8 + x), text_pixel VRAM (row * 16 + y) (col * 8 + x))] fb)"
    if "x < 8" "length fb = 800 * 600" for x and fb :: "u32 list"
  proof -
    have "(row * 16 + y) * 800 + (col * 8 + x) < length fb" using assms(1-3) that by simp
    then show ?thesis using assms(3,5) that(1) by (simp add: put_pixel_def put_pixels_def text_pixel_def Let_def)
  qed
  have "foldM (\<lambda>x. put_pixel ((row * 16 + y) * 800 + (col * 8 + x)) (if bit byte (7 - x) then 0xFFFFFF else 0)) [0 ..< 8] fb =
      Some (put_pixels (concat (map (\<lambda>x. [((row * 16 + y) * 800 + (col * 8 + x), text_pixel VRAM (row * 16 + y) (col * 8 + x))]) [0 ..< 8])) fb)"
    by (rule foldM_pixels [OF _ assms(4)]) (use px in simp)
  then show ?thesis by (simp add: concat_map_singleton del: upt_Suc)
qed

lemma draw_cell_pixels:
  assumes "length VRAM = 0x20000" and "row < 25" and "col < 80" and "length fb = 800 * 600"
  shows "draw_cell VRAM row col fb = Some (put_pixels (cell_pixels VRAM row col) fb)"
proof -
  define ch where "ch = VRAM ! (0x18000 + row * 80 * 2 + col * 2)"
  have ch: "vram_at VRAM (0x18000 + row * 80 * 2 + col * 2) = Some ch" "vram_at VRAM (0x18000 + row * 80 * 2 + col * 2 + 1) \<noteq> None"
    using assms(1-3) by (simp_all add: vram_at_def ch_def)
  have font: "vram_at VRAM (unat ch * 32 + y) = Some (VRAM ! (unat ch * 32 + y))" if "y < 16" for y
  proof -
    have "unat ch < 2 ^ LENGTH(8)" by (rule unsigned_less)
    then show ?thesis using that assms(1) by (simp add: vram_at_def)
  qed
  have "foldM (\<lambda>y fb. do { byte \<leftarrow> vram_at VRAM (unat ch * 32 + y);
      foldM (\<lambda>x. put_pixel ((row * 16 + y) * 800 + (col * 8 + x)) (if bit byte (7 - x) then 0xFFFFFF else 0)) [0 ..< 8] fb }) [0 ..< 16] fb =
    Some (put_pixels (cell_pixels VRAM row col) fb)"
    unfolding cell_pixels_def
    by (rule foldM_pixels [OF _ assms(4)]) (use font draw_row_pixels [OF assms(2,3)] in \<open>simp add: ch_def\<close>)
  then show ?thesis using ch by (auto simp: draw_cell_def)
qed

definition text_pixels :: "u8 list \<Rightarrow> (nat \<times> u32) list" where
  "text_pixels VRAM = concat (map (\<lambda>row. concat (map (cell_pixels VRAM row) [0 ..< 80])) [0 ..< 25])"

lemma text_mem_pixels:
  assumes "length VRAM = 0x20000" and "length fb = 800 * 600"
  shows "vga_print_text_mem VRAM fb = Some (put_pixels (text_pixels VRAM) fb)"
  unfolding vga_print_text_mem_def text_pixels_def
proof (rule foldM_pixels [OF _ assms(2)])
  fix row and fb :: "u32 list" assume r: "row \<in> set [0 ..< 25]" and fb: "length fb = 800 * 600"
  show "foldM (draw_cell VRAM row) [0 ..< 80] fb = Some (put_pixels (concat (map (cell_pixels VRAM row) [0 ..< 80])) fb)"
    by (rule foldM_pixels [OF _ fb]) (use r draw_cell_pixels [OF assms(1)] in auto)
qed

lemma text_pixels_val:
  assumes "(i, v) \<in> set (text_pixels VRAM)"
  shows "v = text_pixel VRAM (i div 800) (i mod 800) \<and> i div 800 < 400 \<and> i mod 800 < 640"
proof -
  obtain row col y x where "row < 25" "col < 80" "y < 16" "x < 8"
    "i = (row * 16 + y) * 800 + (col * 8 + x)" "v = text_pixel VRAM (row * 16 + y) (col * 8 + x)"
    using assms by (auto simp: cell_pixels_def text_pixels_def)
  moreover define a b where "a = row * 16 + y" and "b = col * 8 + x"
  ultimately have i: "i = a * 800 + b" "v = text_pixel VRAM a b" "a < 400" "b < 640" by simp_all
  then have "i div 800 = a" "i mod 800 = b" by simp_all
  then show ?thesis using i by simp
qed

lemma concat_upt_mem: "x \<in> set (f k) \<Longrightarrow> k < n \<Longrightarrow> x \<in> set (concat (map f [0 ..< n]))"
  by auto

lemma text_pixels_dom:
  assumes "Y < 400" and "X < 640"
  shows "Y * 800 + X \<in> fst ` set (text_pixels VRAM)"
proof -
  have "y < 16 \<Longrightarrow> x < 8 \<Longrightarrow> ((row * 16 + y) * 800 + (col * 8 + x), text_pixel VRAM (row * 16 + y) (col * 8 + x)) \<in>
      set (cell_pixels VRAM row col)" for row col y x
    by (auto simp: cell_pixels_def intro!: bexI [of _ y] image_eqI [where x = x])
  from this [of "Y mod 16" "X mod 8" "Y div 16" "X div 8"]
  have "(Y * 800 + X, text_pixel VRAM Y X) \<in> set (cell_pixels VRAM (Y div 16) (X div 8))"
    by (simp add: div_mult_mod_eq del: distrib_right_numeral)
  moreover have "Y div 16 < 25" "X div 8 < 80" using assms by auto
  ultimately have m: "(Y * 800 + X, text_pixel VRAM Y X) \<in> set (concat (map (cell_pixels VRAM (Y div 16)) [0 ..< 80]))"
    by (intro concat_upt_mem)
  have "(Y * 800 + X, text_pixel VRAM Y X) \<in> set (text_pixels VRAM)"
    unfolding text_pixels_def
    by (rule concat_upt_mem [where f = "\<lambda>row. concat (map (cell_pixels VRAM row) [0 ..< 80])", OF m]) fact
  then show ?thesis by force
qed

lemma text_pixels_iff:
  assumes "X < 800"
  shows "Y * 800 + X \<in> fst ` set (text_pixels VRAM) \<longleftrightarrow> Y < 400 \<and> X < 640"
proof
  assume "Y * 800 + X \<in> fst ` set (text_pixels VRAM)"
  then obtain p where p: "p \<in> set (text_pixels VRAM)" and fp: "Y * 800 + X = fst p" by (rule imageE)
  from p have "(Y * 800 + X, snd p) \<in> set (text_pixels VRAM)" unfolding fp by simp
  from text_pixels_val [OF this] have "(Y * 800 + X) div 800 < 400" "(Y * 800 + X) mod 800 < 640" by blast+
  then show "Y < 400 \<and> X < 640" using assms by simp
next
  assume "Y < 400 \<and> X < 640"
  then have "Y < 400" "X < 640" by auto
  then show "Y * 800 + X \<in> fst ` set (text_pixels VRAM)" by (rule text_pixels_dom)
qed

lemma text_pixels_nth:
  assumes "length fb = 800 * 600" and "Y < 600" and "X < 800"
  shows "put_pixels (text_pixels VRAM) fb ! (Y * 800 + X) =
    (if Y * 800 + X \<in> fst ` set (text_pixels VRAM) then text_pixel VRAM ((Y * 800 + X) div 800) ((Y * 800 + X) mod 800)
     else fb ! (Y * 800 + X))"
proof (rule put_pixels_nth)
  show "v = text_pixel VRAM (i div 800) (i mod 800)" if "(i, v) \<in> set (text_pixels VRAM)" for i v
    using text_pixels_val [OF that] by (rule conjunct1)
  show "Y * 800 + X < length fb" using assms by linarith
qed

text \<open>C29 Drawing the text screen stays inside the video memory and the frame buffer, and sets
  exactly the pixels of its 640 by 400 area: each of them is lit when the bit of its row and column in
  the font of the character of its cell is set, and every other pixel keeps its colour. The video
  memory has 128 KiB and the frame buffer 800 by 600 pixels.\<close>

theorem vga_text_pixels:
  assumes "length VRAM = 0x20000" and "length fb = 800 * 600"
  shows "\<exists>fb'. vga_print_text_mem VRAM fb = Some fb' \<and> length fb' = length fb \<and>
    (\<forall>Y < 600. \<forall>X < 800. fb' ! (Y * 800 + X) = (if Y < 400 \<and> X < 640 then text_pixel VRAM Y X else fb ! (Y * 800 + X)))"
proof -
  have "put_pixels (text_pixels VRAM) fb ! (Y * 800 + X) = (if Y < 400 \<and> X < 640 then text_pixel VRAM Y X else fb ! (Y * 800 + X))"
    if "Y < 600" "X < 800" for Y X
  proof -
    have "(Y * 800 + X) div 800 = Y" "(Y * 800 + X) mod 800 = X" using that(2) by simp_all
    then show ?thesis unfolding text_pixels_nth [OF assms(2) that] text_pixels_iff [OF that(2)] by simp
  qed
  then show ?thesis unfolding text_mem_pixels [OF assms] by simp
qed

theorem vga_text_pixels_witness:
  "\<exists>fb'. vga_print_text_mem (replicate 0x20000 0xFF) (replicate (800 * 600) 7) = Some fb' \<and>
     fb' ! (399 * 800 + 639) = 0xFFFFFF \<and> fb' ! (400 * 800 + 639) = 7"
proof -
  obtain fb' where fb': "vga_print_text_mem (replicate 0x20000 0xFF) (replicate (800 * 600) 7) = Some fb'"
    "\<And>Y X. Y < 600 \<Longrightarrow> X < 800 \<Longrightarrow> fb' ! (Y * 800 + X) =
      (if Y < 400 \<and> X < 640 then text_pixel (replicate 0x20000 0xFF) Y X else replicate (800 * 600) 7 ! (Y * 800 + X))"
    using vga_text_pixels [of "replicate 0x20000 0xFF" "replicate (800 * 600) 7"] unfolding length_replicate by blast
  then show ?thesis using fb'(2) [of 399 639] fb'(2) [of 400 639] by (simp add: text_pixel_def nth_replicate)
qed

end
