(* ===== verification/Evm.thy ===== *)
theory Evm
  imports Chipset Evm_Pci
begin

text \<open>
  The virtual machine monitor around its devices, \<open>src/apps/evm/src/vm.cpp\<close> and the parts of
  \<open>chipset.cpp\<close> and \<open>vga.cpp\<close> that connect the devices to ports and addresses: the two PCI ports, the
  list of regions that start-up registers, the handling of an exit of the guest and the run loop.

  What the file system and the processor give (the ROM images, \<open>cpuid\<close>, the time stamp counter, the
  guest itself) is a parameter.
\<close>

section \<open>State\<close>

record pci_data =
  pd_addr :: pci_address
  pd_offset :: u8
  pd_enable :: bool

record 'h evm =
  e_cmos :: cmos
  e_pit :: pit
  e_i8042 :: i8042
  e_vbe :: vbe
  e_pci :: pci_data
  e_devs :: "pci_device list"
  e_host :: 'h
  e_stdout :: "u8 list"
  e_mem_size :: u64
  e_remainder :: u64

section \<open>PCI ports\<close>

definition pci_cmd_read :: "u16 \<Rightarrow> u8 \<Rightarrow> 'h evm \<Rightarrow> (u32 \<times> 'h evm) option" where
  "pci_cmd_read offset sz v = Some (if pd_enable (e_pci v) then 0x80000000 else 0, v)"

definition pci_cmd_write :: "u16 \<Rightarrow> u32 \<Rightarrow> u8 \<Rightarrow> 'h evm \<Rightarrow> 'h evm option" where
  "pci_cmd_write offset val sz v =
     (if offset \<noteq> 0 \<or> sz \<noteq> 4 then None
      else Some (v\<lparr>e_pci := \<lparr>pd_addr = \<lparr>bus = ucast (drop_bit 16 val), dev = ucast (drop_bit 11 val AND 0x1F),
                      func = ucast (drop_bit 8 val AND 7)\<rparr>,
                    pd_offset = ucast val, pd_enable = bit val 31\<rparr>\<rparr>))"

definition pci_data_read :: "u16 \<Rightarrow> u8 \<Rightarrow> 'h evm \<Rightarrow> (u32 \<times> 'h evm) option" where
  "pci_data_read offset sz v =
     (if \<not> pd_enable (e_pci v) then Some (0xFFFFFFFF, v)
      else do { x \<leftarrow> pci_config_read (e_devs v) (pd_addr (e_pci v)) (ucast (pd_offset (e_pci v)) + offset) sz;
                Some (x, v) })"

definition pci_data_write :: "'h hypervisor \<Rightarrow> u16 \<Rightarrow> u32 \<Rightarrow> u8 \<Rightarrow> 'h evm \<Rightarrow> 'h evm option" where
  "pci_data_write hv offset val sz v =
     (if \<not> pd_enable (e_pci v) then Some v
      else do { (ds, h) \<leftarrow> pci_config_write hv (pd_addr (e_pci v)) (ucast (pd_offset (e_pci v)) + offset) val sz
                  (e_devs v, e_host v);
                Some (v\<lparr>e_devs := ds, e_host := h\<rparr>) })"

section \<open>Regions\<close>

record 'h io_region =
  io_base :: nat
  io_size :: nat
  io_read :: "u16 \<Rightarrow> u8 \<Rightarrow> 'h evm \<Rightarrow> (u32 \<times> 'h evm) option"
  io_write :: "u16 \<Rightarrow> u32 \<Rightarrow> u8 \<Rightarrow> 'h evm \<Rightarrow> 'h evm option"

record 'h mmio_region =
  mmio_base :: u64
  mmio_size :: u64
  mmio_read :: "u64 \<Rightarrow> u8 \<Rightarrow> 'h evm \<Rightarrow> (u64 \<times> 'h evm) option"
  mmio_write :: "u64 \<Rightarrow> u64 \<Rightarrow> u8 \<Rightarrow> 'h evm \<Rightarrow> 'h evm option"

definition vm_regions :: "'h hypervisor \<Rightarrow> 'h io_region list" where
  "vm_regions hv =
     [\<lparr>io_base = 0x402, io_size = 1, io_read = (\<lambda>_ _ v. Some (0xE9, v)),
       io_write = (\<lambda>_ val _ v. Some (v\<lparr>e_stdout := e_stdout v @ [ucast val]\<rparr>))\<rparr>,
      \<lparr>io_base = 0xCF8, io_size = 4, io_read = pci_cmd_read, io_write = pci_cmd_write\<rparr>,
      \<lparr>io_base = 0xCFC, io_size = 4, io_read = pci_data_read, io_write = pci_data_write hv\<rparr>]"

definition i8042_region :: "nat \<Rightarrow> u16 \<Rightarrow> 'h io_region" where
  "i8042_region port offset =
     \<lparr>io_base = port, io_size = 1,
      io_read = (\<lambda>_ sz v. if sz \<noteq> 1 then None
        else let (b, c) = i8042_read offset (e_i8042 v) in Some (ucast b, v\<lparr>e_i8042 := c\<rparr>)),
      io_write = (\<lambda>_ val sz v. if sz \<noteq> 1 then None
        else do { c \<leftarrow> i8042_write offset (ucast val) (e_i8042 v); Some (v\<lparr>e_i8042 := c\<rparr>) })\<rparr>"

definition chipset_regions :: "'h io_region list" where
  "chipset_regions =
     [\<lparr>io_base = 0x40, io_size = 4,
       io_read = (\<lambda>offset sz v. do { (x, p) \<leftarrow> pit_read offset sz (e_pit v); Some (x, v\<lparr>e_pit := p\<rparr>) }),
       io_write = (\<lambda>offset val sz v. do { p \<leftarrow> pit_write offset val sz (e_pit v); Some (v\<lparr>e_pit := p\<rparr>) })\<rparr>,
      i8042_region 0x60 0,
      \<lparr>io_base = 0x61, io_size = 1,
       io_read = (\<lambda>_ sz v. if sz \<noteq> 1 then None else Some (ucast (NMI_STATUS (e_pit v)), v)),
       io_write = (\<lambda>_ val sz v. if sz \<noteq> 1 then None else Some (v\<lparr>e_pit := (e_pit v)\<lparr>NMI_STATUS := ucast val\<rparr>\<rparr>))\<rparr>,
      i8042_region 0x64 4,
      \<lparr>io_base = 0x70, io_size = 2,
       io_read = (\<lambda>offset sz v. do { (x, c) \<leftarrow> cmos_read (e_mem_size v) offset sz (e_cmos v); Some (x, v\<lparr>e_cmos := c\<rparr>) }),
       io_write = (\<lambda>offset val sz v. do { c \<leftarrow> cmos_write offset val sz (e_cmos v); Some (v\<lparr>e_cmos := c\<rparr>) })\<rparr>,
      \<lparr>io_base = 0x92, io_size = 1, io_read = (\<lambda>_ sz v. if sz \<noteq> 1 then None else Some (0, v)),
       io_write = (\<lambda>_ _ sz v. if sz \<noteq> 1 then None else Some v)\<rparr>,
      \<lparr>io_base = 0x3C0, io_size = 21, io_read = (\<lambda>_ _ v. Some (0, v)), io_write = (\<lambda>_ _ _ v. Some v)\<rparr>]"

definition vga_regions :: "'h io_region list" where
  "vga_regions =
     [\<lparr>io_base = 0x1CE, io_size = 2,
       io_read = (\<lambda>offset sz v. do { x \<leftarrow> vbe_read offset sz (e_vbe v); Some (x, v) }),
       io_write = (\<lambda>offset val sz v. do { r \<leftarrow> vbe_write offset val sz (e_vbe v); Some (v\<lparr>e_vbe := r\<rparr>) })\<rparr>,
      \<lparr>io_base = 0x3C6, io_size = 4, io_read = (\<lambda>_ _ v. Some (0, v)), io_write = (\<lambda>_ _ _ v. Some v)\<rparr>]"

definition io_regions :: "'h hypervisor \<Rightarrow> 'h io_region list" where
  "io_regions hv = vm_regions hv @ chipset_regions @ vga_regions"

definition ecam_address :: "u64 \<Rightarrow> pci_address" where
  "ecam_address offset =
     \<lparr>bus = ucast (drop_bit 20 offset), dev = ucast (drop_bit 15 offset AND 0x1F), func = ucast (drop_bit 12 offset AND 7)\<rparr>"

definition mmio_regions :: "'h hypervisor \<Rightarrow> 'h mmio_region list" where
  "mmio_regions hv =
     [\<lparr>mmio_base = 0xB0000000, mmio_size = (push_bit 20 0 OR push_bit 15 1) + 0x1000,
       mmio_read = (\<lambda>offset sz v. do { x \<leftarrow> pci_config_read (e_devs v) (ecam_address offset) (ucast (offset AND 0xFFF)) sz;
                                       Some (ucast x, v) }),
       mmio_write = (\<lambda>offset val sz v.
         do { (ds, h) \<leftarrow> pci_config_write hv (ecam_address offset) (ucast (offset AND 0xFFF)) (ucast val) sz (e_devs v, e_host v);
              Some (v\<lparr>e_devs := ds, e_host := h\<rparr>) })\<rparr>]"

text \<open>The two devices of start-up: the host bridge and the display with its memory and its ROM.\<close>

definition chipset_devices :: "u64 \<Rightarrow> u32 \<Rightarrow> u64 \<Rightarrow> u64 \<Rightarrow> pci_device list" where
  "chipset_devices fb fb_size vga_rom_mem rom_size =
     (let d = pci_device_new \<lparr>bus = 0, dev = 0, func = 0\<rparr> True;
          d = d\<lparr>pci_cfg := set_type 0 (set_subsystem 0x1AF4 0x1100 (set_device 0x8086 0x29C0 (pci_cfg d)))\<rparr>;
          g = pci_device_new \<lparr>bus = 0, dev = 1, func = 0\<rparr> True;
          c = set_type 0 (set_class 3 0 0 0 (set_device 0x1234 0x1111 (pci_cfg g)));
          c = c\<lparr>bars := (bars c)[0 := fb, 6 := vga_rom_mem],
                 bar_sizes := (bar_sizes c)[0 := fb_size, 6 := ucast (page_round rom_size)]\<rparr>
      in [d, g\<lparr>pci_cfg := c\<rparr>])"

text \<open>Start-up: the memory of the display, the low memory, the BIOS and the high memory are mapped into
  the guest. The addresses of the host memory behind them are given.\<close>

record vm_memory =
  m_fb :: u64
  m_fb_size :: u32
  m_vga_rom :: u64
  m_vga_rom_size :: u64
  m_vram :: u64
  m_bios :: u64
  m_bios_size :: u64
  m_low :: u64
  m_high :: u64

definition evm_map :: "'h hypervisor \<Rightarrow> u64 \<Rightarrow> u64 \<Rightarrow> u64 \<Rightarrow> 'h \<Rightarrow> 'h option" where
  "evm_map hv guest mem sz h = (let (err, h) = sys_evm_map hv guest mem sz h in if err = 0 then Some h else None)"

definition vga_init :: "'h hypervisor \<Rightarrow> u64 \<Rightarrow> 'h \<Rightarrow> 'h option" where
  "vga_init hv vram h = map_mem hv 0xA0000 vram (1024 * 128) h"

definition vm_new :: "'h hypervisor \<Rightarrow> vm_memory \<Rightarrow> 'h \<Rightarrow> 'h evm option" where
  "vm_new hv m h =
     do { let devs = chipset_devices (m_fb m) (m_fb_size m) (m_vga_rom m) (m_vga_rom_size m);
          h \<leftarrow> vga_init hv (m_vram m) h;
          let MEMORY_SIZE = 1024 * 1024 * 64;
          h \<leftarrow> evm_map hv 0 (m_low m) 0xA0000 h;
          h \<leftarrow> evm_map hv 0xC0000 (m_bios m) (page_round (m_bios_size m)) h;
          h \<leftarrow> evm_map hv 0x100000 (m_high m) (0xF00000 + MEMORY_SIZE) h;
          Some \<lparr>e_cmos = cmos_new, e_pit = pit_new, e_i8042 = i8042_new, e_vbe = vbe_new,
            e_pci = \<lparr>pd_addr = \<lparr>bus = 0, dev = 0, func = 0\<rparr>, pd_offset = 0, pd_enable = False\<rparr>, e_devs = devs,
            e_host = h, e_stdout = [], e_mem_size = MEMORY_SIZE, e_remainder = 0\<rparr> }"

section \<open>Exits of the guest\<close>

datatype vm_exit =
    Halt
  | IoIn u16 u8
  | IoOut u16 u8 u32
  | MmioRead u64 u8
  | MmioWrite u64 u64 u8
  | Cpuid
  | TripleFault
  | OtherExit nat

record guest =
  rax :: u64
  rbx :: u64
  rcx :: u64
  rdx :: u64
  ret_value :: u64

datatype after_exit = Continue | Stop | Exit1

definition find_io :: "u16 \<Rightarrow> 'h io_region list \<Rightarrow> 'h io_region option" where
  "find_io port rs = List.find (\<lambda>r. unat port \<ge> io_base r \<and> unat port < io_base r + io_size r) rs"

definition find_mmio :: "u64 \<Rightarrow> 'h mmio_region list \<Rightarrow> 'h mmio_region option" where
  "find_mmio addr rs = List.find (\<lambda>r. addr \<ge> mmio_base r \<and> addr < mmio_base r + mmio_size r) rs"

definition handle_vm_exit :: "'h hypervisor \<Rightarrow> (u64 \<Rightarrow> u64 \<Rightarrow> u32 \<times> u32 \<times> u32 \<times> u32) \<Rightarrow> vm_exit \<Rightarrow> guest \<times> 'h evm
    \<Rightarrow> (after_exit \<times> guest \<times> 'h evm) option" where
  "handle_vm_exit hv cpuid ex s =
     (let (g, v) = s
      in case ex of
        Halt \<Rightarrow> Some (Stop, g, v)
      | IoIn port sz \<Rightarrow>
          (case find_io port (io_regions hv) of
             Some r \<Rightarrow> do { (x, v) \<leftarrow> io_read r (port - of_nat (io_base r)) sz v; Some (Continue, g\<lparr>ret_value := ucast x\<rparr>, v) }
           | None \<Rightarrow> Some (Continue, g, v))
      | IoOut port sz val \<Rightarrow>
          (case find_io port (io_regions hv) of
             Some r \<Rightarrow> do { v \<leftarrow> io_write r (port - of_nat (io_base r)) val sz v; Some (Continue, g, v) }
           | None \<Rightarrow> Some (Continue, g, v))
      | MmioRead addr sz \<Rightarrow>
          (case find_mmio addr (mmio_regions hv) of
             Some r \<Rightarrow> do { (x, v) \<leftarrow> mmio_read r (addr - mmio_base r) sz v; Some (Continue, g\<lparr>ret_value := x\<rparr>, v) }
           | None \<Rightarrow> Some (Continue, g, v))
      | MmioWrite addr val sz \<Rightarrow>
          (case find_mmio addr (mmio_regions hv) of
             Some r \<Rightarrow> do { v \<leftarrow> mmio_write r (addr - mmio_base r) val sz v; Some (Continue, g, v) }
           | None \<Rightarrow> Some (Continue, g, v))
      | Cpuid \<Rightarrow>
          (let (eax, ebx, ecx, edx) = cpuid (rax g) (rcx g)
           in if rax g = 0x40000000
              then Some (Continue, g\<lparr>rax := ucast eax, rbx := 0x73657263, rcx := 0x746E6563, rdx := 0x6D7665\<rparr>, v)
              else Some (Continue, g\<lparr>rax := ucast eax, rbx := ucast ebx, rcx := ucast ecx, rdx := ucast edx\<rparr>, v))
      | TripleFault \<Rightarrow> Some (Exit1, g, v)
      | OtherExit _ \<Rightarrow> Some (Stop, g, v))"

text \<open>One processor: the guest is a function that runs until the next exit, with the processor time
  that the round took. Each of the two loops of \<open>run\<close> makes a bounded number of rounds.\<close>

fun vm_rounds :: "'h hypervisor \<Rightarrow> (u64 \<Rightarrow> u64 \<Rightarrow> u32 \<times> u32 \<times> u32 \<times> u32) \<Rightarrow> (guest \<Rightarrow> 'g \<Rightarrow> vm_exit \<times> guest \<times> u64 \<times> 'g)
    \<Rightarrow> u64 \<Rightarrow> nat \<Rightarrow> guest \<times> 'h evm \<times> 'g \<Rightarrow> (after_exit \<times> guest \<times> 'h evm \<times> 'g) option" where
  "vm_rounds hv cpuid vcpu_run freq 0 (g, v, w) = Some (Continue, g, v, w)"
| "vm_rounds hv cpuid vcpu_run freq (Suc n) (g, v, w) =
     (let (ex, g, elapsed, w) = vcpu_run g w
      in do { (a, g, v) \<leftarrow> handle_vm_exit hv cpuid ex (g, v);
              if a = Exit1 then Some (Exit1, g, v, w)
              else do { (r, p) \<leftarrow> chipset_update_timers freq elapsed (e_remainder v, e_pit v);
                        let v = v\<lparr>e_remainder := r, e_pit := p\<rparr>
                        in if a = Stop then Some (Stop, g, v, w) else vm_rounds hv cpuid vcpu_run freq n (g, v, w) } })"

definition vm_run :: "'h hypervisor \<Rightarrow> (u64 \<Rightarrow> u64 \<Rightarrow> u32 \<times> u32 \<times> u32 \<times> u32) \<Rightarrow> (guest \<Rightarrow> 'g \<Rightarrow> vm_exit \<times> guest \<times> u64 \<times> 'g)
    \<Rightarrow> ('g \<Rightarrow> 'g) \<Rightarrow> u64 \<Rightarrow> guest \<times> 'h evm \<times> 'g \<Rightarrow> (after_exit \<times> guest \<times> 'h evm \<times> 'g) option" where
  "vm_run hv cpuid vcpu_run trigger_irq_8 freq s =
     do { (a, g, v, w) \<leftarrow> vm_rounds hv cpuid vcpu_run freq 40000 s;
          if a = Exit1 then Some (Exit1, g, v, w)
          else vm_rounds hv cpuid vcpu_run freq 1000 (g, v, trigger_irq_8 w) }"

section \<open>Properties\<close>

lemma find_io_pci:
  "find_io 0xCF8 (io_regions hv) = Some \<lparr>io_base = 0xCF8, io_size = 4, io_read = pci_cmd_read, io_write = pci_cmd_write\<rparr>"
  "k < 4 \<Longrightarrow> find_io (0xCFC + of_nat k) (io_regions hv) =
     Some \<lparr>io_base = 0xCFC, io_size = 4, io_read = pci_data_read, io_write = pci_data_write hv\<rparr>"
proof -
  show "find_io 0xCF8 (io_regions hv) = Some \<lparr>io_base = 0xCF8, io_size = 4, io_read = pci_cmd_read, io_write = pci_cmd_write\<rparr>"
    by (simp add: find_io_def io_regions_def vm_regions_def)
  assume k: "k < 4"
  have "unat (0xCFC + of_nat k :: u16) = 0xCFC + k"
  proof -
    have "(0xCFC + of_nat k :: u16) = of_nat (0xCFC + k)" by simp
    moreover have "unat (of_nat n :: u16) = n" if "n < 65536" for n using that by (simp add: unat_of_nat)
    ultimately show ?thesis using k by (simp del: of_nat_add of_nat_numeral)
  qed
  then show "find_io (0xCFC + of_nat k) (io_regions hv) =
     Some \<lparr>io_base = 0xCFC, io_size = 4, io_read = pci_data_read, io_write = pci_data_write hv\<rparr>"
    using k by (simp add: find_io_def io_regions_def vm_regions_def)
qed

text \<open>Register numbers as the two ways of addressing encode them.\<close>

lemma cf8_fields:
  fixes d f e :: u32 and reg :: u8
  assumes "take_bit 5 d = d" and "take_bit 3 f = f" and "e = 1"
  defines "v \<equiv> push_bit 31 e OR push_bit 11 d OR push_bit 8 f OR ucast reg"
  shows "drop_bit 11 v AND 0x1F = d" and "drop_bit 8 v AND 7 = f" and "ucast v = reg" and "bit v 31"
    and "ucast (drop_bit 16 v) = (0 :: u8)"
proof -
  have m: "(0x1F :: u32) = mask 5" "(7 :: u32) = mask 3" by (simp_all add: mask_eq_exp_minus_1)
  have d: "n < 5" if "bit d n" for n using that assms(1) by (metis bit_take_bit_iff)
  have f: "n < 3" if "bit f n" for n using that assms(2) by (metis bit_take_bit_iff)
  have e: "n = 0" if "bit e n" for n using that assms(3) by (simp add: bit_1_iff)
  show "drop_bit 11 v AND 0x1F = d" unfolding m v_def
    by (rule bit_word_eqI) (auto simp: bit_simps dest: bit_imp_le_length d f e)
  show "drop_bit 8 v AND 7 = f" unfolding m v_def
    by (rule bit_word_eqI) (auto simp: bit_simps dest: bit_imp_le_length d f e)
  show "ucast v = reg" unfolding v_def
    by (rule bit_word_eqI) (auto simp: bit_simps)
  show "bit v 31" unfolding v_def by (simp add: bit_simps assms(3))
  show "ucast (drop_bit 16 v) = (0 :: u8)" unfolding v_def
    by (rule bit_word_eqI) (auto simp: bit_simps dest: bit_imp_le_length d f e)
qed

lemma ecam_fields:
  fixes d f :: u32 and reg :: u8
  assumes "take_bit 5 d = d" and "take_bit 3 f = f"
  defines "v \<equiv> push_bit 15 (ucast d) OR push_bit 12 (ucast f) OR ucast reg :: u64"
  shows "ecam_address v = \<lparr>bus = 0, dev = ucast d, func = ucast f\<rparr>" and "ucast (v AND 0xFFF) = (ucast reg :: u16)"
proof -
  have m: "(0x1F :: u64) = mask 5" "(7 :: u64) = mask 3" "(0xFFF :: u64) = mask 12" by (simp_all add: mask_eq_exp_minus_1)
  have d: "n < 5" if "bit d n" for n using that assms(1) by (metis bit_take_bit_iff)
  have f: "n < 3" if "bit f n" for n using that assms(2) by (metis bit_take_bit_iff)
  have "ucast (drop_bit 15 v AND 0x1F) = (ucast d :: u8)" unfolding m v_def
    by (rule bit_word_eqI) (auto simp: bit_simps dest: bit_imp_le_length d f)
  moreover have "ucast (drop_bit 12 v AND 7) = (ucast f :: u8)" unfolding m v_def
    by (rule bit_word_eqI) (auto simp: bit_simps dest: bit_imp_le_length d f)
  moreover have "ucast (drop_bit 20 v) = (0 :: u8)" unfolding v_def
    by (rule bit_word_eqI) (auto simp: bit_simps dest: bit_imp_le_length d f)
  ultimately show "ecam_address v = \<lparr>bus = 0, dev = ucast d, func = ucast f\<rparr>" by (simp add: ecam_address_def)
  show "ucast (v AND 0xFFF) = (ucast reg :: u16)" unfolding m v_def
    by (rule bit_word_eqI) (auto simp: bit_simps dest: bit_imp_le_length d f)
qed

lemma find_ecam:
  assumes "off < 0x9000"
  shows "find_mmio (0xB0000000 + off) (mmio_regions hv) = Some (hd (mmio_regions hv))"
    and "mmio_base (hd (mmio_regions hv)) = 0xB0000000"
proof -
  have "unat (0xB0000000 + off) = 0xB0000000 + unat off"
    using assms by (subst unat_add_small) (simp_all add: word_less_nat_alt)
  then have "(0xB0000000 :: u64) \<le> 0xB0000000 + off" "0xB0000000 + off < 0xB0009000"
    using assms by (simp_all add: word_le_nat_alt word_less_nat_alt)
  then show "find_mmio (0xB0000000 + off) (mmio_regions hv) = Some (hd (mmio_regions hv))"
    by (simp add: find_mmio_def mmio_regions_def)
  show "mmio_base (hd (mmio_regions hv)) = 0xB0000000" by (simp add: mmio_regions_def)
qed

text \<open>C23 The two ways to configuration space agree: for every function and register whose address
  lies in the memory window, selecting it through port CF8 and reading port CFC gives the guest what
  reading its address in the window gives, for every access size.\<close>

theorem ecam_matches_ports:
  fixes d f :: u32 and reg :: u8
  assumes "take_bit 5 d = d" and "take_bit 3 f = f" and "push_bit 15 (ucast d) OR push_bit 12 (ucast f) OR ucast reg < (0x9000 :: u64)"
  shows "\<exists>v1. handle_vm_exit hv cpuid (IoOut 0xCF8 4 (push_bit 31 1 OR push_bit 11 d OR push_bit 8 f OR ucast reg)) (g, v) =
      Some (Continue, g, v1) \<and>
    map_option (\<lambda>(a, g, v). (a, g)) (handle_vm_exit hv cpuid (IoIn 0xCFC sz) (g, v1)) =
    map_option (\<lambda>(a, g, v). (a, g)) (handle_vm_exit hv cpuid
      (MmioRead (0xB0000000 + (push_bit 15 (ucast d) OR push_bit 12 (ucast f) OR ucast reg)) sz) (g, v))"
proof -
  define val where "val = push_bit 31 1 OR push_bit 11 d OR push_bit 8 f OR ucast reg"
  define off where "off = (push_bit 15 (ucast d) OR push_bit 12 (ucast f) OR ucast reg :: u64)"
  note F = cf8_fields [OF assms(1,2) refl, of reg, folded val_def]
  note E = ecam_fields [OF assms(1,2), of reg, folded off_def]
  have o: "off < 0x9000" using assms(3) by (simp only: off_def)
  define pd where "pd = \<lparr>pd_addr = \<lparr>bus = 0, dev = ucast d, func = ucast f\<rparr>, pd_offset = reg, pd_enable = True\<rparr>"
  have 1: "handle_vm_exit hv cpuid (IoOut 0xCF8 4 val) (g, v) = Some (Continue, g, v\<lparr>e_pci := pd\<rparr>)"
    by (simp add: handle_vm_exit_def find_io_pci(1) pci_cmd_write_def F pd_def)
  have 2: "handle_vm_exit hv cpuid (IoIn 0xCFC sz) (g, v\<lparr>e_pci := pd\<rparr>) =
      do { x \<leftarrow> pci_config_read (e_devs v) \<lparr>bus = 0, dev = ucast d, func = ucast f\<rparr> (ucast reg) sz;
           Some (Continue, g\<lparr>ret_value := ucast x\<rparr>, v\<lparr>e_pci := pd\<rparr>) }"
    using find_io_pci(2) [of 0 hv] by (simp add: handle_vm_exit_def pci_data_read_def pd_def)
  have 3: "handle_vm_exit hv cpuid (MmioRead (0xB0000000 + off) sz) (g, v) =
      do { x \<leftarrow> pci_config_read (e_devs v) \<lparr>bus = 0, dev = ucast d, func = ucast f\<rparr> (ucast reg) sz;
           Some (Continue, g\<lparr>ret_value := ucast x\<rparr>, v) }"
    using find_ecam [OF o, of hv] by (simp add: handle_vm_exit_def) (simp add: mmio_regions_def E)
  show ?thesis unfolding val_def [symmetric] off_def [symmetric]
    by (intro exI [of _ "v\<lparr>e_pci := pd\<rparr>"]) (simp add: 1 2 3 split: bind_splits)
qed

theorem ecam_matches_ports_witness:
  "\<exists>v1. handle_vm_exit log_hv (\<lambda>_ _. (0, 0, 0, 0)) (IoOut 0xCF8 4 (push_bit 31 1 OR push_bit 11 1 OR push_bit 8 0 OR ucast (4 :: u8)))
      (\<lparr>rax = 0, rbx = 0, rcx = 0, rdx = 0, ret_value = 0\<rparr>, \<lparr>e_cmos = cmos_new, e_pit = pit_new, e_i8042 = i8042_new, e_vbe = vbe_new,
        e_pci = \<lparr>pd_addr = \<lparr>bus = 0, dev = 0, func = 0\<rparr>, pd_offset = 0, pd_enable = False\<rparr>, e_devs = chipset_devices 0x7000 0x1000 0x9000 0x1000,
        e_host = [], e_stdout = [], e_mem_size = 0, e_remainder = 0\<rparr>) =
      Some (Continue, \<lparr>rax = 0, rbx = 0, rcx = 0, rdx = 0, ret_value = 0\<rparr>, v1) \<and>
    map_option (\<lambda>(a, g, v). (a, g)) (handle_vm_exit log_hv (\<lambda>_ _. (0, 0, 0, 0)) (IoIn 0xCFC 4) (\<lparr>rax = 0, rbx = 0, rcx = 0, rdx = 0, ret_value = 0\<rparr>, v1)) =
    map_option (\<lambda>(a, g, v). (a, g)) (handle_vm_exit log_hv (\<lambda>_ _. (0, 0, 0, 0))
      (MmioRead (0xB0000000 + (push_bit 15 (ucast (1 :: u32)) OR push_bit 12 (ucast (0 :: u32)) OR ucast (4 :: u8))) 4)
      (\<lparr>rax = 0, rbx = 0, rcx = 0, rdx = 0, ret_value = 0\<rparr>, \<lparr>e_cmos = cmos_new, e_pit = pit_new, e_i8042 = i8042_new, e_vbe = vbe_new,
        e_pci = \<lparr>pd_addr = \<lparr>bus = 0, dev = 0, func = 0\<rparr>, pd_offset = 0, pd_enable = False\<rparr>, e_devs = chipset_devices 0x7000 0x1000 0x9000 0x1000,
        e_host = [], e_stdout = [], e_mem_size = 0, e_remainder = 0\<rparr>))"
  by (rule ecam_matches_ports) simp_all

lemma unat_ucast_8_32_64: "unat (ucast (ucast (b :: u8) :: u32) :: u64) = unat b"
proof -
  have "(ucast (ucast b :: u32) :: u64) = ucast b" by (rule bit_word_eqI) (auto simp: bit_simps dest: bit_imp_le_length)
  then show ?thesis using unat_u8 [of b] by (simp add: unsigned_ucast_eq take_bit_nat_eq_self)
qed

lemma two_size_bytes: "m div 65536 mod 256 + 256 * (m div 16777216 mod 256) = m div 65536 mod (65536 :: nat)"
proof -
  have "m div 16777216 = m div 65536 div 256" by (simp add: div_mult2_eq [symmetric])
  then show ?thesis using mod_mult2_eq [of "m div 65536" 256 256] by simp
qed

text \<open>C25 The firmware learns the memory size through the CMOS ports: in every state of the monitor and
  for every memory size, selecting and reading registers 34 and 35 gives the two bytes of the size in
  units of 64 KiB. Start-up, which the kernel does not refuse when the host memory is page-aligned, maps
  at 1 MiB 15 MiB and then as many bytes as that size says.\<close>

theorem firmware_sees_mapped_memory:
  assumes "m_vram m AND 0xFFF = 0" and "m_low m AND 0xFFF = 0" and "m_bios m AND 0xFFF = 0" and "m_high m AND 0xFFF = 0"
  shows "(\<exists>v0. vm_new log_hv m [] = Some v0 \<and> Map 0x100000 (m_high m) (0xF00000 + e_mem_size v0) \<in> set (e_host v0)) \<and>
    (\<exists>v1 v2 v3 v4 g1 g2. handle_vm_exit hv cpuid (IoOut 0x70 1 0x34) (g, v) = Some (Continue, g, v1) \<and>
      handle_vm_exit hv cpuid (IoIn 0x71 1) (g, v1) = Some (Continue, g1, v2) \<and>
      handle_vm_exit hv cpuid (IoOut 0x70 1 0x35) (g1, v2) = Some (Continue, g1, v3) \<and>
      handle_vm_exit hv cpuid (IoIn 0x71 1) (g1, v3) = Some (Continue, g2, v4) \<and>
      unat (ret_value g1) + 256 * unat (ret_value g2) = unat (e_mem_size v) div 65536 mod 65536)"
proof
  show "\<exists>v0. vm_new log_hv m [] = Some v0 \<and> Map 0x100000 (m_high m) (0xF00000 + e_mem_size v0) \<in> set (e_host v0)"
    using assms by (simp add: vm_new_def vga_init_def map_mem_def evm_map_def log_hv_def page_round_def)
  have out: "handle_vm_exit hv cpuid (IoOut 0x70 1 x) (g, w) =
      Some (Continue, g, w\<lparr>e_cmos := (e_cmos w)\<lparr>CMOS_SELECT := ucast x, NMI_DISABLE := bit x 7\<rparr>\<rparr>)" for x g w
    by (simp add: handle_vm_exit_def find_io_def io_regions_def vm_regions_def chipset_regions_def i8042_region_def cmos_write_def)
  have inp: "handle_vm_exit hv cpuid (IoIn 0x71 1) (g, w) =
      (case cmos_read (e_mem_size w) 1 1 (e_cmos w) of None \<Rightarrow> None | Some (x, c) \<Rightarrow> Some (Continue, g\<lparr>ret_value := ucast x\<rparr>, w\<lparr>e_cmos := c\<rparr>))" for g w
    by (simp add: handle_vm_exit_def find_io_def io_regions_def vm_regions_def chipset_regions_def i8042_region_def split: option.split)
  show "\<exists>v1 v2 v3 v4 g1 g2. handle_vm_exit hv cpuid (IoOut 0x70 1 0x34) (g, v) = Some (Continue, g, v1) \<and>
      handle_vm_exit hv cpuid (IoIn 0x71 1) (g, v1) = Some (Continue, g1, v2) \<and>
      handle_vm_exit hv cpuid (IoOut 0x70 1 0x35) (g1, v2) = Some (Continue, g1, v3) \<and>
      handle_vm_exit hv cpuid (IoIn 0x71 1) (g1, v3) = Some (Continue, g2, v4) \<and>
      unat (ret_value g1) + 256 * unat (ret_value g2) = unat (e_mem_size v) div 65536 mod 65536"
    unfolding out inp using two_size_bytes [of "unat (e_mem_size v)"]
    by (simp add: cmos_read_def unat_ucast_8_32_64 drop_bit_bytes)
qed

theorem firmware_sees_mapped_memory_witness:
  "let m = \<lparr>m_fb = 0x10000, m_fb_size = 0x1D5000, m_vga_rom = 0x200000, m_vga_rom_size = 0x8000, m_vram = 0x300000,
       m_bios = 0x400000, m_bios_size = 0x40000, m_low = 0x500000, m_high = 0x600000\<rparr>;
       g = \<lparr>rax = 0, rbx = 0, rcx = 0, rdx = 0, ret_value = 0\<rparr>
   in \<exists>v0 v1 v2 v3 v4 g1 g2. vm_new log_hv m [] = Some v0 \<and>
     handle_vm_exit log_hv (\<lambda>_ _. (0, 0, 0, 0)) (IoOut 0x70 1 0x34) (g, v0\<lparr>e_mem_size := 0x1230000\<rparr>) = Some (Continue, g, v1) \<and>
     handle_vm_exit log_hv (\<lambda>_ _. (0, 0, 0, 0)) (IoIn 0x71 1) (g, v1) = Some (Continue, g1, v2) \<and>
     handle_vm_exit log_hv (\<lambda>_ _. (0, 0, 0, 0)) (IoOut 0x70 1 0x35) (g1, v2) = Some (Continue, g1, v3) \<and>
     handle_vm_exit log_hv (\<lambda>_ _. (0, 0, 0, 0)) (IoIn 0x71 1) (g1, v3) = Some (Continue, g2, v4) \<and>
     unat (ret_value g1) + 256 * unat (ret_value g2) = 0x123"
proof -
  let ?m = "\<lparr>m_fb = 0x10000, m_fb_size = 0x1D5000, m_vga_rom = 0x200000, m_vga_rom_size = 0x8000, m_vram = 0x300000,
       m_bios = 0x400000, m_bios_size = 0x40000, m_low = 0x500000, m_high = 0x600000\<rparr>"
  have m: "m_vram ?m AND 0xFFF = 0" "m_low ?m AND 0xFFF = 0" "m_bios ?m AND 0xFFF = 0" "m_high ?m AND 0xFFF = 0" by simp_all
  note F = firmware_sees_mapped_memory [OF m]
  obtain v0 where v0: "vm_new log_hv ?m [] = Some v0" using F by blast
  show ?thesis unfolding Let_def using v0 F [of log_hv "\<lambda>_ _. (0, 0, 0, 0)" "\<lparr>rax = 0, rbx = 0, rcx = 0, rdx = 0, ret_value = 0\<rparr>" "v0\<lparr>e_mem_size := 0x1230000\<rparr>"] by simp
qed

definition devs_ok :: "pci_device list \<Rightarrow> bool" where
  "devs_ok ds \<longleftrightarrow> (\<forall>d \<in> set ds. length (cfg (pci_cfg d)) = 0x1000)"

lemma set_bar_length [simp]:
  "length (cfg c) = 0x1000 \<Longrightarrow> bar < 6 \<Longrightarrow> length (cfg (set_bar bar x c)) = 0x1000"
  "length (cfg c) = 0x1000 \<Longrightarrow> length (cfg (set_expansion_rom x c)) = 0x1000"
  by (simp_all add: set_bar_def set_expansion_rom_def write32_def)

text \<open>The registers whose writes can move memory, and a hypervisor that accepts every call.\<close>

definition moves_bar :: "nat \<Rightarrow> bool" where
  "moves_bar off \<longleftrightarrow> (0x10 \<le> off \<and> off \<le> 0x24) \<or> off = 0x30"

definition hv_accepts :: "'h hypervisor \<Rightarrow> bool" where
  "hv_accepts hv \<longleftrightarrow> (\<forall>g mem n h. fst (sys_evm_map hv g mem n h) = 0) \<and> (\<forall>g n h. fst (sys_evm_unmap hv g n h) = 0)"

lemma move_bar_accepted:
  assumes "hv_accepts hv"
  shows "\<exists>c' h'. move_bar hv bar x (c, h) = Some (c', h') \<and> cfg c' = cfg c"
proof -
  have "\<exists>h'. map_mem hv g mem n h = Some h'" for g mem n h
    using assms by (auto simp: map_mem_def hv_accepts_def split: prod.split) (metis fst_conv)
  moreover have "\<exists>h'. unmap_mem hv g n h = Some h'" for g n h
    using assms by (auto simp: unmap_mem_def hv_accepts_def split: prod.split) (metis fst_conv)
  ultimately show ?thesis by (simp add: move_bar_def Let_def) (metis bind.bind_lunit pci_config.select_convs(1) pci_config.surjective pci_config.update_convs(4))
qed

lemma config_write_bounds:
  assumes "length (cfg c) = 0x1000" and "sz \<le> 4" and "moves_bar off \<longrightarrow> hv_accepts hv"
  shows "if 0x1000 < off + sz then config_write hv off val sz (c, h) = None
    else \<exists>c' h'. config_write hv off val sz (c, h) = Some (c', h') \<and> length (cfg c') = 0x1000"
proof -
  have st: "if 0x1000 < off + sz then store_config off val sz c' = None
      else \<exists>c''. store_config off val sz c' = Some c'' \<and> length (cfg c'') = 0x1000" if "cfg c' = cfg c" for c'
    using assms(1,2) that by (auto simp: store_config_def)
  show ?thesis
  proof (cases "moves_bar off")
    case True
    then have le: "\<not> 0x1000 < off + sz" using assms(2) by (auto simp: moves_bar_def)
    have ok: "hv_accepts hv" using True assms(3) by blast
    obtain c1 h1 where 1: "move_bar hv ((off - 0x10) div 4) (val AND NOT 7) (c, h) = Some (c1, h1)" "cfg c1 = cfg c"
      using move_bar_accepted [OF ok] by blast
    obtain c2 h2 where 2: "move_bar hv 6 (val AND NOT 1) (c, h) = Some (c2, h2)" "cfg c2 = cfg c"
      using move_bar_accepted [OF ok] by blast
    show ?thesis
      using le st [OF 1(2)] st [OF 2(2)] st [of c] 1(1) 2(1) assms(1) unfolding config_write_def Let_def by (auto simp del: bit.compl_zero)
  next
    case False
    then show ?thesis using st [of c] by (auto simp: config_write_def moves_bar_def)
  qed
qed

lemma pci_config_write_bounds:
  assumes "devs_ok ds" and "unat sz \<le> 4" and "moves_bar (unat off) \<longrightarrow> hv_accepts hv"
  shows "if a \<in> pci_addr ` set ds \<and> 0x1000 < unat off + unat sz then pci_config_write hv a off val sz (ds, h) = None
    else \<exists>ds' h'. pci_config_write hv a off val sz (ds, h) = Some (ds', h') \<and> devs_ok ds'"
  using assms(1)
proof (induction ds)
  case (Cons d ds)
  have "length (cfg (pci_cfg d)) = 0x1000" "devs_ok ds" using Cons.prems by (simp_all add: devs_ok_def)
  then show ?case
    using config_write_bounds [OF _ assms(2,3), of "pci_cfg d" val h] Cons
    by (cases "pci_addr d = a") (auto simp: devs_ok_def split: if_splits)
qed (simp add: devs_ok_def)

lemma pci_config_read_none:
  assumes "devs_ok ds" and "unat sz \<le> 4"
  shows "pci_config_read ds a off sz = None \<longleftrightarrow> a \<in> pci_addr ` set ds \<and> 0x1000 < unat off + unat sz"
proof (cases "List.find (\<lambda>d. pci_addr d = a) ds")
  case None
  then have "a \<notin> pci_addr ` set ds" by (auto simp: find_None_iff)
  then show ?thesis using None by (simp add: pci_config_read_def)
next
  case (Some d)
  then have "d \<in> set ds" "pci_addr d = a" by (auto simp: find_Some_iff)
  then show ?thesis using assms Some by (auto simp: pci_config_read_def devs_ok_def)
qed

lemma ecam_offset: "unat (ucast (off AND 0xFFF :: u64) :: u16) = unat (off AND 0xFFF)"
proof -
  have "off AND 0xFFF = take_bit 12 off" by (simp add: take_bit_eq_mask mask_eq_exp_minus_1)
  then have "unat (off AND 0xFFF) = take_bit 12 (unat off)" by (simp only: unsigned_take_bit_eq)
  then have "unat (off AND 0xFFF) < 4096" using take_bit_nat_less_exp [of 12 "unat off"] by simp
  then show ?thesis by (simp add: unsigned_ucast_eq take_bit_nat_eq_self)
qed

lemma port_offset:
  assumes "k < 4"
  shows "unat (ucast (r :: u8) + (of_nat k :: u16)) = unat r + k"
proof -
  have "unat (of_nat k :: u16) = k" using assms by (simp add: unat_of_nat)
  moreover have "unat (ucast r :: u16) = unat r" using unat_u8 [of r] by (simp add: unsigned_ucast_eq take_bit_nat_eq_self)
  ultimately show ?thesis using unat_u8 [of r] assms by (simp add: unat_word_ariths)
qed

text \<open>C24 Guest accesses of up to 4 bytes through the PCI data port stay inside the 4096-byte
  configuration spaces, and no write changes their sizes. Through the memory window a read and a write
  alike run over the end of the space exactly when they cross it: the source has no check there. For a
  write to a base address or ROM register the hypervisor is taken to accept the calls that move the
  memory.\<close>

theorem config_access_bounds:
  assumes "devs_ok (e_devs v)" and "unat sz \<le> 4" and "k < 4" and "off < 0x9000"
    and "moves_bar (unat (pd_offset (e_pci v)) + k) \<or> moves_bar (unat (off AND 0xFFF)) \<longrightarrow> hv_accepts hv"
  shows "handle_vm_exit hv cpuid (IoIn (0xCFC + of_nat k) sz) (g, v) \<noteq> None \<and>
    (\<exists>v'. handle_vm_exit hv cpuid (IoOut (0xCFC + of_nat k) sz val) (g, v) = Some (Continue, g, v') \<and> devs_ok (e_devs v')) \<and>
    (handle_vm_exit hv cpuid (MmioRead (0xB0000000 + off) sz) (g, v) = None \<longleftrightarrow>
      ecam_address off \<in> pci_addr ` set (e_devs v) \<and> 0x1000 < unat (off AND 0xFFF) + unat sz) \<and>
    (handle_vm_exit hv cpuid (MmioWrite (0xB0000000 + off) val' sz) (g, v) = None \<longleftrightarrow>
      ecam_address off \<in> pci_addr ` set (e_devs v) \<and> 0x1000 < unat (off AND 0xFFF) + unat sz) \<and>
    (\<forall>a g' v'. handle_vm_exit hv cpuid (MmioWrite (0xB0000000 + off) val' sz) (g, v) = Some (a, g', v') \<longrightarrow> devs_ok (e_devs v'))"
proof -
  define o' where "o' = ucast (pd_offset (e_pci v)) + (of_nat k :: u16)"
  have u: "unat o' = unat (pd_offset (e_pci v)) + k" unfolding o'_def by (rule port_offset [OF assms(3)])
  then have o': "unat o' + unat sz \<le> 0x1000" "moves_bar (unat o') \<longrightarrow> hv_accepts hv"
    using unat_u8 [of "pd_offset (e_pci v)"] assms(2,3,5) by auto
  define e where "e = (ucast (off AND 0xFFF) :: u16)"
  have e: "unat e = unat (off AND 0xFFF)" unfolding e_def by (rule ecam_offset)
  then have me: "moves_bar (unat e) \<longrightarrow> hv_accepts hv" using assms(5) by auto
  have "handle_vm_exit hv cpuid (IoIn (0xCFC + of_nat k) sz) (g, v) \<noteq> None"
    using pci_config_read_none [OF assms(1,2), of "pd_addr (e_pci v)" o'] o'
    by (auto simp: handle_vm_exit_def find_io_pci(2) [OF assms(3)] pci_data_read_def o'_def split: bind_splits)
  moreover have "\<exists>v'. handle_vm_exit hv cpuid (IoOut (0xCFC + of_nat k) sz val) (g, v) = Some (Continue, g, v') \<and> devs_ok (e_devs v')"
    using pci_config_write_bounds [OF assms(1,2) o'(2), of "pd_addr (e_pci v)" val "e_host v"] assms(1) o'(1)
    by (auto simp: handle_vm_exit_def find_io_pci(2) [OF assms(3)] pci_data_write_def o'_def)
  moreover have "handle_vm_exit hv cpuid (MmioRead (0xB0000000 + off) sz) (g, v) = None \<longleftrightarrow>
      pci_config_read (e_devs v) (ecam_address off) e sz = None"
    using find_ecam [OF assms(4), of hv] by (simp add: handle_vm_exit_def) (simp add: mmio_regions_def e_def split: bind_splits)
  moreover have w: "handle_vm_exit hv cpuid (MmioWrite (0xB0000000 + off) val' sz) (g, v) =
      do { (ds, h) \<leftarrow> pci_config_write hv (ecam_address off) e (ucast val') sz (e_devs v, e_host v);
           Some (Continue, g, v\<lparr>e_devs := ds, e_host := h\<rparr>) }"
    using find_ecam [OF assms(4), of hv]
    by (simp add: handle_vm_exit_def) (simp add: mmio_regions_def e_def case_prod_unfold split: bind_splits)
  have "(handle_vm_exit hv cpuid (MmioWrite (0xB0000000 + off) val' sz) (g, v) = None \<longleftrightarrow>
      ecam_address off \<in> pci_addr ` set (e_devs v) \<and> 0x1000 < unat e + unat sz) \<and>
    (\<forall>a g' v'. handle_vm_exit hv cpuid (MmioWrite (0xB0000000 + off) val' sz) (g, v) = Some (a, g', v') \<longrightarrow> devs_ok (e_devs v'))"
    using pci_config_write_bounds [OF assms(1,2) me, of "ecam_address off" "ucast val'" "e_host v"] unfolding w
    by (cases "ecam_address off \<in> pci_addr ` set (e_devs v) \<and> 0x1000 < unat e + unat sz") auto
  ultimately show ?thesis
    using pci_config_read_none [OF assms(1,2), of "ecam_address off" e] unfolding e by simp
qed

theorem config_access_bounds_witness:
  "let v = \<lparr>e_cmos = cmos_new, e_pit = pit_new, e_i8042 = i8042_new, e_vbe = vbe_new,
        e_pci = \<lparr>pd_addr = \<lparr>bus = 0, dev = 0, func = 0\<rparr>, pd_offset = 0xFF, pd_enable = True\<rparr>,
        e_devs = [pci_device_new \<lparr>bus = 0, dev = 0, func = 0\<rparr> True],
        e_host = [], e_stdout = [], e_mem_size = 0, e_remainder = 0\<rparr>;
       g = \<lparr>rax = 0, rbx = 0, rcx = 0, rdx = 0, ret_value = 0\<rparr>;
       cpuid = \<lambda>_ _. (0, 0, 0, 0)
   in handle_vm_exit log_hv cpuid (IoIn (0xCFC + of_nat 2) 4) (g, v) \<noteq> None \<and>
      handle_vm_exit log_hv cpuid (MmioRead (0xB0000000 + 0xFFC) 4) (g, v) \<noteq> None \<and>
      handle_vm_exit log_hv cpuid (MmioRead (0xB0000000 + 0xFFE) 4) (g, v) = None \<and>
      handle_vm_exit log_hv cpuid (MmioWrite (0xB0000000 + 0xFFC) 1 4) (g, v) \<noteq> None \<and>
      handle_vm_exit log_hv cpuid (MmioWrite (0xB0000000 + 0xFFE) 1 4) (g, v) = None"
proof -
  let ?v = "\<lparr>e_cmos = cmos_new, e_pit = pit_new, e_i8042 = i8042_new, e_vbe = vbe_new,
        e_pci = \<lparr>pd_addr = \<lparr>bus = 0, dev = 0, func = 0\<rparr>, pd_offset = 0xFF, pd_enable = True\<rparr>,
        e_devs = [pci_device_new \<lparr>bus = 0, dev = 0, func = 0\<rparr> True],
        e_host = [], e_stdout = [], e_mem_size = 0, e_remainder = 0\<rparr>"
  have "length (cfg (pci_config_new True)) = 0x1000"
    by (simp add: pci_config_new_def set_bar_def write32_def upt_conv_Cons)
  then have ok: "devs_ok (e_devs ?v)" by (simp add: devs_ok_def pci_device_new_def)
  have sz: "unat (4 :: u8) \<le> 4" "(2 :: nat) < 4" "(0xFFC :: u64) < 0x9000" "(0xFFE :: u64) < 0x9000" by simp_all
  have bar: "moves_bar (unat (pd_offset (e_pci ?v)) + 2) \<or> moves_bar (unat (off AND 0xFFF)) \<longrightarrow> hv_accepts log_hv"
    if "off = 0xFFC \<or> off = (0xFFE :: u64)" for off using that by (auto simp: moves_bar_def)
  have dev: "ecam_address 0xFFE \<in> pci_addr ` set (e_devs ?v)" by (simp add: ecam_address_def pci_device_new_def)
  have len: "\<not> 0x1000 < unat (0xFFC AND 0xFFF :: u64) + unat (4 :: u8)" "0x1000 < unat (0xFFE AND 0xFFF :: u64) + unat (4 :: u8)" by simp_all
  show ?thesis unfolding Let_def
    using config_access_bounds [OF ok sz(1-3) bar] config_access_bounds [OF ok sz(1,2,4) bar] dev len by blast
qed

end
