(* ===== verification/Spec2Isabelle.thy ===== *)
theory Spec2Isabelle
  imports Intrusive_List Bits Vmem_Spec Pmalloc Pipe Entropy Ps2 Hid Evm
begin

text \<open>
  A verification library for the Crescent kernel and its virtual machine monitor.

  The parts of the program and the theories that model them. Definitions keep the names of the source
  where these are free; names in more than one part get a prefix.

  \<^item> \<open>Prelude\<close>: machine words, alignment and the generic lemmas on lists that the other theories share.

  \<^item> \<open>Bits\<close>: the bit and byte order helpers of \<open>src/src/std/bit.hpp\<close>.

  \<^item> \<open>Intrusive_List\<close>: \<open>DoubleList\<close> of \<open>src/src/std/double_list.hpp\<close>, at the level of pointers
    in a store of hooks. Every operation is shown to implement the operation on a plain list, and
    sequences of operations simulate sequences on plain lists.

  \<^item> \<open>Pmalloc\<close>: the physical page allocator of \<open>src/src/mem/pmalloc.cpp\<close>: the regions, one free list
    for each power of two, splitting on allocation and merging with the buddy on freeing. The state
    \<open>pmem\<close> holds the global variables, with a descriptor for each page number. Shown for runs with
    aligned regions: the allocations held are disjoint and can all be freed. For a region that is
    not aligned a run is given whose allocations overlap.

  \<^item> \<open>Vmem\<close>, \<open>Vmem_Inv\<close>, \<open>Vmem_Alloc\<close>, \<open>Vmem_Spec\<close>: the allocator of virtual address ranges of
    \<open>src/src/mem/vmem.cpp\<close>; its operations, its invariant, that allocation and freeing keep it,
    and what its users can rely on: regions are disjoint and in range, an allocation without bounds
    finds any gap that is large enough, and freeing undoes an allocation. The page allocator that
    it takes its segments from is the locale \<open>page_source\<close>, which \<open>Pmalloc\<close> interprets.

  \<^item> \<open>Events\<close>: the events of \<open>src/src/dev/event.cpp\<close>, on which threads wait. Events stay
    well-formed and signals are conserved under waiting and signalling in any order; the exception
    is \<open>wait_any\<close>, for which dangling entries are shown.

  \<^item> \<open>Entropy\<close>: the random number generator of \<open>src/src/dev/random.cpp\<close> with ChaCha20 and BLAKE2b.
    Streaming BLAKE2b equals a block by block reference, the rounds of ChaCha20 are invertible,
    and nonces do not repeat.

  \<^item> \<open>Ring\<close>: rings over arrays and the contract \<open>bounded_fifo\<close> of a bounded queue.

  \<^item> \<open>Pipe\<close>: the ring buffer of \<open>src/src/std/ring_buffer.hpp\<close> and the pipes of \<open>src/src/fs/pipe.cpp\<close>.
    The state \<open>pipe_sys\<close> has a buffer and any number of threads inside its calls; a step of
    \<open>thread_step\<close> is one critical section, and a schedule is a list of thread numbers. In every
    schedule bytes arrive in the order in which they were sent; calls that do not block return;
    a blocking write and a blocking read of as many bytes always complete, which a weight that every
    step lowers shows together with the bound on the number of steps; and a read that does not
    block leaves a waiting writer asleep. The fields \<open>sent\<close> and \<open>received\<close> are a record of the bytes
    and have no counterpart in the code.

  \<^item> \<open>Input_Events\<close>: the input events and the queue of \<open>src/src/sys/event_queue.cpp\<close>, an
    interpretation of \<open>bounded_fifo\<close>.

  \<^item> \<open>Ps2\<close>: the PS/2 keyboard and mouse drivers of \<open>src/src/arch/x86/dev/\<close>. The bytes of every
    sequence of key presses and releases are decoded to these events.

  \<^item> \<open>Hid\<close>: the driver for USB keyboards and mice, \<open>src/src/dev/usb/dev/hid.cpp\<close>: the parser of report
    descriptors, the extraction of bit fields, and events. Fields are the bits of the report; with
    the descriptors of the USB specification keyboards and mice give the right events, as long as no
    modifier key is held; what happens with modifiers and with report identifiers is shown to be wrong.

  \<^item> \<open>Chipset\<close>: the devices of \<open>src/apps/evm/src/chipset.cpp\<close>, which the virtual machine monitor
    offers its guests: CMOS registers, interval timer and keyboard controller. Shown are the
    queue discipline of the controller, programming and counting of the timer, and that no time
    is lost between updates.

  \<^item> \<open>Evm_Pci\<close>: PCI configuration spaces and the display of the monitor, \<open>pci.hpp\<close>, \<open>pci.cpp\<close> and
    \<open>vga.cpp\<close> of \<open>src/apps/evm/src/\<close>: registers read back, base address registers report their
    size, and text is drawn within the frame buffer.

  \<^item> \<open>Evm\<close>: the monitor itself, \<open>src/apps/evm/src/vm.cpp\<close>: start-up, the dispatch of guest exits to
    the devices and the run loop. The two ways to configuration space agree, accesses stay
    inside it, and the firmware sees the memory that is mapped.

  A failed assertion and an access outside of an array are the value \<open>None\<close>; a theorem that gives
  a result \<open>Some\<close> shows that neither happens. Loops are recursions with termination proofs, except the
  wait loops on hardware and the run loop of the monitor, whose number of rounds is a
  parameter: entropy arrives from, and exits are made by, an environment that is not in the source.
  Machine integers are words of their width where they are computed with, and natural numbers
  where they are sizes or addresses that the theorems bound.

  Parameters stand for code that is not in the repository or that the compiler provides: the
  instructions for random numbers and processor identification, the sizes of descriptors. The monitor
  runs over the two system calls that map and unmap guest memory (\<open>SYS_EVM_MAP\<close> and \<open>SYS_EVM_UNMAP\<close> in
  \<open>src/src/sys/syscalls.cpp\<close>, with \<open>map_page\<close> of \<open>src/src/arch/x86/dev/vmx.cpp\<close>) as a parameter too: the nested page
  tables behind them are not modelled. The instance \<open>log_hv\<close> records the calls and refuses, as the kernel does, host
  and guest addresses that are not aligned to a page.

  Not modelled: the ports to x86 and AArch64 (start-up, interrupt entry, context switches, page
  tables edited in place through the direct map), which are assembly and device
  registers for the most part; drivers for USB controllers, sound, network cards, PCI and graphics, which
  share memory with devices whose behaviour the source does not give; ACPI, a layer over a library that is
  not in the repository; scheduler, processes and system calls, whose content
  is concurrency of threads over these ports; file systems, the executable loader, the user
  libraries and the desktop, which move data between system calls. The locks of the modelled parts are left out: each
  operation is one step.
\<close>

end
